(* ===== verification/Kernel_Prelude.thy ===== *)
theory Kernel_Prelude
  imports Main "HOL-Library.Word"
begin

text \<open>
  Shared vocabulary of the development: the C integer types, the outcome of a kernel
  routine (a value, a \<open>PANIC()\<close> or the calling thread going to sleep), byte buffers
  with range reads and writes, little-endian encodings, and the locale \<open>codec\<close> from
  which every fixed-width on-disk structure gets its array and slot laws.
\<close>

unbundle bit_operations_syntax

section \<open>Integer types of \<open>common/defines.h\<close>\<close>

type_synonym u8 = "8 word"
type_synonym u16 = "16 word"
type_synonym u32 = "32 word"
type_synonym u64 = "64 word"

section \<open>Outcomes\<close>

text \<open>
  \<open>Ok x\<close>: the routine returned \<open>x\<close>. \<open>Panic\<close>: it reached \<open>PANIC()\<close> or a failing
  \<open>ASSERT\<close>, after which no kernel code runs. \<open>Blocked\<close>: the calling thread went to
  sleep on a semaphore and nothing the thread itself does can wake it.
\<close>

datatype 'a res = Ok 'a | Panic | Blocked

primrec bnd :: "'a res \<Rightarrow> ('a \<Rightarrow> 'b res) \<Rightarrow> 'b res" where
  "bnd (Ok x) f = f x"
| "bnd Panic f = Panic"
| "bnd Blocked f = Blocked"

definition assert :: "bool \<Rightarrow> unit res" where
  "assert b = (if b then Ok () else Panic)"

lemma assert_simps [simp]: "assert True = Ok ()" "assert False = Panic"
  by (simp_all add: assert_def)

lemma bnd_eq_Ok: "bnd m f = Ok y \<longleftrightarrow> (\<exists>x. m = Ok x \<and> f x = Ok y)"
  by (cases m) auto

lemma bnd_OkE:
  assumes "bnd m f = Ok y"
  obtains x where "m = Ok x" "f x = Ok y"
  using assms by (auto simp: bnd_eq_Ok)

lemma bnd_assert_eq_Ok: "bnd (assert b) f = Ok y \<longleftrightarrow> b \<and> f () = Ok y"
  by (cases b) auto

lemma bnd_assoc: "bnd (bnd m f) g = bnd m (\<lambda>x. bnd (f x) g)"
  by (cases m) auto

lemma bnd_cong [fundef_cong]:
  "m = m' \<Longrightarrow> (\<And>x. m' = Ok x \<Longrightarrow> f x = f' x) \<Longrightarrow> bnd m f = bnd m' f'"
  by (cases m') auto

text \<open>A counting loop whose body may fail.\<close>

primrec mfold :: "('a \<Rightarrow> 's \<Rightarrow> 's res) \<Rightarrow> 'a list \<Rightarrow> 's \<Rightarrow> 's res" where
  "mfold f [] s = Ok s"
| "mfold f (x # xs) s = bnd (f x s) (mfold f xs)"

lemma mfold_append: "mfold f (xs @ ys) s = bnd (mfold f xs s) (mfold f ys)"
proof (induction xs arbitrary: s)
  case (Cons x xs)
  then have "mfold f (xs @ ys) = (\<lambda>s. bnd (mfold f xs s) (mfold f ys))" by blast
  then show ?case by (simp add: bnd_assoc)
qed simp

text \<open>An invariant indexed by the part of the list already processed.\<close>

lemma mfold_invariant:
  assumes "P [] s"
    and "\<And>ys y zs s. xs = ys @ y # zs \<Longrightarrow> P ys s \<Longrightarrow> \<exists>s'. f y s = Ok s' \<and> P (ys @ [y]) s'"
  shows "\<exists>s'. mfold f xs s = Ok s' \<and> P xs s'"
proof -
  have "\<exists>s'. mfold f ys s = Ok s' \<and> P ys s'" if "\<exists>zs. xs = ys @ zs" for ys
    using that
  proof (induction ys rule: rev_induct)
    case Nil
    then show ?case using assms(1) by simp
  next
    case (snoc y ys)
    then obtain zs where zs: "xs = ys @ y # zs" by auto
    obtain s1 where s1: "mfold f ys s = Ok s1" "P ys s1" using snoc zs by blast
    obtain s2 where "f y s1 = Ok s2" "P (ys @ [y]) s2" using assms(2) [OF zs s1(2)] by blast
    then show ?case using s1(1) by (simp add: mfold_append)
  qed
  from this [of xs] show ?thesis by simp
qed

lemma mfold_preserves:
  assumes step: "\<And>i s s'. f i s = Ok s' \<Longrightarrow> g s' = g s"
  shows "mfold f is s = Ok s' \<Longrightarrow> g s' = g s"
proof (induction "is" arbitrary: s)
  case (Cons i "is")
  then obtain s1 where "f i s = Ok s1" "mfold f is s1 = Ok s'" by (auto simp: bnd_eq_Ok)
  then show ?case using Cons.IH step by simp
qed simp

section \<open>Byte buffers\<close>

text \<open>
  \<open>range_get off n xs\<close> is the range read \<open>[off, off + n)\<close>, \<open>range_put off ys xs\<close> the range
  write of \<open>ys\<close> at \<open>off\<close>; a \<open>memmove\<close> between two distinct buffers is a range write of a
  range read.
\<close>

definition range_get :: "nat \<Rightarrow> nat \<Rightarrow> 'a list \<Rightarrow> 'a list" where
  "range_get off n xs = take n (drop off xs)"

definition range_put :: "nat \<Rightarrow> 'a list \<Rightarrow> 'a list \<Rightarrow> 'a list" where
  "range_put off ys xs = take off xs @ ys @ drop (off + length ys) xs"

named_theorems buf_simps

lemma length_range_get [buf_simps]: "off + n \<le> length xs \<Longrightarrow> length (range_get off n xs) = n"
  by (simp add: range_get_def)

lemma length_range_put [buf_simps]:
  "off + length ys \<le> length xs \<Longrightarrow> length (range_put off ys xs) = length xs"
  by (simp add: range_put_def)

lemma nth_range_get [buf_simps]:
  "off + n \<le> length xs \<Longrightarrow> i < n \<Longrightarrow> range_get off n xs ! i = xs ! (off + i)"
  by (simp add: range_get_def)

lemma nth_range_put [buf_simps]:
  "off + length ys \<le> length xs \<Longrightarrow> i < length xs \<Longrightarrow>
   range_put off ys xs ! i = (if off \<le> i \<and> i < off + length ys then ys ! (i - off) else xs ! i)"
  by (auto simp: range_put_def nth_append min_def)

lemma range_get_put_same [buf_simps]:
  assumes "off + length ys \<le> length xs" and "n = length ys"
  shows "range_get off n (range_put off ys xs) = ys"
  using assms by (simp add: range_get_def range_put_def)

lemma range_get_put_within:
  assumes "off + length ys \<le> length xs" and "o2 + n \<le> length ys"
  shows "range_get (off + o2) n (range_put off ys xs) = range_get o2 n ys"
  using assms by (intro nth_equalityI) (auto simp: buf_simps)

lemma range_get_put_disjoint [buf_simps]:
  assumes "off + length ys \<le> length xs" and "o2 + n \<le> length xs"
    and "o2 + n \<le> off \<or> off + length ys \<le> o2"
  shows "range_get o2 n (range_put off ys xs) = range_get o2 n xs"
  using assms by (intro nth_equalityI) (auto simp: buf_simps)

lemma range_put_get_id [buf_simps]:
  "off + n \<le> length xs \<Longrightarrow> range_put off (range_get off n xs) xs = xs"
  by (intro nth_equalityI) (auto simp: buf_simps)

lemma range_put_whole [buf_simps]: "length ys = length xs \<Longrightarrow> range_put 0 ys xs = ys"
  by (simp add: range_put_def)

lemma range_get_whole [buf_simps]: "n = length xs \<Longrightarrow> range_get 0 n xs = xs"
  by (simp add: range_get_def)

lemma range_get_get:
  "o2 + m \<le> n \<Longrightarrow> range_get o2 m (range_get off n xs) = range_get (off + o2) m xs"
  by (simp add: range_get_def drop_take add.commute min_def)

lemma range_get_append:
  "range_get off n xs @ range_get (off + n) m xs = range_get off (n + m) xs"
  by (simp add: range_get_def take_add) (simp add: add.commute)

section \<open>Little-endian words\<close>

text \<open>
  The machine is little-endian: byte \<open>i\<close> of an integer object holds bits
  \<open>8 i .. 8 i + 7\<close>.
\<close>

definition le_bytes :: "nat \<Rightarrow> 'a::len word \<Rightarrow> u8 list" where
  "le_bytes n w = map (\<lambda>i. ucast (drop_bit (8 * i) w)) [0..<n]"

primrec le_word :: "u8 list \<Rightarrow> 'a::len word" where
  "le_word [] = 0"
| "le_word (b # bs) = ucast b OR push_bit 8 (le_word bs)"

lemma le_word_zeros [simp]: "le_word (replicate n 0) = 0"
  by (induction n) simp_all

lemma length_le_bytes [simp]: "length (le_bytes n w) = n"
  by (simp add: le_bytes_def)

lemma bit_le_word:
  "bit (le_word bs :: 'a::len word) k \<longleftrightarrow>
   k < LENGTH('a) \<and> k div 8 < length bs \<and> bit (bs ! (k div 8)) (k mod 8)"
proof (induction bs arbitrary: k)
  case Nil
  then show ?case by simp
next
  case (Cons b bs)
  show ?case
  proof (cases "k < 8")
    case True
    then show ?thesis
      by (auto simp: bit_or_iff bit_push_bit_iff bit_ucast_iff)
  next
    case False
    then have k: "k div 8 = Suc ((k - 8) div 8)" "k mod 8 = (k - 8) mod 8"
      by (simp_all add: le_div_geq le_mod_geq)
    have "\<not> bit b k"
      using False by (auto dest: bit_imp_le_length)
    then show ?thesis
      using False by (auto simp: bit_or_iff bit_push_bit_iff bit_ucast_iff k Cons.IH)
  qed
qed

lemma le_word_le_bytes:
  assumes "LENGTH('a) = 8 * n"
  shows "le_word (le_bytes n w) = (w :: 'a::len word)"
proof (rule bit_word_eqI)
  fix k assume k: "k < LENGTH('a)"
  then have "k div 8 < n" using assms by auto
  then show "bit (le_word (le_bytes n w) :: 'a word) k = bit w k"
    using k by (simp add: bit_le_word le_bytes_def bit_ucast_iff bit_drop_bit_eq)
qed

lemma le_bytes_le_word:
  assumes "LENGTH('a) = 8 * n" and "length bs = n"
  shows "le_bytes n (le_word bs :: 'a::len word) = bs"
proof (rule nth_equalityI)
  show "length (le_bytes n (le_word bs :: 'a word)) = length bs" using assms by simp
next
  fix i assume "i < length (le_bytes n (le_word bs :: 'a word))"
  then have i: "i < n" by simp
  show "le_bytes n (le_word bs :: 'a word) ! i = bs ! i"
  proof (rule bit_word_eqI)
    fix k assume k: "k < LENGTH(8)"
    have "8 * i + k < 8 * n"
      using i k by simp
    then show "bit (le_bytes n (le_word bs :: 'a word) ! i) k = bit (bs ! i) k"
      using i k assms by (simp add: le_bytes_def bit_ucast_iff bit_drop_bit_eq bit_le_word)
  qed
qed

section \<open>Fixed-width encodings\<close>

text \<open>
  A C object of a fixed-size type stored in a byte buffer. \<open>arr_get\<close> and \<open>arr_put\<close>
  are reads and writes through a pointer \<open>(T *)buf\<close> at index \<open>i\<close>.
\<close>

definition arr_get :: "nat \<Rightarrow> (u8 list \<Rightarrow> 'a) \<Rightarrow> nat \<Rightarrow> u8 list \<Rightarrow> 'a" where
  "arr_get w dec i buf = dec (range_get (i * w) w buf)"

definition arr_put :: "nat \<Rightarrow> ('a \<Rightarrow> u8 list) \<Rightarrow> nat \<Rightarrow> 'a \<Rightarrow> u8 list \<Rightarrow> u8 list" where
  "arr_put w enc i x buf = range_put (i * w) (enc x) buf"

lemma slot_bound: "(i::nat) < n \<Longrightarrow> n * w \<le> m \<Longrightarrow> i * w + w \<le> m"
proof -
  assume "i < n" and "n * w \<le> m"
  then have "Suc i * w \<le> n * w" by (intro mult_le_mono1) simp
  with \<open>n * w \<le> m\<close> show ?thesis by simp
qed

lemma slots_disjoint:
  assumes "(i::nat) \<noteq> j" shows "j * w + w \<le> i * w \<or> i * w + w \<le> j * w"
proof (cases "j < i")
  case True
  then have "(j + 1) * w \<le> i * w" by (intro mult_le_mono1) simp
  then show ?thesis by simp
next
  case False
  then have "(i + 1) * w \<le> j * w" using assms by (intro mult_le_mono1) simp
  then show ?thesis by simp
qed

locale codec =
  fixes enc :: "'a \<Rightarrow> u8 list" and dec :: "u8 list \<Rightarrow> 'a" and width :: nat
    and wf :: "'a \<Rightarrow> bool"
  assumes enc_length: "wf x \<Longrightarrow> length (enc x) = width"
    and dec_enc: "wf x \<Longrightarrow> dec (enc x) = x"
begin

lemma arr_put_length:
  "wf x \<Longrightarrow> i < n \<Longrightarrow> n * width \<le> length buf \<Longrightarrow> length (arr_put width enc i x buf) = length buf"
  by (simp add: arr_put_def buf_simps enc_length slot_bound)

lemma arr_get_put_same:
  "wf x \<Longrightarrow> i < n \<Longrightarrow> n * width \<le> length buf \<Longrightarrow>
   arr_get width dec i (arr_put width enc i x buf) = x"
  by (simp add: arr_get_def arr_put_def buf_simps enc_length slot_bound dec_enc)

lemma arr_get_put_other:
  "wf x \<Longrightarrow> i < n \<Longrightarrow> j < n \<Longrightarrow> n * width \<le> length buf \<Longrightarrow> i \<noteq> j \<Longrightarrow>
   arr_get width dec j (arr_put width enc i x buf) = arr_get width dec j buf"
  using slots_disjoint [of i j width]
  by (simp add: arr_get_def arr_put_def buf_simps enc_length slot_bound)

lemma arr_get_concat:
  "(\<forall>x\<in>set xs. wf x) \<Longrightarrow> i < length xs \<Longrightarrow>
   arr_get width dec i (concat (map enc xs) @ ys) = xs ! i"
proof (induction xs arbitrary: i)
  case Nil
  then show ?case by simp
next
  case (Cons x xs)
  then have [simp]: "length (enc x) = width" by (simp add: enc_length)
  show ?case
  proof (cases i)
    case 0
    then show ?thesis
      using Cons.prems by (simp add: arr_get_def range_get_def dec_enc)
  next
    case (Suc j)
    have "arr_get width dec i (concat (map enc (x # xs)) @ ys) =
          arr_get width dec j (concat (map enc xs) @ ys)"
      by (simp add: Suc arr_get_def range_get_def)
    then show ?thesis using Cons Suc by simp
  qed
qed

lemma length_concat_enc:
  "(\<forall>x\<in>set xs. wf x) \<Longrightarrow> length (concat (map enc xs)) = length xs * width"
  by (induction xs) (auto simp: enc_length)

lemma map_arr_get_concat:
  "(\<forall>x\<in>set xs. wf x) \<Longrightarrow>
   map (\<lambda>i. arr_get width dec i (concat (map enc xs) @ ys)) [0..<length xs] = xs"
  by (intro nth_equalityI) (simp_all add: arr_get_concat)

end

text \<open>The integer types as codecs.\<close>

abbreviation enc16 :: "u16 \<Rightarrow> u8 list" where "enc16 \<equiv> le_bytes 2"
abbreviation enc32 :: "u32 \<Rightarrow> u8 list" where "enc32 \<equiv> le_bytes 4"
abbreviation enc64 :: "u64 \<Rightarrow> u8 list" where "enc64 \<equiv> le_bytes 8"
abbreviation dec16 :: "u8 list \<Rightarrow> u16" where "dec16 \<equiv> le_word"
abbreviation dec32 :: "u8 list \<Rightarrow> u32" where "dec32 \<equiv> le_word"
abbreviation dec64 :: "u8 list \<Rightarrow> u64" where "dec64 \<equiv> le_word"

interpretation c16: codec enc16 dec16 2 "\<lambda>_. True"
  by unfold_locales (simp_all add: le_word_le_bytes)

interpretation c32: codec enc32 dec32 4 "\<lambda>_. True"
  by unfold_locales (simp_all add: le_word_le_bytes)

interpretation c64: codec enc64 dec64 8 "\<lambda>_. True"
  by unfold_locales (simp_all add: le_word_le_bytes)

end
