(* ===== verification/Linked_List.thy ===== *)
theory Linked_List
  imports Kernel_Prelude
begin

text \<open>
  The intrusive circular doubly linked lists of \<open>common/list.h\<close> and \<open>common/list.c\<close>,
  modelled on an explicit store: a \<open>ListNode\<close> is an address, its \<open>prev\<close> and \<open>next\<close>
  fields are two maps from addresses to addresses and \<open>NULL\<close> is address \<open>0\<close>. The
  predicate \<open>clist h hn xs\<close> says that the ring through \<open>hn\<close> holds exactly \<open>xs\<close>;
  each pointer routine is shown to act on \<open>xs\<close> as a HOL list operation, which is what
  entitles the client components to keep their lists as HOL lists. The bounded FIFO
  \<open>Queue\<close> and the \<open>QueueNode\<close> stack used by the page allocator follow.
\<close>

section \<open>The store and the routines\<close>

type_synonym addr = nat

abbreviation (input) NULL :: addr where "NULL \<equiv> 0"

record list_heap =
  lprev :: "addr \<Rightarrow> addr"
  lnext :: "addr \<Rightarrow> addr"

definition set_prev :: "addr \<Rightarrow> addr \<Rightarrow> list_heap \<Rightarrow> list_heap" where
  "set_prev a v h = h\<lparr>lprev := (lprev h)(a := v)\<rparr>"

definition set_next :: "addr \<Rightarrow> addr \<Rightarrow> list_heap \<Rightarrow> list_heap" where
  "set_next a v h = h\<lparr>lnext := (lnext h)(a := v)\<rparr>"

definition init_list_node :: "addr \<Rightarrow> list_heap \<Rightarrow> list_heap" where
  "init_list_node node h = set_next node node (set_prev node node h)"

definition merge_list :: "addr \<Rightarrow> addr \<Rightarrow> list_heap \<Rightarrow> addr \<times> list_heap" where
  "merge_list node1 node2 h =
     (if node1 = NULL then (node2, h)
      else if node2 = NULL then (node1, h)
      else
        let node3 = lnext h node1;
            node4 = lprev h node2;
            h = set_next node1 node2 h;
            h = set_prev node2 node1 h;
            h = set_next node4 node3 h;
            h = set_prev node3 node4 h
        in (node1, h))"

definition insert_into_list :: "addr \<Rightarrow> addr \<Rightarrow> list_heap \<Rightarrow> addr \<times> list_heap" where
  "insert_into_list list node h = merge_list list node (init_list_node node h)"

definition detach_from_list :: "addr \<Rightarrow> list_heap \<Rightarrow> addr \<times> list_heap" where
  "detach_from_list node h =
     (let prev = lprev h node;
          h = set_next (lprev h node) (lnext h node) h;
          h = set_prev (lnext h node) (lprev h node) h;
          h = init_list_node node h
      in (if prev = node then NULL else prev, h))"

definition empty_list :: "addr \<Rightarrow> list_heap \<Rightarrow> bool" where
  "empty_list list h \<longleftrightarrow> lnext h list = list"

text \<open>
  The walk of \<open>_for_in_list\<close>: the nodes the loop variable takes, in order, when the
  body neither leaves the loop nor changes a link. One unit of fuel per evaluation of
  the loop condition.
\<close>

fun for_in_list_from :: "nat \<Rightarrow> list_heap \<Rightarrow> addr \<Rightarrow> addr \<Rightarrow> addr list option" where
  "for_in_list_from 0 h flag valptr = None"
| "for_in_list_from (Suc fuel) h flag valptr =
     (if valptr = NULL then Some []
      else map_option ((#) valptr)
             (for_in_list_from fuel h flag (if valptr = flag then NULL else lnext h valptr)))"

definition for_in_list :: "nat \<Rightarrow> list_heap \<Rightarrow> addr \<Rightarrow> addr list option" where
  "for_in_list fuel h list = for_in_list_from fuel h list (lnext h list)"

section \<open>Rings\<close>

text \<open>\<open>seg h a xs b\<close>: following \<open>next\<close> from \<open>a\<close> visits \<open>xs\<close> and then \<open>b\<close>, and every
  link has its \<open>prev\<close> mate.\<close>

fun seg :: "list_heap \<Rightarrow> addr \<Rightarrow> addr list \<Rightarrow> addr \<Rightarrow> bool" where
  "seg h a [] b \<longleftrightarrow> lnext h a = b \<and> lprev h b = a"
| "seg h a (x # xs) b \<longleftrightarrow> lnext h a = x \<and> lprev h x = a \<and> seg h x xs b"

definition clist :: "list_heap \<Rightarrow> addr \<Rightarrow> addr list \<Rightarrow> bool" where
  "clist h hn xs \<longleftrightarrow> seg h hn xs hn \<and> distinct (hn # xs) \<and> NULL \<notin> set (hn # xs)"

lemmas store_defs = set_prev_def set_next_def

lemma seg_append: "seg h a (xs @ x # ys) b \<longleftrightarrow> seg h a xs x \<and> seg h x ys b"
  by (induction xs arbitrary: a) auto

lemma seg_frame:
  assumes "\<And>x. x \<in> set (a # xs) \<Longrightarrow> lnext h' x = lnext h x"
    and "\<And>x. x \<in> set (xs @ [b]) \<Longrightarrow> lprev h' x = lprev h x"
  shows "seg h' a xs b = seg h a xs b"
  using assms by (induction xs arbitrary: a) auto

lemma seg_last_prev: "seg h a xs b \<Longrightarrow> lprev h b = last (a # xs)"
  by (induction xs arbitrary: a) auto

lemma seg_first_next: "seg h a xs b \<Longrightarrow> lnext h a = hd (xs @ [b])"
  by (cases xs) auto

lemma clist_next: "clist h hn xs \<Longrightarrow> lnext h hn = hd (xs @ [hn])"
  by (simp add: clist_def seg_first_next)

lemma clist_prev: "clist h hn xs \<Longrightarrow> lprev h hn = last (hn # xs)"
  unfolding clist_def by (blast dest: seg_last_prev)

lemma clist_empty_list: "clist h hn xs \<Longrightarrow> empty_list hn h \<longleftrightarrow> xs = []"
  by (cases xs) (auto simp: empty_list_def clist_def)

lemma clist_rotate: "clist h a (xs @ b # ys) \<longleftrightarrow> clist h b (ys @ a # xs)"
  by (auto simp: clist_def seg_append)

text \<open>Splitting a ring at its last node.\<close>

lemma seg_snoc: "seg h a (xs @ [x]) b \<longleftrightarrow> seg h a xs x \<and> lnext h x = b \<and> lprev h b = x"
  by (simp add: seg_append)

lemma seg_relink:
  assumes "seg h a xs b" and "distinct (a # xs)"
    and "c = last (a # xs)"
    and "\<And>x. x \<in> set (a # xs) \<Longrightarrow> x \<noteq> c \<Longrightarrow> lnext h' x = lnext h x"
    and "\<And>x. x \<in> set xs \<Longrightarrow> lprev h' x = lprev h x"
    and "lnext h' c = d" and "lprev h' d = c"
  shows "seg h' a xs d"
  using assms
proof (induction xs arbitrary: a)
  case Nil
  then show ?case by simp
next
  case (Cons x xs)
  have "a \<noteq> c" using Cons.prems(2,3) last_in_set [of "x # xs"] by auto
  then have "lnext h' a = x" using Cons.prems(1,4) by simp
  moreover have "lprev h' x = a" using Cons.prems(1,5) by simp
  moreover have "seg h' x xs d"
    by (rule Cons.IH) (use Cons.prems in auto)
  ultimately show ?case by simp
qed

lemma init_list_node_simps [simp]:
  "lnext (init_list_node n h) x = (if x = n then n else lnext h x)"
  "lprev (init_list_node n h) x = (if x = n then n else lprev h x)"
  by (simp_all add: init_list_node_def store_defs)

lemma clist_frame:
  assumes "clist h hn xs" and "\<And>x. x \<in> set (hn # xs) \<Longrightarrow> lnext h' x = lnext h x"
    and "\<And>x. x \<in> set (hn # xs) \<Longrightarrow> lprev h' x = lprev h x"
  shows "clist h' hn xs"
  using assms seg_frame [of hn xs h' h hn] by (auto simp: clist_def)

lemma clist_init: "n \<noteq> NULL \<Longrightarrow> clist (init_list_node n h) n []"
  by (simp add: clist_def)

lemma clist_init_other:
  "clist h hn xs \<Longrightarrow> n \<notin> set (hn # xs) \<Longrightarrow> clist (init_list_node n h) hn xs"
  by (erule clist_frame) auto

section \<open>Merging, inserting, detaching\<close>

lemma merge_list_heap:
  assumes "node1 \<noteq> NULL" and "node2 \<noteq> NULL" and "merge_list node1 node2 h = (r, h')"
  shows "r = node1"
    and "lnext h' x = (if x = lprev h node2 then lnext h node1
                       else if x = node1 then node2 else lnext h x)"
    and "lprev h' x = (if x = lnext h node1 then lprev h node2
                       else if x = node2 then node1 else lprev h x)"
  using assms by (auto simp: merge_list_def store_defs Let_def)

lemma merge_list_clist:
  assumes a: "clist h a xs" and b: "clist h b ys"
    and disj: "set (a # xs) \<inter> set (b # ys) = {}"
    and m: "merge_list a b h = (r, h')"
  shows "r = a" and "clist h' a (b # ys @ xs)"
    and "\<And>c zs. clist h c zs \<Longrightarrow> set (c # zs) \<inter> (set (a # xs) \<union> set (b # ys)) = {} \<Longrightarrow>
           clist h' c zs"
proof -
  have nn: "a \<noteq> NULL" "b \<noteq> NULL" using a b by (auto simp: clist_def)
  note h' = merge_list_heap [OF nn m]
  show "r = a" by (rule h')
  have an: "lnext h a = hd (xs @ [a])" using a by (rule clist_next)
  have bp: "lprev h b = last (b # ys)" using b by (rule clist_prev)
  have lastb: "last (b # ys) \<in> set (b # ys)" by (rule last_in_set) simp
  have hda: "hd (xs @ [a]) \<in> set (a # xs)" by (cases xs) auto
  have segb: "seg h b ys b" and sega: "seg h a xs a"
    and da: "distinct (a # xs)" and db: "distinct (b # ys)"
    using a b by (auto simp: clist_def)
  have n1: "lnext h' a = b" and p1: "lprev h' b = a"
    using disj lastb hda by (auto simp: h' bp an)
  have s1: "seg h' b ys (hd (xs @ [a]))"
  proof (rule seg_relink [OF segb db refl])
    fix x assume x: "x \<in> set (b # ys)" and "x \<noteq> last (b # ys)"
    then show "lnext h' x = lnext h x" using disj by (auto simp: h' bp)
  next
    fix x assume "x \<in> set ys"
    then show "lprev h' x = lprev h x" using disj db hda by (auto simp: h' an)
  qed (simp_all add: h' an bp)
  have s2: "seg h' a (b # ys @ xs) a"
  proof (cases xs)
    case Nil
    then show ?thesis using n1 p1 s1 by simp
  next
    case (Cons x zs)
    have "seg h' x zs a"
    proof -
      have "seg h x zs a" using sega Cons by simp
      moreover have "seg h' x zs a = seg h x zs a"
        by (rule seg_frame) (use Cons disj lastb da in \<open>auto simp: h' bp an\<close>)
      ultimately show ?thesis by simp
    qed
    then show ?thesis using n1 p1 s1 Cons by (simp add: seg_append)
  qed
  then show "clist h' a (b # ys @ xs)"
    using a b disj by (auto simp: clist_def)
  show "clist h' c zs" if c: "clist h c zs"
    and d: "set (c # zs) \<inter> (set (a # xs) \<union> set (b # ys)) = {}" for c zs
    using c by (rule clist_frame) (use d lastb hda in \<open>auto simp: h' bp an\<close>)
qed

lemma insert_into_list_clist:
  assumes "clist h hn xs" and "n \<notin> set (hn # xs)" and "n \<noteq> NULL"
    and "insert_into_list hn n h = (r, h')"
  shows "clist h' hn (n # xs)"
  using merge_list_clist(2) [OF clist_init_other [OF assms(1,2)] clist_init [OF assms(3)]] assms
  by (auto simp: insert_into_list_def)

lemma insert_into_list_tail:
  assumes c: "clist h hn xs" and n: "n \<notin> set (hn # xs)" "n \<noteq> NULL"
    and i: "insert_into_list (lprev h hn) n h = (r, h')"
  shows "clist h' hn (xs @ [n])"
proof (cases xs rule: rev_cases)
  case Nil
  then show ?thesis
    using insert_into_list_clist [OF c n] i clist_prev [OF c] by simp
next
  case (snoc ys y)
  have p: "lprev h hn = y" using clist_prev [OF c] snoc by simp
  have c': "clist h y (hn # ys)"
    using c snoc clist_rotate [of h hn ys y "[]"] by simp
  have "clist h' y (n # hn # ys)"
    by (rule insert_into_list_clist [OF c' _ n(2)]) (use n snoc i p in auto)
  then show ?thesis
    using snoc clist_rotate [of h' y "[n]" hn ys] clist_rotate [of h' hn ys y "[n]"] by simp
qed

lemma detach_from_list_heap:
  assumes "detach_from_list node h = (r, h')"
  shows "r = (if lprev h node = node then NULL else lprev h node)"
    and "lnext h' x = (if x = node then node
                       else if x = lprev h node then lnext h node else lnext h x)"
    and "lprev h' x = (if x = node then node
                       else if x = lnext h node then lprev h node else lprev h x)"
  using assms by (auto simp: detach_from_list_def Let_def store_defs)

lemma detach_from_list_clist:
  assumes c: "clist h hn (xs @ n # ys)" and d: "detach_from_list n h = (r, h')"
  shows "r = last (hn # xs)" and "clist h' hn (xs @ ys)" and "clist h' n []"
    and "\<And>k zs. clist h k zs \<Longrightarrow> set (k # zs) \<inter> set (hn # xs @ n # ys) = {} \<Longrightarrow> clist h' k zs"
proof -
  note h' = detach_from_list_heap [OF d]
  have s: "seg h hn xs n" "seg h n ys hn" and dist: "distinct (hn # xs @ n # ys)"
    and nz: "NULL \<notin> set (hn # xs @ n # ys)"
    using c by (auto simp: clist_def seg_append)
  have p: "lprev h n = last (hn # xs)" using s(1) by (rule seg_last_prev)
  have nx: "lnext h n = hd (ys @ [hn])" using s(2) by (rule seg_first_next)
  have lin: "last (hn # xs) \<in> set (hn # xs)" by (rule last_in_set) simp
  have hin: "hd (ys @ [hn]) \<in> set (hn # ys)" by (cases ys) auto
  show "r = last (hn # xs)" using h'(1) p lin dist by auto
  show "clist h' n []" using nz by (simp add: clist_def h')
  have s1: "seg h' hn xs (hd (ys @ [hn]))"
  proof (rule seg_relink [OF s(1) _ refl])
    show "distinct (hn # xs)" using dist by simp
  next
    fix x assume "x \<in> set (hn # xs)" and "x \<noteq> last (hn # xs)"
    then show "lnext h' x = lnext h x" using dist by (auto simp: h' p)
  next
    fix x assume "x \<in> set xs"
    then show "lprev h' x = lprev h x" using dist hin by (auto simp: h' nx)
  next
    show "lnext h' (last (hn # xs)) = hd (ys @ [hn])" using lin dist by (auto simp: h' p nx)
    show "lprev h' (hd (ys @ [hn])) = last (hn # xs)" using hin dist by (auto simp: h' p nx)
  qed
  have "seg h' hn (xs @ ys) hn"
  proof (cases ys)
    case Nil
    then show ?thesis using s1 by simp
  next
    case (Cons y zs)
    have "seg h y zs hn" using s(2) Cons by simp
    moreover have "seg h' y zs hn = seg h y zs hn"
      by (rule seg_frame) (use dist Cons lin in \<open>auto simp: h' p nx\<close>)
    ultimately show ?thesis using s1 Cons by (simp add: seg_append)
  qed
  then show "clist h' hn (xs @ ys)" using dist nz by (auto simp: clist_def)
  show "clist h' k zs" if k: "clist h k zs"
    and e: "set (k # zs) \<inter> set (hn # xs @ n # ys) = {}" for k zs
    using k by (rule clist_frame) (use e lin hin in \<open>auto simp: h' p nx\<close>)
qed

section \<open>Iteration\<close>

lemma for_in_list_from_seg:
  assumes "seg h x ys hn" and "x \<noteq> hn" and "hn \<notin> set ys" and "NULL \<notin> set (hn # x # ys)"
    and "length ys + 3 \<le> fuel"
  shows "for_in_list_from fuel h hn x = Some (x # ys @ [hn])"
  using assms
proof (induction ys arbitrary: x fuel)
  case Nil
  then obtain k where "fuel = 3 + k" using le_Suc_ex [of 3 fuel] by auto
  then show ?case using Nil by (simp add: numeral_3_eq_3)
next
  case (Cons y ys)
  then obtain k where k: "fuel = Suc k" by (cases fuel) auto
  have "for_in_list_from k h hn y = Some (y # ys @ [hn])"
    by (rule Cons.IH) (use Cons.prems k in auto)
  then show ?case using Cons.prems k by auto
qed

lemma for_in_list_clist:
  assumes c: "clist h hn xs" and f: "length xs + 2 \<le> fuel"
  shows "for_in_list fuel h hn = Some (xs @ [hn])"
proof (cases xs)
  case Nil
  obtain k where k: "fuel = Suc (Suc k)"
    using f Nil le_Suc_ex [of 2 fuel] by auto
  then show ?thesis using c Nil by (simp add: for_in_list_def clist_def)
next
  case (Cons x ys)
  then have "lnext h hn = x" "seg h x ys hn" "x \<noteq> hn" "hn \<notin> set ys" "NULL \<notin> set (hn # x # ys)"
    using c by (auto simp: clist_def)
  then show ?thesis
    using for_in_list_from_seg [of h x ys hn fuel] Cons f by (simp add: for_in_list_def)
qed

section \<open>The request queue\<close>

record Queue =
  q_begin :: addr
  q_end :: addr
  q_sz :: int

definition queue_init :: "Queue" where
  "queue_init = \<lparr>q_begin = NULL, q_end = NULL, q_sz = 0\<rparr>"

definition queue_push :: "addr \<Rightarrow> list_heap \<times> Queue \<Rightarrow> list_heap \<times> Queue" where
  "queue_push item = (\<lambda>(h, x).
     let h = init_list_node item h in
     if q_sz x = 0 then (h, x\<lparr>q_begin := item, q_end := item, q_sz := q_sz x + 1\<rparr>)
     else (snd (merge_list (q_end x) item h), x\<lparr>q_end := item, q_sz := q_sz x + 1\<rparr>))"

definition queue_pop :: "list_heap \<times> Queue \<Rightarrow> (list_heap \<times> Queue) res" where
  "queue_pop = (\<lambda>(h, x).
     if q_sz x = 0 then Panic
     else if q_sz x = 1 then Ok (h, x\<lparr>q_begin := NULL, q_end := NULL, q_sz := q_sz x - 1\<rparr>)
     else let t = q_begin x;
              x = x\<lparr>q_begin := lnext h (q_begin x)\<rparr>
          in Ok (snd (detach_from_list t h), x\<lparr>q_sz := q_sz x - 1\<rparr>))"

definition queue_front :: "list_heap \<times> Queue \<Rightarrow> addr res" where
  "queue_front = (\<lambda>(h, x). if q_begin x = NULL then Panic else Ok (q_begin x))"

definition queue_empty :: "list_heap \<times> Queue \<Rightarrow> bool" where
  "queue_empty = (\<lambda>(h, x). q_sz x = 0)"

text \<open>The queue holds \<open>xs\<close>: the items form one ring entered at \<open>begin\<close>.\<close>

fun queue_rep :: "list_heap \<times> Queue \<Rightarrow> addr list \<Rightarrow> bool" where
  "queue_rep (h, q) [] \<longleftrightarrow> q_sz q = 0 \<and> q_begin q = NULL \<and> q_end q = NULL"
| "queue_rep (h, q) (x # xs) \<longleftrightarrow>
     q_sz q = int (length (x # xs)) \<and> q_begin q = x \<and> q_end q = last (x # xs) \<and> clist h x xs"

text \<open>The FIFO contract and what every client of it may rely on.\<close>

locale fifo_queue =
  fixes push :: "'e \<Rightarrow> 's \<Rightarrow> 's" and pop :: "'s \<Rightarrow> 's res" and front :: "'s \<Rightarrow> 'e res"
    and is_empty :: "'s \<Rightarrow> bool" and rep :: "'s \<Rightarrow> 'e list \<Rightarrow> bool" and item_ok :: "'e \<Rightarrow> bool"
  assumes rep_push: "rep s xs \<Longrightarrow> item_ok x \<Longrightarrow> x \<notin> set xs \<Longrightarrow> rep (push x s) (xs @ [x])"
    and rep_pop: "rep s (x # xs) \<Longrightarrow> \<exists>s'. pop s = Ok s' \<and> rep s' xs"
    and pop_empty: "rep s [] \<Longrightarrow> pop s = Panic"
    and rep_front: "rep s (x # xs) \<Longrightarrow> front s = Ok x"
    and front_empty: "rep s [] \<Longrightarrow> front s = Panic"
    and rep_empty: "rep s xs \<Longrightarrow> is_empty s \<longleftrightarrow> xs = []"
begin

lemma rep_push_all:
  "rep s xs \<Longrightarrow> \<forall>y\<in>set ys. item_ok y \<Longrightarrow> distinct (xs @ ys) \<Longrightarrow> rep (fold push ys s) (xs @ ys)"
proof (induction ys arbitrary: s xs)
  case Nil
  then show ?case by simp
next
  case (Cons y ys)
  then have "rep (push y s) (xs @ [y])" by (intro rep_push) auto
  then show ?case using Cons.IH [of "push y s" "xs @ [y]"] Cons.prems by simp
qed

end

text \<open>Serving a queue: take the front, pop it, until the queue is empty.\<close>

fun serve :: "nat \<Rightarrow> list_heap \<times> Queue \<Rightarrow> (addr list \<times> (list_heap \<times> Queue)) res" where
  "serve 0 s = Ok ([], s)"
| "serve (Suc n) s =
     (if queue_empty s then Ok ([], s)
      else bnd (queue_front s) (\<lambda>x.
           bnd (queue_pop s) (\<lambda>s.
           bnd (serve n s) (\<lambda>(xs, s). Ok (x # xs, s)))))"

lemma queue_rep_push:
  assumes "queue_rep s xs" and "x \<noteq> NULL" and "x \<notin> set xs"
  shows "queue_rep (queue_push x s) (xs @ [x])"
proof -
  obtain h q where s: "s = (h, q)" by (cases s)
  show ?thesis
  proof (cases xs)
    case Nil
    then show ?thesis using assms s by (simp add: queue_push_def clist_init)
  next
    case (Cons y ys)
    have c: "clist h y ys" and e: "q_end q = last (y # ys)" and b: "q_begin q = y"
      and z: "q_sz q = int (length (y # ys))"
      using assms(1) s Cons by auto
    have ins: "queue_push x s =
      (snd (insert_into_list (lprev h y) x h), q\<lparr>q_end := x, q_sz := q_sz q + 1\<rparr>)"
      using z clist_prev [OF c] e s by (simp add: queue_push_def insert_into_list_def)
    obtain r h' where i: "insert_into_list (lprev h y) x h = (r, h')"
      by (cases "insert_into_list (lprev h y) x h")
    have "clist h' y (ys @ [x])"
      using insert_into_list_tail [OF c _ _ i] assms Cons by auto
    then show ?thesis using ins i z b Cons by simp
  qed
qed

lemma queue_rep_pop:
  assumes "queue_rep s (x # xs)"
  shows "\<exists>s'. queue_pop s = Ok s' \<and> queue_rep s' xs"
proof -
  obtain h q where s: "s = (h, q)" by (cases s)
  have c: "clist h x xs" and e: "q_end q = last (x # xs)" and b: "q_begin q = x"
    and z: "q_sz q = int (length (x # xs))"
    using assms s by auto
  show ?thesis
  proof (cases xs)
    case Nil
    then show ?thesis using s z by (simp add: queue_pop_def)
  next
    case (Cons y ys)
    have nx: "lnext h x = y" using clist_next [OF c] Cons by simp
    obtain r h' where d: "detach_from_list x h = (r, h')" by (cases "detach_from_list x h")
    have "clist h y (ys @ [x])" using c Cons clist_rotate [of h x "[]" y ys] by simp
    from detach_from_list_clist(2) [OF this d] have "clist h' y ys" by simp
    then show ?thesis
      using s z b e nx d Cons by (simp add: queue_pop_def Let_def)
  qed
qed

interpretation rq: fifo_queue queue_push queue_pop queue_front queue_empty queue_rep
  "\<lambda>x. x \<noteq> NULL"
proof unfold_locales
  show "queue_rep (queue_push x s) (xs @ [x])" if "queue_rep s xs" "x \<noteq> NULL" "x \<notin> set xs" for s xs x
    using that by (rule queue_rep_push)
  show "\<exists>s'. queue_pop s = Ok s' \<and> queue_rep s' xs" if "queue_rep s (x # xs)" for s x xs
    using that by (rule queue_rep_pop)
  show "queue_pop s = Panic" if "queue_rep s []" for s
    using that by (cases s) (simp add: queue_pop_def)
  show "queue_front s = Ok x" if "queue_rep s (x # xs)" for s x xs
    using that by (cases s) (auto simp: queue_front_def clist_def)
  show "queue_front s = Panic" if "queue_rep s []" for s
    using that by (cases s) (simp add: queue_front_def)
  show "queue_empty s = (xs = [])" if "queue_rep s xs" for s xs
    using that by (cases s; cases xs) (auto simp: queue_empty_def)
qed

lemma serve_rep:
  "queue_rep s xs \<Longrightarrow> length xs \<le> n \<Longrightarrow> \<exists>s'. serve n s = Ok (xs, s') \<and> queue_rep s' []"
proof (induction xs arbitrary: s n)
  case Nil
  then show ?case by (cases n) (auto simp: rq.rep_empty)
next
  case (Cons x xs)
  then obtain m where n: "n = Suc m" and m: "length xs \<le> m" by (cases n) auto
  obtain s1 where s1: "queue_pop s = Ok s1" "queue_rep s1 xs"
    using rq.rep_pop [OF Cons.prems(1)] by blast
  obtain s2 where "serve m s1 = Ok (xs, s2)" "queue_rep s2 []"
    using Cons.IH [OF s1(2) m] by blast
  then show ?case
    using n s1 Cons.prems(1) rq.rep_empty [OF Cons.prems(1)] rq.rep_front [OF Cons.prems(1)] by simp
qed

section \<open>The QueueNode stack\<close>

text \<open>
  \<open>add_to_queue\<close> and \<open>fetch_from_queue\<close> run to their successful compare-and-exchange:
  the state is the shared head pointer and the \<open>next\<close> fields of the nodes.
\<close>

type_synonym node_stack = "addr \<times> (addr \<Rightarrow> addr)"

definition add_to_queue :: "addr \<Rightarrow> node_stack \<Rightarrow> addr \<times> node_stack" where
  "add_to_queue node = (\<lambda>(head, nx). (node, (node, nx(node := head))))"

definition fetch_from_queue :: "node_stack \<Rightarrow> addr \<times> node_stack" where
  "fetch_from_queue = (\<lambda>(head, nx).
     if head = NULL then (NULL, (head, nx)) else (head, (nx head, nx)))"

definition fetch_all_from_queue :: "node_stack \<Rightarrow> addr \<times> node_stack" where
  "fetch_all_from_queue = (\<lambda>(head, nx). (head, (NULL, nx)))"

fun chain :: "(addr \<Rightarrow> addr) \<Rightarrow> addr \<Rightarrow> addr list \<Rightarrow> bool" where
  "chain nx a [] \<longleftrightarrow> a = NULL"
| "chain nx a (x # xs) \<longleftrightarrow> a = x \<and> x \<noteq> NULL \<and> chain nx (nx x) xs"

definition stack_rep :: "node_stack \<Rightarrow> addr list \<Rightarrow> bool" where
  "stack_rep s xs \<longleftrightarrow> chain (snd s) (fst s) xs \<and> distinct xs"

lemma chain_upd: "x \<notin> set xs \<Longrightarrow> chain (nx(x := v)) a xs = chain nx a xs"
  by (induction xs arbitrary: a) auto

lemma stack_rep_add:
  "stack_rep s xs \<Longrightarrow> n \<noteq> NULL \<Longrightarrow> n \<notin> set xs \<Longrightarrow> stack_rep (snd (add_to_queue n s)) (n # xs)"
  by (cases s) (simp add: stack_rep_def add_to_queue_def chain_upd)

lemma stack_rep_fetch:
  "stack_rep s (x # xs) \<Longrightarrow> \<exists>s'. fetch_from_queue s = (x, s') \<and> stack_rep s' xs"
  by (cases s) (auto simp: stack_rep_def fetch_from_queue_def)

lemma stack_rep_fetch_empty: "stack_rep s [] \<Longrightarrow> fetch_from_queue s = (NULL, s)"
  by (cases s) (auto simp: stack_rep_def fetch_from_queue_def)

section \<open>Properties\<close>

text \<open>
  C1: \<open>_merge_list\<close> joins two disjoint rings into one. The nodes of the second ring,
  starting at \<open>node2\<close>, follow \<open>node1\<close> directly, the rest of the first ring comes after
  them, the result is \<open>node1\<close>, and every ring that shares no node with the two is left
  as it was.
\<close>

theorem merge_list_joins:
  assumes "clist h a xs" and "clist h b ys" and "set (a # xs) \<inter> set (b # ys) = {}"
  shows "fst (merge_list a b h) = a \<and> clist (snd (merge_list a b h)) a (b # ys @ xs) \<and>
    (\<forall>c zs. clist h c zs \<longrightarrow> set (c # zs) \<inter> (set (a # xs) \<union> set (b # ys)) = {} \<longrightarrow>
       clist (snd (merge_list a b h)) c zs)"
proof -
  obtain r h' where m: "merge_list a b h = (r, h')" by (cases "merge_list a b h")
  show ?thesis using merge_list_clist [OF assms m] m by simp
qed

theorem merge_list_joins_witness:
  "clist (snd (merge_list 1 2 \<lparr>lprev = (\<lambda>a. a), lnext = (\<lambda>a. a)\<rparr>)) 1 [2]"
  using merge_list_joins [of "\<lparr>lprev = (\<lambda>a. a), lnext = (\<lambda>a. a)\<rparr>" 1 "[]" 2 "[]"]
  by (simp add: clist_def)

text \<open>
  C2: \<open>_detach_from_list\<close> takes a node out of its ring from any position: the remaining
  nodes keep their order, the node becomes a ring of its own, the result is the node's
  old predecessor, and rings that share no node with this one are unchanged.
\<close>

theorem detach_from_list_removes:
  assumes "clist h hn (xs @ n # ys)"
  shows "fst (detach_from_list n h) = last (hn # xs) \<and>
    clist (snd (detach_from_list n h)) hn (xs @ ys) \<and>
    clist (snd (detach_from_list n h)) n [] \<and>
    (\<forall>k zs. clist h k zs \<longrightarrow> set (k # zs) \<inter> set (hn # xs @ n # ys) = {} \<longrightarrow>
       clist (snd (detach_from_list n h)) k zs)"
proof -
  obtain r h' where d: "detach_from_list n h = (r, h')" by (cases "detach_from_list n h")
  show ?thesis using detach_from_list_clist [OF assms d] d by simp
qed

theorem detach_from_list_removes_witness:
  "clist (snd (detach_from_list 2 \<lparr>lprev = (\<lambda>a. 3 - a), lnext = (\<lambda>a. 3 - a)\<rparr>)) 1 []"
  using detach_from_list_removes [of "\<lparr>lprev = (\<lambda>a. 3 - a), lnext = (\<lambda>a. 3 - a)\<rparr>" 1 "[]" 2 "[]"]
  by (simp add: clist_def)

text \<open>
  C3: the request queue is first-in first-out and loses nothing: after pushing distinct
  items onto an empty queue, taking the front and popping until the queue reports empty
  never panics and yields exactly the items in the order they were pushed.
\<close>

theorem queue_is_fifo:
  assumes "distinct xs" and "NULL \<notin> set xs"
  shows "\<exists>s'. serve (length xs) (fold queue_push xs (h, queue_init)) = Ok (xs, s') \<and>
    queue_empty s'"
proof -
  have "queue_rep (h, queue_init) []" by (simp add: queue_init_def)
  then have r: "queue_rep (fold queue_push xs (h, queue_init)) ([] @ xs)"
    using assms by (intro rq.rep_push_all) (auto intro: gr0I)
  then obtain s' where "serve (length xs) (fold queue_push xs (h, queue_init)) = Ok (xs, s')"
    and "queue_rep s' []"
    using serve_rep [OF r, of "length xs"] by auto
  then show ?thesis using rq.rep_empty by blast
qed

theorem queue_is_fifo_witness:
  "\<exists>s'. serve 3 (fold queue_push [7, 5, 9] (\<lparr>lprev = (\<lambda>_. 0), lnext = (\<lambda>_. 0)\<rparr>, queue_init)) =
     Ok ([7, 5, 9], s') \<and> queue_empty s'"
  using queue_is_fifo [of "[7, 5, 9]" "\<lparr>lprev = (\<lambda>_. 0), lnext = (\<lambda>_. 0)\<rparr>"]
  by (simp add: numeral_3_eq_3)

end
