(* ===== verification/Sync.thy ===== *)
theory Sync
  imports Linked_List
begin

text \<open>
  Synchronisation primitives: the test-and-set spin lock (\<open>common/spinlock.c\<close>), the
  atomic reference count (\<open>common/rc.c\<close>) and the counting semaphore with its sleep
  list (\<open>common/sem.c\<close>, \<open>common/sem.h\<close>). The spin lock and the sleep lock are also
  given as step relations over any number of threads, with mutual exclusion and the
  absence of lost wake-ups as invariants of every reachable state.
\<close>

section \<open>Spin locks\<close>

record SpinLock =
  locked :: bool

definition init_spinlock :: "SpinLock \<Rightarrow> SpinLock" where
  "init_spinlock lk = lk\<lparr>locked := False\<rparr>"

text \<open>\<open>__atomic_test_and_set\<close>: the old value, and the flag is set.\<close>

definition test_and_set :: "SpinLock \<Rightarrow> bool \<times> SpinLock" where
  "test_and_set lk = (locked lk, lk\<lparr>locked := True\<rparr>)"

definition release_spinlock :: "SpinLock \<Rightarrow> SpinLock" where
  "release_spinlock lk = lk\<lparr>locked := False\<rparr>"

text \<open>
  A thread spinning in \<open>_acquire_spinlock\<close> alternates between the plain read of
  \<open>locked\<close> (at \<open>Spin\<close>) and the test-and-set (at \<open>Tas\<close>); other threads run in
  between. \<open>Held\<close> is the section up to \<open>_release_spinlock\<close>.
\<close>

datatype spin_pc = Idle | Spin | Tas | Held

record spin_sys =
  lock_word :: SpinLock
  spin_pcs :: "nat \<Rightarrow> spin_pc"

definition goto :: "nat \<Rightarrow> spin_pc \<Rightarrow> spin_sys \<Rightarrow> spin_sys" where
  "goto t p s = s\<lparr>spin_pcs := (spin_pcs s)(t := p)\<rparr>"

inductive acquire_spinlock_step :: "spin_sys \<Rightarrow> spin_sys \<Rightarrow> bool" where
  call: "spin_pcs s t = Idle \<Longrightarrow> acquire_spinlock_step s (goto t Spin s)"
| read_free: "spin_pcs s t = Spin \<Longrightarrow> \<not> locked (lock_word s) \<Longrightarrow>
    acquire_spinlock_step s (goto t Tas s)"
| read_locked: "spin_pcs s t = Spin \<Longrightarrow> locked (lock_word s) \<Longrightarrow> acquire_spinlock_step s s"
| tas: "spin_pcs s t = Tas \<Longrightarrow> test_and_set (lock_word s) = (old, lk) \<Longrightarrow>
    acquire_spinlock_step s (goto t (if old then Spin else Held) (s\<lparr>lock_word := lk\<rparr>))"
| release: "spin_pcs s t = Held \<Longrightarrow>
    acquire_spinlock_step s (goto t Idle (s\<lparr>lock_word := release_spinlock (lock_word s)\<rparr>))"

inductive spin_reachable :: "spin_sys \<Rightarrow> bool" where
  spin_init: "spin_reachable \<lparr>lock_word = init_spinlock lk, spin_pcs = (\<lambda>_. Idle)\<rparr>"
| spin_step: "spin_reachable s \<Longrightarrow> acquire_spinlock_step s s' \<Longrightarrow> spin_reachable s'"

definition spin_holders :: "spin_sys \<Rightarrow> nat set" where
  "spin_holders s = {t. spin_pcs s t = Held}"

definition spin_inv :: "spin_sys \<Rightarrow> bool" where
  "spin_inv s \<longleftrightarrow>
     (if locked (lock_word s) then \<exists>t. spin_holders s = {t} else spin_holders s = {})"

lemma goto_lock_word [simp]: "lock_word (goto t p s) = lock_word s"
  by (simp add: goto_def)

lemma spin_holders_goto [simp]:
  "spin_holders (goto t p s) =
   (if p = Held then insert t (spin_holders s) else spin_holders s - {t})"
  by (auto simp: spin_holders_def goto_def)

lemma spin_holders_lock [simp]: "spin_holders (s\<lparr>lock_word := lk\<rparr>) = spin_holders s"
  by (simp add: spin_holders_def)

lemma spin_step_inv: "acquire_spinlock_step s s' \<Longrightarrow> spin_inv s \<Longrightarrow> spin_inv s'"
proof (induction rule: acquire_spinlock_step.induct)
  case (tas s t old lk)
  have "t \<notin> spin_holders s" using tas by (simp add: spin_holders_def)
  moreover have "old = locked (lock_word s)" "lk = (lock_word s)\<lparr>locked := True\<rparr>"
    using tas(2) by (simp_all add: test_and_set_def)
  ultimately show ?case using tas(3) by (cases old) (simp_all add: spin_inv_def)
next
  case (release s t)
  have "t \<in> spin_holders s" using release by (simp add: spin_holders_def)
  then have "spin_holders s = {t}" using release(2) by (auto simp: spin_inv_def split: if_splits)
  then show ?case by (simp add: spin_inv_def release_spinlock_def)
next
  case (call s t)
  have "t \<notin> spin_holders s" using call by (simp add: spin_holders_def)
  then show ?case using call by (simp add: spin_inv_def)
next
  case (read_free s t)
  then show ?case by (simp add: spin_inv_def)
qed

lemma spin_reachable_inv: "spin_reachable s \<Longrightarrow> spin_inv s"
proof (induction rule: spin_reachable.induct)
  case (spin_init lk)
  then show ?case by (simp add: spin_inv_def init_spinlock_def spin_holders_def)
next
  case (spin_step s s')
  then show ?case by (blast intro: spin_step_inv)
qed

section \<open>Reference counts\<close>

type_synonym RefCount = int

definition init_rc :: RefCount where
  "init_rc = 0"

definition increment_rc :: "RefCount \<Rightarrow> RefCount" where
  "increment_rc rc = rc + 1"

definition decrement_rc :: "RefCount \<Rightarrow> bool \<times> RefCount" where
  "decrement_rc rc = (let r = rc - 1 in (r \<le> 0, r))"

section \<open>Semaphores\<close>

text \<open>
  A sleeping thread owns one \<open>WaitData\<close>, so the sleep list is kept as the list of the
  sleeping threads, first element next to the list head. \<open>_post_sem\<close> returns the
  thread it hands to \<open>activate_proc\<close>, if any. The field \<open>val\<close> is a C \<open>int\<close>, whose overflow is undefined;
  it is an integer here, so the model describes runs in which fewer than 2147483648 units are posted in advance.
\<close>

record Semaphore =
  val :: int
  sleeplist :: "nat list"

definition init_sem :: "int \<Rightarrow> Semaphore" where
  "init_sem v = \<lparr>val = v, sleeplist = []\<rparr>"

abbreviation init_sleeplock :: Semaphore where
  "init_sleeplock \<equiv> init_sem 1"

definition get_sem :: "Semaphore \<Rightarrow> bool \<times> Semaphore" where
  "get_sem sem = (if val sem > 0 then (True, sem\<lparr>val := val sem - 1\<rparr>) else (False, sem))"

definition query_sem :: "Semaphore \<Rightarrow> int" where
  "query_sem sem = val sem"

definition get_all_sem :: "Semaphore \<Rightarrow> int \<times> Semaphore" where
  "get_all_sem sem = (if val sem > 0 then (val sem, sem\<lparr>val := 0\<rparr>) else (0, sem))"

definition post_sem :: "Semaphore \<Rightarrow> (nat option \<times> Semaphore) res" where
  "post_sem sem =
     (let sem = sem\<lparr>val := val sem + 1\<rparr> in
      if val sem \<le> 0
      then bnd (assert (sleeplist sem \<noteq> [])) (\<lambda>_.
             Ok (Some (last (sleeplist sem)), sem\<lparr>sleeplist := butlast (sleeplist sem)\<rparr>))
      else Ok (None, sem))"

text \<open>
  \<open>_wait_sem\<close> up to the point where it returns \<open>true\<close> (\<open>fst\<close> is \<open>True\<close>) or calls
  \<open>sched\<close>, and the two ways it resumes: \<open>up\<close> set by a post, or woken by another source.
\<close>

definition wait_sem :: "nat \<Rightarrow> Semaphore \<Rightarrow> bool \<times> Semaphore" where
  "wait_sem t sem =
     (let sem = sem\<lparr>val := val sem - 1\<rparr> in
      if val sem \<ge> 0 then (True, sem) else (False, sem\<lparr>sleeplist := t # sleeplist sem\<rparr>))"

definition wait_sem_resume :: "bool \<Rightarrow> nat \<Rightarrow> Semaphore \<Rightarrow> (bool \<times> Semaphore) res" where
  "wait_sem_resume up t sem =
     (if \<not> up
      then let sem = sem\<lparr>val := val sem + 1\<rparr> in
           bnd (assert (val sem \<le> 0)) (\<lambda>_.
             Ok (up, sem\<lparr>sleeplist := remove1 t (sleeplist sem)\<rparr>))
      else Ok (up, sem))"

text \<open>
  \<open>post_all_sem\<close>: post until a unit is left over and take that unit back. The result
  counts the threads woken, in the order they were activated.
\<close>

function post_all_loop :: "Semaphore \<Rightarrow> int \<Rightarrow> nat list \<Rightarrow> (int \<times> nat list \<times> Semaphore) res" where
  "post_all_loop sem ret woken =
     (case post_sem sem of
        Ok (w, sem') \<Rightarrow>
          let ret = ret + 1;
              woken = woken @ (case w of None \<Rightarrow> [] | Some t \<Rightarrow> [t]);
              (got, sem'') = get_sem sem'
          in if got then Ok (ret, woken, sem'') else post_all_loop sem'' ret woken
      | Panic \<Rightarrow> Panic
      | Blocked \<Rightarrow> Blocked)"
  by pat_completeness auto
termination
proof (relation "measure (\<lambda>(sem, ret, woken). nat (1 - val sem))", simp, clarify)
  fix sem ret woken w sem' got sem''
  assume p: "post_sem sem = Ok (w, sem')" and g: "(got, sem'') = get_sem sem'" and "\<not> got"
  have "val sem' = val sem + 1"
    using p by (auto simp: post_sem_def Let_def bnd_assert_eq_Ok split: if_splits)
  moreover have "val sem' \<le> 0 \<and> sem'' = sem'"
    using g \<open>\<not> got\<close> by (auto simp: get_sem_def split: if_splits)
  ultimately show "((sem'', ret + 1, woken @ (case w of None \<Rightarrow> [] | Some t \<Rightarrow> [t])), sem, ret, woken)
    \<in> measure (\<lambda>(sem, ret, woken). nat (1 - val sem))"
    by simp
qed

definition post_all_sem :: "Semaphore \<Rightarrow> (int \<times> nat list \<times> Semaphore) res" where
  "post_all_sem sem = post_all_loop sem (-1) []"

text \<open>The semaphore invariant: a negative value counts the sleepers.\<close>

definition sem_inv :: "Semaphore \<Rightarrow> bool" where
  "sem_inv sem \<longleftrightarrow> int (length (sleeplist sem)) = max 0 (- val sem) \<and> distinct (sleeplist sem)"

named_theorems sem_simps

lemmas sem_op_defs = get_sem_def get_all_sem_def post_sem_def wait_sem_def wait_sem_resume_def Let_def

lemma sem_inv_init: "v \<ge> 0 \<Longrightarrow> sem_inv (init_sem v)"
  by (simp add: sem_inv_def init_sem_def)

lemma sem_inv_get: "sem_inv sem \<Longrightarrow> sem_inv (snd (get_sem sem))"
  by (auto simp: sem_inv_def get_sem_def)

lemma sem_inv_wait: "sem_inv sem \<Longrightarrow> t \<notin> set (sleeplist sem) \<Longrightarrow> sem_inv (snd (wait_sem t sem))"
  by (auto simp: sem_inv_def wait_sem_def Let_def)

lemma post_sem_no_sleeper:
  "sem_inv sem \<Longrightarrow> sleeplist sem = [] \<Longrightarrow> post_sem sem = Ok (None, sem\<lparr>val := val sem + 1\<rparr>)"
  by (auto simp: sem_inv_def post_sem_def Let_def)

lemma post_sem_sleeper:
  "sem_inv sem \<Longrightarrow> sleeplist sem = xs @ [t] \<Longrightarrow>
   post_sem sem = Ok (Some t, sem\<lparr>val := val sem + 1, sleeplist := xs\<rparr>)"
  by (auto simp: sem_inv_def post_sem_def Let_def)

lemma sem_inv_post: "sem_inv sem \<Longrightarrow> post_sem sem = Ok (w, sem') \<Longrightarrow> sem_inv sem'"
  by (cases "sleeplist sem" rule: rev_cases)
    (auto simp: post_sem_no_sleeper post_sem_sleeper sem_inv_def)

lemma post_sem_ok:
  assumes "sem_inv sem" obtains w sem' where "post_sem sem = Ok (w, sem')" "sem_inv sem'"
proof (cases "sleeplist sem" rule: rev_cases)
  case Nil
  then show thesis using that post_sem_no_sleeper [OF assms Nil] sem_inv_post [OF assms] by blast
next
  case (snoc ys y)
  then show thesis using that post_sem_sleeper [OF assms snoc] sem_inv_post [OF assms] by blast
qed

lemma sem_inv_sleeper_neg:
  assumes "sem_inv sem" and "t \<in> set (sleeplist sem)" shows "val sem < 0"
proof (rule ccontr)
  assume "\<not> val sem < 0"
  with assms(1) have "sleeplist sem = []" by (simp add: sem_inv_def)
  with assms(2) show False by simp
qed

lemma sem_inv_resume_alert:
  "sem_inv sem \<Longrightarrow> t \<in> set (sleeplist sem) \<Longrightarrow>
   \<exists>sem'. wait_sem_resume False t sem = Ok (False, sem') \<and> sem_inv sem' \<and>
     val sem' = val sem + 1 \<and> set (sleeplist sem') = set (sleeplist sem) - {t}"
proof -
  assume i: "sem_inv sem" and t: "t \<in> set (sleeplist sem)"
  then have "val sem + 1 \<le> 0" using sem_inv_sleeper_neg [of sem t] by simp
  with i t show ?thesis
    by (auto simp: sem_inv_def wait_sem_resume_def Let_def length_remove1 set_remove1_eq)
qed

declare post_all_loop.simps [simp del]

lemma post_all_loop_wakes:
  assumes "sem_inv sem"
  shows "post_all_loop sem ret woken =
    Ok (ret + 1 + int (length (sleeplist sem)), woken @ rev (sleeplist sem),
        sem\<lparr>val := max 0 (val sem), sleeplist := []\<rparr>)"
  using assms
proof (induction "sleeplist sem" arbitrary: sem ret woken rule: rev_induct)
  case Nil
  have p: "post_sem sem = Ok (None, sem\<lparr>val := val sem + 1\<rparr>)"
    using Nil by (simp add: post_sem_no_sleeper)
  have v: "val sem \<ge> 0" using Nil by (auto simp: sem_inv_def)
  then show ?case
    using Nil by (subst post_all_loop.simps) (simp add: p get_sem_def)
next
  case (snoc t xs)
  let ?sem = "sem\<lparr>val := val sem + 1, sleeplist := xs\<rparr>"
  have p: "post_sem sem = Ok (Some t, ?sem)"
    using snoc by (simp add: post_sem_sleeper)
  have v: "val sem < 0" "sem_inv ?sem"
    using snoc by (auto simp: sem_inv_def simp flip: snoc.hyps(2))
  have sl: "sleeplist sem = xs @ [t]" using snoc by simp
  have "post_all_loop ?sem (ret + 1) (woken @ [t]) =
    Ok (ret + 2 + int (length xs), (woken @ [t]) @ rev xs, ?sem\<lparr>val := max 0 (val ?sem), sleeplist := []\<rparr>)"
    using snoc.hyps(1) [of ?sem] v(2) by simp
  then show ?case
    using v(1) by (subst post_all_loop.simps) (simp add: p get_sem_def sl)
qed

lemma post_all_sem_ok:
  assumes "sem_inv sem"
  shows "post_all_sem sem = Ok (int (length (sleeplist sem)), rev (sleeplist sem),
    sem\<lparr>val := max 0 (val sem), sleeplist := []\<rparr>)"
  using post_all_loop_wakes [OF assms] by (simp add: post_all_sem_def)

section \<open>Sleep locks\<close>

text \<open>
  A \<open>SleepLock\<close> is a semaphore of initial value 1, taken with \<open>wait_sem\<close> and released
  with \<open>post_sem\<close>. A thread is outside, asleep in the list, alerted (made runnable by
  \<open>kill\<close> while still in the list), or it holds the lock; a thread that was handed the
  lock by a post counts as holding it even before it is scheduled again.
\<close>

datatype sl_pc = Outside | Asleep | Alerted | Holding

record sl_sys =
  sl_sem :: Semaphore
  sl_pcs :: "nat \<Rightarrow> sl_pc"

inductive sleeplock_step :: "sl_sys \<Rightarrow> sl_sys \<Rightarrow> bool" where
  acquire: "sl_pcs s t = Outside \<Longrightarrow> wait_sem t (sl_sem s) = (got, sem) \<Longrightarrow>
    sleeplock_step s \<lparr>sl_sem = sem, sl_pcs = (sl_pcs s)(t := if got then Holding else Asleep)\<rparr>"
| try_acquire: "sl_pcs s t = Outside \<Longrightarrow> get_sem (sl_sem s) = (got, sem) \<Longrightarrow>
    sleeplock_step s \<lparr>sl_sem = sem, sl_pcs = (sl_pcs s)(t := if got then Holding else Outside)\<rparr>"
| release_none: "sl_pcs s t = Holding \<Longrightarrow> post_sem (sl_sem s) = Ok (None, sem) \<Longrightarrow>
    sleeplock_step s \<lparr>sl_sem = sem, sl_pcs = (sl_pcs s)(t := Outside)\<rparr>"
| release_wake: "sl_pcs s t = Holding \<Longrightarrow> post_sem (sl_sem s) = Ok (Some u, sem) \<Longrightarrow>
    sleeplock_step s \<lparr>sl_sem = sem, sl_pcs = (sl_pcs s)(t := Outside, u := Holding)\<rparr>"
| alert: "sl_pcs s t = Asleep \<Longrightarrow> sleeplock_step s (s\<lparr>sl_pcs := (sl_pcs s)(t := Alerted)\<rparr>)"
| give_up: "sl_pcs s t = Alerted \<Longrightarrow> wait_sem_resume False t (sl_sem s) = Ok (False, sem) \<Longrightarrow>
    sleeplock_step s \<lparr>sl_sem = sem, sl_pcs = (sl_pcs s)(t := Outside)\<rparr>"

inductive sleeplock_reachable :: "sl_sys \<Rightarrow> bool" where
  sl_init: "sleeplock_reachable \<lparr>sl_sem = init_sleeplock, sl_pcs = (\<lambda>_. Outside)\<rparr>"
| sl_step: "sleeplock_reachable s \<Longrightarrow> sleeplock_step s s' \<Longrightarrow> sleeplock_reachable s'"

definition holders :: "sl_sys \<Rightarrow> nat set" where
  "holders s = {t. sl_pcs s t = Holding}"

definition sleepers :: "sl_sys \<Rightarrow> nat set" where
  "sleepers s = {t. sl_pcs s t = Asleep \<or> sl_pcs s t = Alerted}"

definition sl_inv :: "sl_sys \<Rightarrow> bool" where
  "sl_inv s \<longleftrightarrow> sem_inv (sl_sem s) \<and> set (sleeplist (sl_sem s)) = sleepers s \<and>
     (if val (sl_sem s) > 0 then val (sl_sem s) = 1 \<and> holders s = {}
      else \<exists>t. holders s = {t})"

lemma holders_upd [simp]:
  "holders \<lparr>sl_sem = sem, sl_pcs = f(t := p)\<rparr> =
   (if p = Holding then insert t (holders \<lparr>sl_sem = sem, sl_pcs = f\<rparr>)
    else holders \<lparr>sl_sem = sem, sl_pcs = f\<rparr> - {t})"
  by (auto simp: holders_def)

lemma sleepers_upd [simp]:
  "sleepers \<lparr>sl_sem = sem, sl_pcs = f(t := p)\<rparr> =
   (if p = Asleep \<or> p = Alerted then insert t (sleepers \<lparr>sl_sem = sem, sl_pcs = f\<rparr>)
    else sleepers \<lparr>sl_sem = sem, sl_pcs = f\<rparr> - {t})"
  by (auto simp: sleepers_def)

lemma holders_pcs [simp]: "holders \<lparr>sl_sem = sem, sl_pcs = sl_pcs s\<rparr> = holders s"
  by (simp add: holders_def)

lemma sleepers_pcs [simp]: "sleepers \<lparr>sl_sem = sem, sl_pcs = sl_pcs s\<rparr> = sleepers s"
  by (simp add: sleepers_def)

lemma sl_pcs_mem:
  "sl_pcs s t = Outside \<Longrightarrow> t \<notin> holders s \<and> t \<notin> sleepers s"
  "sl_pcs s t = Holding \<Longrightarrow> t \<in> holders s \<and> t \<notin> sleepers s"
  "sl_pcs s t = Asleep \<Longrightarrow> t \<notin> holders s \<and> t \<in> sleepers s"
  "sl_pcs s t = Alerted \<Longrightarrow> t \<notin> holders s \<and> t \<in> sleepers s"
  by (simp_all add: holders_def sleepers_def)

lemma sl_inv_init: "sl_inv \<lparr>sl_sem = init_sleeplock, sl_pcs = (\<lambda>_. Outside)\<rparr>"
  by (simp add: sl_inv_def sem_inv_init holders_def sleepers_def) (simp add: init_sem_def)

lemma sl_step_inv: "sleeplock_step s s' \<Longrightarrow> sl_inv s \<Longrightarrow> sl_inv s'"
proof (induction rule: sleeplock_step.induct)
  case (acquire s t got sem)
  note m = sl_pcs_mem(1) [OF acquire(1)]
  have "sem_inv sem"
    using sem_inv_wait [of "sl_sem s" t] acquire m by (auto simp: sl_inv_def)
  then show ?case
    using acquire m by (auto simp: sl_inv_def wait_sem_def Let_def split: if_splits)
next
  case (try_acquire s t got sem)
  note m = sl_pcs_mem(1) [OF try_acquire(1)]
  have "sem_inv sem"
    using sem_inv_get [of "sl_sem s"] try_acquire by (auto simp: sl_inv_def)
  then show ?case
    using try_acquire m by (auto simp: sl_inv_def get_sem_def split: if_splits)
next
  case (release_none s t sem)
  note m = sl_pcs_mem(2) [OF release_none(1)]
  have h: "holders s = {t}" "val (sl_sem s) \<le> 0" "sem_inv (sl_sem s)"
    using release_none m by (auto simp: sl_inv_def split: if_splits)
  then show ?case
    using release_none m
    by (cases "sleeplist (sl_sem s)" rule: rev_cases)
      (auto simp: sl_inv_def post_sem_no_sleeper post_sem_sleeper sem_inv_def)
next
  case (release_wake s t u sem)
  note m = sl_pcs_mem(2) [OF release_wake(1)]
  have h: "holders s = {t}" "val (sl_sem s) \<le> 0" "sem_inv (sl_sem s)"
    using release_wake m by (auto simp: sl_inv_def split: if_splits)
  then obtain xs where xs: "sleeplist (sl_sem s) = xs @ [u]"
    and sem: "sem = (sl_sem s)\<lparr>val := val (sl_sem s) + 1, sleeplist := xs\<rparr>"
    using release_wake(2)
    by (cases "sleeplist (sl_sem s)" rule: rev_cases)
      (auto simp: post_sem_no_sleeper post_sem_sleeper)
  have "sleepers s = insert u (set xs)" "u \<notin> set xs"
    using release_wake xs h by (auto simp: sl_inv_def sem_inv_def)
  then show ?case
    using release_wake h xs sem m sem_inv_post [OF h(3) release_wake(2)]
    by (auto simp: sl_inv_def sem_inv_def)
next
  case (alert s t)
  then have "holders (s\<lparr>sl_pcs := (sl_pcs s)(t := Alerted)\<rparr>) = holders s"
    and "sleepers (s\<lparr>sl_pcs := (sl_pcs s)(t := Alerted)\<rparr>) = sleepers s"
    by (auto simp: holders_def sleepers_def)
  then show ?case using alert by (simp add: sl_inv_def)
next
  case (give_up s t sem)
  note m = sl_pcs_mem(4) [OF give_up(1)]
  have i: "t \<in> set (sleeplist (sl_sem s))" "sem_inv (sl_sem s)"
    using give_up m by (auto simp: sl_inv_def)
  then have "val (sl_sem s) < 0" by (blast intro: sem_inv_sleeper_neg)
  then show ?case
    using give_up m i sem_inv_resume_alert [of "sl_sem s" t]
    by (auto simp: sl_inv_def)
qed

lemma sl_reachable_inv: "sleeplock_reachable s \<Longrightarrow> sl_inv s"
proof (induction rule: sleeplock_reachable.induct)
  case sl_init
  show ?case by (rule sl_inv_init)
next
  case (sl_step s s')
  then show ?case by (blast intro: sl_step_inv)
qed

section \<open>Properties\<close>

text \<open>
  C4: the spin lock gives mutual exclusion. However the reads, test-and-sets and
  releases of any number of threads interleave, at most one thread is between a
  successful \<open>_acquire_spinlock\<close> and its \<open>_release_spinlock\<close>, and the lock word is set
  exactly while there is one.
\<close>

theorem spinlock_mutual_exclusion:
  assumes "spin_reachable s"
  shows "(\<forall>t u. spin_pcs s t = Held \<and> spin_pcs s u = Held \<longrightarrow> t = u) \<and>
    (locked (lock_word s) \<longleftrightarrow> (\<exists>t. spin_pcs s t = Held))"
  using spin_reachable_inv [OF assms]
  by (auto simp: spin_inv_def spin_holders_def set_eq_iff split: if_splits)

text \<open>
  Two threads that both read the lock as free: the first test-and-set wins, the second fails and its thread spins again.
\<close>

definition spin_race :: spin_sys where
  "spin_race = \<lparr>lock_word = \<lparr>locked = True\<rparr>, spin_pcs = (\<lambda>_. Idle)(0 := Held, 1 := Spin)\<rparr>"

lemma spin_race_reachable: "spin_reachable spin_race"
proof -
  let ?s = "\<lambda>b p q. \<lparr>lock_word = \<lparr>locked = b\<rparr>, spin_pcs = (\<lambda>_. Idle)(0 := p, 1 := q)\<rparr>"
  have "spin_reachable \<lparr>lock_word = init_spinlock \<lparr>locked = True\<rparr>, spin_pcs = (\<lambda>_. Idle)\<rparr>" by (rule spin_init)
  then have 0: "spin_reachable (?s False Idle Idle)" by (simp add: init_spinlock_def fun_upd_idem)
  have 1: "spin_reachable (?s False Spin Idle)"
    using spin_step [OF 0 call [of _ 0]] by (simp add: goto_def fun_upd_twist)
  have 2: "spin_reachable (?s False Spin Spin)"
    using spin_step [OF 1 call [of _ 1]] by (simp add: goto_def)
  have 3: "spin_reachable (?s False Tas Spin)"
    using spin_step [OF 2 read_free [of _ 0]] by (simp add: goto_def fun_upd_twist)
  have 4: "spin_reachable (?s False Tas Tas)"
    using spin_step [OF 3 read_free [of _ 1]] by (simp add: goto_def)
  have 5: "spin_reachable (?s True Held Tas)"
    using spin_step [OF 4 tas [of _ 0 False "\<lparr>locked = True\<rparr>"]] by (simp add: goto_def test_and_set_def fun_upd_twist)
  have 6: "spin_reachable (?s True Held Spin)"
    using spin_step [OF 5 tas [of _ 1 True "\<lparr>locked = True\<rparr>"]] by (simp add: goto_def test_and_set_def)
  then show ?thesis by (simp add: spin_race_def)
qed

theorem spinlock_mutual_exclusion_witness:
  "spin_reachable spin_race \<and> spin_pcs spin_race 0 = Held \<and> spin_pcs spin_race 1 = Spin \<and>
   locked (lock_word spin_race) \<and> spin_holders spin_race = {0}"
proof -
  have h: "spin_pcs spin_race 0 = Held" "spin_pcs spin_race 1 = Spin" by (simp_all add: spin_race_def)
  moreover have "locked (lock_word spin_race)" "spin_pcs spin_race u = Held \<longleftrightarrow> u = 0" for u
    using spinlock_mutual_exclusion [OF spin_race_reachable] h(1) by metis+
  ultimately show ?thesis using spin_race_reachable by (simp add: spin_holders_def)
qed

text \<open>
  C5: the sleep lock gives mutual exclusion and loses no wake-up. In every reachable
  state at most one thread holds the lock, and whenever some thread sleeps on it there
  is a holder whose release will wake one; the value of the semaphore is 1 exactly when
  the lock is free, and the assertions in \<open>_post_sem\<close> and \<open>_wait_sem\<close> cannot fail.
\<close>

theorem sleeplock_safe:
  assumes "sleeplock_reachable s"
  shows "(\<forall>t u. sl_pcs s t = Holding \<and> sl_pcs s u = Holding \<longrightarrow> t = u) \<and>
    (\<forall>t. sl_pcs s t = Asleep \<longrightarrow> (\<exists>u. sl_pcs s u = Holding)) \<and>
    (val (sl_sem s) = 1 \<longleftrightarrow> (\<forall>t. sl_pcs s t \<noteq> Holding)) \<and>
    post_sem (sl_sem s) \<noteq> Panic \<and>
    (\<forall>t. sl_pcs s t = Alerted \<longrightarrow> wait_sem_resume False t (sl_sem s) \<noteq> Panic)"
proof -
  have i: "sl_inv s" using assms by (rule sl_reachable_inv)
  then have sem: "sem_inv (sl_sem s)" and sl: "set (sleeplist (sl_sem s)) = sleepers s"
    by (simp_all add: sl_inv_def)
  have "\<exists>u. sl_pcs s u = Holding" if "sl_pcs s t = Asleep" for t
  proof -
    have "val (sl_sem s) < 0"
      using sem sl_pcs_mem(3) [OF that] sl by (blast intro: sem_inv_sleeper_neg)
    then obtain u where "holders s = {u}" using i by (auto simp: sl_inv_def)
    then show ?thesis by (auto simp: holders_def)
  qed
  moreover have "post_sem (sl_sem s) \<noteq> Panic"
    using sem by (cases "sleeplist (sl_sem s)" rule: rev_cases)
      (simp_all add: post_sem_no_sleeper post_sem_sleeper)
  moreover have "wait_sem_resume False t (sl_sem s) \<noteq> Panic" if "sl_pcs s t = Alerted" for t
    using sem_inv_resume_alert [OF sem, of t] sl_pcs_mem(4) [OF that] sl by auto
  moreover have "(\<forall>t u. sl_pcs s t = Holding \<and> sl_pcs s u = Holding \<longrightarrow> t = u) \<and>
    (val (sl_sem s) = 1 \<longleftrightarrow> (\<forall>t. sl_pcs s t \<noteq> Holding))"
  proof (cases "val (sl_sem s) > 0")
    case True
    then show ?thesis using i by (auto simp: sl_inv_def holders_def)
  next
    case False
    then obtain u where "holders s = {u}" using i by (auto simp: sl_inv_def)
    then have "sl_pcs s t = Holding \<longleftrightarrow> t = u" for t by (auto simp: holders_def)
    then show ?thesis using False by auto
  qed
  ultimately show ?thesis by blast
qed

text \<open>
  Thread 0 holds the sleep lock, thread 1 sleeps on it and thread 2 has been alerted in its sleep; then thread 2 gives
  up and thread 0 hands the lock over to thread 1.
\<close>

definition lock_queue :: sl_sys where
  "lock_queue = \<lparr>sl_sem = \<lparr>val = -2, sleeplist = [2, 1]\<rparr>, sl_pcs = (\<lambda>_. Outside)(0 := Holding, 1 := Asleep, 2 := Alerted)\<rparr>"

definition lock_passed :: sl_sys where
  "lock_passed = \<lparr>sl_sem = \<lparr>val = 0, sleeplist = []\<rparr>, sl_pcs = (\<lambda>_. Outside)(0 := Outside, 1 := Holding, 2 := Outside)\<rparr>"

lemma lock_queue_reachable: "sleeplock_reachable lock_queue" "sleeplock_reachable lock_passed"
proof -
  let ?s = "\<lambda>v xs p q r. \<lparr>sl_sem = \<lparr>val = v, sleeplist = xs\<rparr>, sl_pcs = (\<lambda>_. Outside)(0 := p, 1 := q, 2 := r)\<rparr>"
  have 0: "sleeplock_reachable (?s 1 [] Outside Outside Outside)" using sl_init by (simp add: init_sem_def fun_upd_idem)
  have 1: "sleeplock_reachable (?s 0 [] Holding Outside Outside)"
    using sl_step [OF 0 acquire [of _ 0 True]] by (simp add: wait_sem_def fun_upd_twist)
  have 2: "sleeplock_reachable (?s (-1) [1] Holding Asleep Outside)"
    using sl_step [OF 1 acquire [of _ 1 False]] by (simp add: wait_sem_def fun_upd_twist)
  have 3: "sleeplock_reachable (?s (-2) [2, 1] Holding Asleep Asleep)"
    using sl_step [OF 2 acquire [of _ 2 False]] by (simp add: wait_sem_def)
  have 4: "sleeplock_reachable (?s (-2) [2, 1] Holding Asleep Alerted)"
    using sl_step [OF 3 alert [of _ 2]] by simp
  then show "sleeplock_reachable lock_queue" by (simp add: lock_queue_def)
  have 5: "sleeplock_reachable (?s (-1) [1] Holding Asleep Outside)"
    using sl_step [OF 4 give_up [of _ 2]] by (simp add: wait_sem_resume_def)
  have "sleeplock_reachable (?s 0 [] Outside Holding Outside)"
    using sl_step [OF 5 release_wake [of _ 0 1]] by (simp add: post_sem_def fun_upd_twist)
  then show "sleeplock_reachable lock_passed" by (simp add: lock_passed_def)
qed

theorem sleeplock_safe_witness:
  "sleeplock_reachable lock_queue \<and> sl_pcs lock_queue 0 = Holding \<and> sl_pcs lock_queue 1 = Asleep \<and> sl_pcs lock_queue 2 = Alerted \<and>
   holders lock_queue = {0} \<and> post_sem (sl_sem lock_queue) \<noteq> Panic \<and>
   wait_sem_resume False 2 (sl_sem lock_queue) \<noteq> Panic \<and>
   sleeplock_reachable lock_passed \<and> holders lock_passed = {1}"
proof -
  have h: "sl_pcs lock_queue 0 = Holding" "sl_pcs lock_queue 1 = Asleep" "sl_pcs lock_queue 2 = Alerted"
    "sl_pcs lock_passed 1 = Holding" by (simp_all add: lock_queue_def lock_passed_def)
  note a = sleeplock_safe [OF lock_queue_reachable(1)] and b = sleeplock_safe [OF lock_queue_reachable(2)]
  have "sl_pcs lock_queue u = Holding \<longleftrightarrow> u = 0" "sl_pcs lock_passed u = Holding \<longleftrightarrow> u = 1" for u
    using a b h(1,4) by metis+
  then have "holders lock_queue = {0}" "holders lock_passed = {1}" by (simp_all add: holders_def)
  moreover have "post_sem (sl_sem lock_queue) \<noteq> Panic" "wait_sem_resume False 2 (sl_sem lock_queue) \<noteq> Panic" using a h(3) by blast+
  ultimately show ?thesis using lock_queue_reachable h by blast
qed

text \<open>
  C6: \<open>post_all_sem\<close> terminates and wakes every sleeping thread exactly once, oldest
  first, returns how many it woke and leaves no sleeper; a positive value is kept and a
  negative one becomes 0.
\<close>

theorem post_all_sem_wakes_all:
  assumes "sem_inv sem"
  shows "post_all_sem sem =
    Ok (int (length (sleeplist sem)), rev (sleeplist sem),
        sem\<lparr>val := max 0 (val sem), sleeplist := []\<rparr>)"
  using post_all_loop_wakes [OF assms] by (simp add: post_all_sem_def)

theorem post_all_sem_wakes_all_witness:
  "post_all_sem \<lparr>val = -3, sleeplist = [4, 8, 6]\<rparr> = Ok (3, [6, 8, 4], \<lparr>val = 0, sleeplist = []\<rparr>)"
  using post_all_sem_wakes_all [of "\<lparr>val = -3, sleeplist = [4, 8, 6]\<rparr>"]
  by (simp add: sem_inv_def)

end
