(* ===== verification/Bitmap.thy ===== *)
theory Bitmap
  imports Kernel_Prelude
begin

text \<open>
  Rounding (\<open>common/defines.h\<close>) and the bitmaps of \<open>common/bitmap.h\<close>: an array of
  64-bit cells addressed by bit number. The locale \<open>bit_array\<close> is the contract the
  clients use (the free-block bitmap, the swap bitmap and the pid maps); it is
  interpreted on the shift-and-mask routines of the source.
\<close>

section \<open>Rounding\<close>

definition round_down :: "u64 \<Rightarrow> u64 \<Rightarrow> u64" where
  "round_down a b = a - a mod b"

definition round_up :: "u64 \<Rightarrow> u64 \<Rightarrow> u64" where
  "round_up a b = round_down (a + b - 1) b"

lemma unat_round_down: "unat (round_down a b) = unat a - unat a mod unat b"
proof -
  have "unat (a mod b) = unat a mod unat b" by (rule unat_mod_distrib)
  moreover have "a mod b \<le> a" by (simp add: word_le_nat_alt unat_mod_distrib)
  ultimately show ?thesis by (simp add: round_down_def unat_sub)
qed

section \<open>Bitmaps\<close>

type_synonym BitmapCell = u64

definition BITMAP_BITS_PER_CELL :: nat where
  "BITMAP_BITS_PER_CELL = 8 * 8"

definition BITMAP_TO_NUM_CELLS :: "nat \<Rightarrow> nat" where
  "BITMAP_TO_NUM_CELLS sz = (sz + BITMAP_BITS_PER_CELL - 1) div BITMAP_BITS_PER_CELL"

definition BITMAP_PARSE_INDEX :: "nat \<Rightarrow> nat \<times> nat" where
  "BITMAP_PARSE_INDEX index = (index div BITMAP_BITS_PER_CELL, index mod BITMAP_BITS_PER_CELL)"

definition BIT :: "nat \<Rightarrow> u64" where
  "BIT i = push_bit i 1"

definition bitmap_get :: "BitmapCell list \<Rightarrow> nat \<Rightarrow> bool" where
  "bitmap_get bitmap index =
     (let (idx, offset) = BITMAP_PARSE_INDEX index in
      drop_bit offset (bitmap ! idx) AND 1 \<noteq> 0)"

definition bitmap_set :: "BitmapCell list \<Rightarrow> nat \<Rightarrow> BitmapCell list" where
  "bitmap_set bitmap index =
     (let (idx, offset) = BITMAP_PARSE_INDEX index in
      bitmap[idx := bitmap ! idx OR BIT offset])"

definition bitmap_clear :: "BitmapCell list \<Rightarrow> nat \<Rightarrow> BitmapCell list" where
  "bitmap_clear bitmap index =
     (let (idx, offset) = BITMAP_PARSE_INDEX index in
      bitmap[idx := bitmap ! idx AND NOT (BIT offset)])"

text \<open>What a client may assume of an array of bits.\<close>

locale bit_array =
  fixes get :: "'m \<Rightarrow> nat \<Rightarrow> bool" and set :: "'m \<Rightarrow> nat \<Rightarrow> 'm" and clear :: "'m \<Rightarrow> nat \<Rightarrow> 'm"
    and size :: "'m \<Rightarrow> nat"
  assumes size_set: "size (set m i) = size m"
    and size_clear: "size (clear m i) = size m"
    and get_set: "i < size m \<Longrightarrow> j < size m \<Longrightarrow> get (set m i) j \<longleftrightarrow> j = i \<or> get m j"
    and get_clear: "i < size m \<Longrightarrow> j < size m \<Longrightarrow> get (clear m i) j \<longleftrightarrow> j \<noteq> i \<and> get m j"
begin

lemma ones_set:
  "i < size m \<Longrightarrow> n \<le> size m \<Longrightarrow> i < n \<Longrightarrow>
   {j. j < n \<and> get (set m i) j} = insert i {j. j < n \<and> get m j}"
  by (auto simp: get_set)

lemma ones_clear:
  "i < size m \<Longrightarrow> n \<le> size m \<Longrightarrow> {j. j < n \<and> get (clear m i) j} = {j. j < n \<and> get m j} - {i}"
  by (auto simp: get_clear)

lemma fold_set_size: "size (fold (\<lambda>i m. set m i) is m) = size m"
  by (induction "is" arbitrary: m) (simp_all add: size_set)

lemma fold_set_get:
  "\<forall>i\<in>List.set is. i < size m \<Longrightarrow> j < size m \<Longrightarrow>
   get (fold (\<lambda>i m. set m i) is m) j \<longleftrightarrow> j \<in> List.set is \<or> get m j"
  by (induction "is" arbitrary: m) (auto simp: get_set size_set)

lemma fold_clear_size: "size (fold (\<lambda>i m. clear m i) is m) = size m"
  by (induction "is" arbitrary: m) (simp_all add: size_clear)

lemma fold_clear_get:
  "\<forall>i\<in>List.set is. i < size m \<Longrightarrow> j < size m \<Longrightarrow>
   get (fold (\<lambda>i m. clear m i) is m) j \<longleftrightarrow> j \<notin> List.set is \<and> get m j"
  by (induction "is" arbitrary: m) (auto simp: get_clear size_clear)

end

lemmas bitmap_defs = bitmap_get_def bitmap_set_def bitmap_clear_def BITMAP_PARSE_INDEX_def
  BITMAP_BITS_PER_CELL_def BIT_def

lemma and_one_nonzero: "(w AND 1 \<noteq> 0) \<longleftrightarrow> bit (w::'a::len word) 0"
  by (simp add: and_one_eq bit_0 odd_iff_mod_2_eq_one)

lemma bitmap_get_bit: "bitmap_get m i \<longleftrightarrow> bit (m ! (i div 64)) (i mod 64)"
  unfolding bitmap_defs by (simp add: Let_def and_one_nonzero bit_drop_bit_eq)

lemma bit_BIT: "bit (BIT i) j \<longleftrightarrow> j = i \<and> i < 64"
  by (auto simp: BIT_def bit_exp_iff)

definition bitmap_bits :: "BitmapCell list \<Rightarrow> nat" where
  "bitmap_bits m = 64 * length m"

lemma bits_cell: "i < bitmap_bits m \<Longrightarrow> i div 64 < length m"
  by (simp add: bitmap_bits_def less_mult_imp_div_less mult.commute)

interpretation bm: bit_array bitmap_get bitmap_set bitmap_clear bitmap_bits
proof unfold_locales
  show "bitmap_bits (bitmap_set m i) = bitmap_bits m" for m i
    by (simp add: bitmap_defs bitmap_bits_def Let_def)
  show "bitmap_bits (bitmap_clear m i) = bitmap_bits m" for m i
    by (simp add: bitmap_defs bitmap_bits_def Let_def)
next
  fix i j and m :: "BitmapCell list"
  assume ij: "i < bitmap_bits m" "j < bitmap_bits m"
  have eq: "i = j \<longleftrightarrow> i div 64 = j div 64 \<and> i mod 64 = j mod 64"
    by (metis div_mult_mod_eq)
  have s: "bitmap_set m i = m[i div 64 := m ! (i div 64) OR BIT (i mod 64)]"
    and c: "bitmap_clear m i = m[i div 64 := m ! (i div 64) AND NOT (BIT (i mod 64))]"
    by (simp_all add: bitmap_set_def bitmap_clear_def BITMAP_PARSE_INDEX_def BITMAP_BITS_PER_CELL_def)
  show "bitmap_get (bitmap_set m i) j = (j = i \<or> bitmap_get m j)"
    using eq ij bits_cell [of i m]
    by (auto simp: bitmap_get_bit s nth_list_update bit_or_iff bit_BIT)
  show "bitmap_get (bitmap_clear m i) j = (j \<noteq> i \<and> bitmap_get m j)"
    using eq ij bits_cell [of i m]
    by (auto simp: bitmap_get_bit c nth_list_update bit_and_iff bit_not_iff bit_BIT)
qed

lemma bitmap_get_zero: "i < 64 * n \<Longrightarrow> \<not> bitmap_get (replicate n 0) i"
  by (simp add: bitmap_get_bit less_mult_imp_div_less mult.commute)

section \<open>Properties\<close>

text \<open>
  C7: setting or clearing one bit of a bitmap changes that bit and no other, whatever
  cells the two bits live in, and never changes the number of cells.
\<close>

theorem bitmap_update_exact:
  assumes "i < 64 * length m" and "j < 64 * length m"
  shows "(bitmap_get (bitmap_set m i) j \<longleftrightarrow> j = i \<or> bitmap_get m j) \<and>
    (bitmap_get (bitmap_clear m i) j \<longleftrightarrow> j \<noteq> i \<and> bitmap_get m j) \<and>
    length (bitmap_set m i) = length m \<and> length (bitmap_clear m i) = length m"
  using assms bm.get_set [of i m j] bm.get_clear [of i m j]
  by (simp add: bitmap_bits_def) (simp add: bitmap_defs Let_def)

theorem bitmap_update_exact_witness:
  "bitmap_get (bitmap_set [0, 0] 70) 70 \<and> \<not> bitmap_get (bitmap_set [0, 0] 70) 6"
  using bitmap_update_exact [of 70 "[0, 0]" 70] bitmap_update_exact [of 70 "[0, 0]" 6]
  by (simp add: bitmap_get_bit)

text \<open>
  C8: \<open>round_up a b\<close> is the least multiple of \<open>b\<close> that is at least \<open>a\<close>, provided
  \<open>a + b - 1\<close> fits in 64 bits; \<open>round_down a b\<close> is always the greatest multiple of
  \<open>b\<close> that is at most \<open>a\<close>.
\<close>

theorem rounding_correct:
  assumes "0 < unat b" and "unat a + unat b - 1 < 2 ^ 64"
  shows "unat b dvd unat (round_up a b) \<and> unat a \<le> unat (round_up a b) \<and>
    (\<forall>c. unat b dvd c \<and> unat a \<le> c \<longrightarrow> unat (round_up a b) \<le> c) \<and>
    unat b dvd unat (round_down a b) \<and> unat (round_down a b) \<le> unat a \<and>
    (\<forall>c. unat b dvd c \<and> c \<le> unat a \<longrightarrow> c \<le> unat (round_down a b))"
proof -
  let ?a = "unat a" and ?b = "unat b"
  have down: "unat (round_down x b) = ?b * (unat x div ?b)" for x :: u64
    by (simp add: unat_round_down minus_mod_eq_mult_div)
  have "a + b - 1 = word_of_nat (?a + ?b - 1)"
    using assms(1) by (simp add: of_nat_diff)
  then have "unat (a + b - 1) = ?a + ?b - 1"
    using assms(2) by (simp add: unat_of_nat take_bit_nat_eq_self)
  then have up: "unat (round_up a b) = ?b * ((?a + ?b - 1) div ?b)"
    by (simp add: round_up_def down)
  have 1: "?a \<le> ?b * ((?a + ?b - 1) div ?b)"
  proof -
    have "?a + ?b - 1 = ?b * ((?a + ?b - 1) div ?b) + (?a + ?b - 1) mod ?b" by simp
    moreover have "(?a + ?b - 1) mod ?b < ?b" using assms(1) by simp
    ultimately show ?thesis by linarith
  qed
  have 2: "?b * ((?a + ?b - 1) div ?b) \<le> c" if d: "?b dvd c" and le: "?a \<le> c" for c
  proof -
    obtain k where c: "c = ?b * k" using d by (auto elim: dvdE)
    have "?a + ?b - 1 < ?b * (k + 1)" using le c assms(1) by simp
    then have "(?a + ?b - 1) div ?b < k + 1" by (simp add: less_mult_imp_div_less mult.commute)
    then show ?thesis using c by simp
  qed
  have 3: "c \<le> ?b * (?a div ?b)" if d: "?b dvd c" and le: "c \<le> ?a" for c
  proof -
    obtain k where c: "c = ?b * k" using d by (auto elim: dvdE)
    then have "k \<le> ?a div ?b"
      using le assms(1) by (simp add: less_eq_div_iff_mult_less_eq mult.commute)
    then show ?thesis using c by simp
  qed
  show ?thesis using 1 2 3 by (auto simp: up down)
qed

theorem rounding_correct_witness:
  "round_up 4097 4096 = 8192 \<and> 4096 dvd unat (round_up 4097 4096)"
  using rounding_correct [of 4096 4097] by (simp add: round_up_def round_down_def)

end
