(* ===== verification/CString.thy ===== *)
theory CString
  imports Kernel_Prelude
begin

text \<open>
  The memory and string routines of \<open>common/string.c\<close>. A buffer is a list of bytes; a
  counting loop \<open>for (i = 0; i < n; i++)\<close> that writes one element per round is a
  \<open>fold\<close> over \<open>[0..<n]\<close>. \<open>memmove\<close> works on one memory in which the two ranges may
  overlap. Plain \<open>char\<close> is unsigned on AArch64. A read past the end of a buffer that
  holds no terminator is \<open>None\<close>.
\<close>

section \<open>The routines\<close>

definition memset :: "u8 list \<Rightarrow> 32 word \<Rightarrow> nat \<Rightarrow> u8 list" where
  "memset s c n = fold (\<lambda>i s. s[i := ucast (c AND 0xff)]) [0..<n] s"

definition memcpy :: "u8 list \<Rightarrow> u8 list \<Rightarrow> nat \<Rightarrow> u8 list" where
  "memcpy dest src n = fold (\<lambda>i dest. dest[i := src ! i]) [0..<n] dest"

fun memcmp :: "u8 list \<Rightarrow> u8 list \<Rightarrow> nat \<Rightarrow> int option" where
  "memcmp s1 s2 0 = Some 0"
| "memcmp (c1 # s1) (c2 # s2) (Suc n) =
     (if c1 \<noteq> c2 then Some (uint c1 - uint c2) else memcmp s1 s2 n)"
| "memcmp s1 s2 (Suc n) = None"

definition memmove :: "nat \<Rightarrow> nat \<Rightarrow> nat \<Rightarrow> u8 list \<Rightarrow> u8 list" where
  "memmove d s n m =
     (if s < d \<and> d - s < n
      then fold (\<lambda>i m. m[d + i := m ! (s + i)]) (rev [0..<n]) m
      else fold (\<lambda>i m. m[d + i := m ! (s + i)]) [0..<n] m)"

fun strlen :: "u8 list \<Rightarrow> nat option" where
  "strlen [] = None"
| "strlen (c # s) = (if c \<noteq> 0 then map_option Suc (strlen s) else Some 0)"

text \<open>The index at which the first loop of \<open>strncpy\<close> and \<open>strncpy_fast\<close> stops.\<close>

fun copy_stop :: "u8 list \<Rightarrow> nat \<Rightarrow> nat option" where
  "copy_stop src 0 = Some 0"
| "copy_stop (c # src) (Suc n) = (if c \<noteq> 0 then map_option Suc (copy_stop src n) else Some 0)"
| "copy_stop [] (Suc n) = None"

definition strncpy :: "u8 list \<Rightarrow> u8 list \<Rightarrow> nat \<Rightarrow> u8 list option" where
  "strncpy dest src n =
     (case copy_stop src n of
        None \<Rightarrow> None
      | Some k \<Rightarrow>
          let dest = fold (\<lambda>i dest. dest[i := src ! i]) [0..<k] dest;
              dest = fold (\<lambda>i dest. dest[i := 0]) [k..<n] dest
          in Some dest)"

definition strncpy_fast :: "u8 list \<Rightarrow> u8 list \<Rightarrow> nat \<Rightarrow> u8 list option" where
  "strncpy_fast dest src n =
     (case copy_stop src n of
        None \<Rightarrow> None
      | Some k \<Rightarrow>
          let dest = fold (\<lambda>i dest. dest[i := src ! i]) [0..<k] dest
          in Some (if k < n then dest[k := 0] else dest))"

fun strncmp :: "u8 list \<Rightarrow> u8 list \<Rightarrow> nat \<Rightarrow> int option" where
  "strncmp s1 s2 0 = Some 0"
| "strncmp (c1 # s1) (c2 # s2) (Suc n) =
     (if c1 \<noteq> c2 then Some (uint c1 - uint c2)
      else if c1 = 0 \<or> c2 = 0 then Some 0
      else strncmp s1 s2 n)"
| "strncmp s1 s2 (Suc n) = None"

section \<open>Loops as range writes\<close>

lemma fold_update_length: "length (fold (\<lambda>i d. d[p i := f i d]) is d) = length d"
  by (induction "is" arbitrary: d) simp_all

lemma fold_update_nth:
  "j < length d \<Longrightarrow> fold (\<lambda>i d. d[i := f i]) [k..<n] d ! j = (if k \<le> j \<and> j < n then f j else d ! j)"
proof (induction n)
  case 0
  then show ?case by simp
next
  case (Suc n)
  then show ?case
    by (cases "k \<le> n")
      (auto simp: nth_list_update fold_update_length [where p = "\<lambda>i. i" and f = "\<lambda>i d. f i"] less_Suc_eq)
qed

lemmas fold_const_length = fold_update_length [where p = "\<lambda>i. i" and f = "\<lambda>i d. g i" for g]

lemma memset_range:
  "n \<le> length s \<Longrightarrow> memset s c n = range_put 0 (replicate n (ucast (c AND 0xff))) s"
  by (intro nth_equalityI)
    (auto simp: memset_def fold_update_nth fold_const_length buf_simps)

lemma memcpy_range:
  "n \<le> length dest \<Longrightarrow> n \<le> length src \<Longrightarrow> memcpy dest src n = range_put 0 (take n src) dest"
  by (intro nth_equalityI)
    (auto simp: memcpy_def fold_update_nth fold_const_length buf_simps)

text \<open>The two copying directions of \<open>memmove\<close>.\<close>

lemma fold_move_length: "length (fold (\<lambda>i m. m[d + i := m ! (s + i)]) is m) = length m"
  by (rule fold_update_length [where p = "\<lambda>i. d + i" and f = "\<lambda>i m. m ! (s + i)"])

lemma move_forward_nth:
  assumes "d \<le> s \<or> s + n \<le> d" and "s + n \<le> length m" and "d + n \<le> length m"
    and "k \<le> n" and "j < length m"
  shows "fold (\<lambda>i m. m[d + i := m ! (s + i)]) [0..<k] m ! j =
    (if d \<le> j \<and> j < d + k then m ! (s + (j - d)) else m ! j)"
  using assms(4,5)
proof (induction k arbitrary: j)
  case 0
  then show ?case by auto
next
  case (Suc k)
  let ?m = "fold (\<lambda>i m. m[d + i := m ! (s + i)]) [0..<k] m"
  have l: "length ?m = length m" by (rule fold_move_length)
  have src: "?m ! (s + k) = m ! (s + k)"
    using Suc.IH [of "s + k"] Suc.prems assms(1,2) by auto
  have "fold (\<lambda>i m. m[d + i := m ! (s + i)]) [0..<Suc k] m = ?m[d + k := m ! (s + k)]"
    using src by simp
  then show ?case
    using Suc.IH [of j] Suc.prems l assms(3) by (auto simp: nth_list_update)
qed

lemma move_backward_nth:
  assumes "s < d" and "s + n \<le> length m" and "d + n \<le> length m"
    and "k \<le> n" and "j < length m"
  shows "fold (\<lambda>i m. m[d + i := m ! (s + i)]) (rev [k..<n]) m ! j =
    (if d + k \<le> j \<and> j < d + n then m ! (s + (j - d)) else m ! j)"
  using assms(4,5)
proof (induction "n - k" arbitrary: k j)
  case 0
  then show ?case by auto
next
  case (Suc x)
  let ?m = "fold (\<lambda>i m. m[d + i := m ! (s + i)]) (rev [Suc k..<n]) m"
  have kn: "k < n" and l: "length ?m = length m" using Suc.hyps(2) by (auto simp: fold_move_length)
  have IH: "?m ! i = (if d + Suc k \<le> i \<and> i < d + n then m ! (s + (i - d)) else m ! i)"
    if "i < length m" for i
    using Suc.hyps(1) [of "Suc k" i] Suc.hyps(2) kn that by auto
  have src: "?m ! (s + k) = m ! (s + k)"
    using IH [of "s + k"] assms(1,2) kn by auto
  have "fold (\<lambda>i m. m[d + i := m ! (s + i)]) (rev [k..<n]) m = ?m[d + k := m ! (s + k)]"
    using kn src by (simp add: upt_rec [of k n])
  then show ?case
    using IH [of j] Suc.prems l assms(3) kn by (auto simp: nth_list_update)
qed

lemma memmove_range:
  assumes "s + n \<le> length m" and "d + n \<le> length m"
  shows "memmove d s n m = range_put d (range_get s n m) m"
proof (rule nth_equalityI)
  show "length (memmove d s n m) = length (range_put d (range_get s n m) m)"
    using assms by (simp add: memmove_def fold_move_length buf_simps)
next
  fix j assume "j < length (memmove d s n m)"
  then have j: "j < length m" by (auto simp: memmove_def fold_move_length split: if_splits)
  have r: "range_put d (range_get s n m) m ! j =
    (if d \<le> j \<and> j < d + n then m ! (s + (j - d)) else m ! j)"
    using assms j by (auto simp: buf_simps)
  show "memmove d s n m ! j = range_put d (range_get s n m) m ! j"
  proof (cases "s < d \<and> d - s < n")
    case True
    then show ?thesis
      using move_backward_nth [of s d n m 0 j] assms j unfolding r by (auto simp: memmove_def)
  next
    case False
    then have "d \<le> s \<or> s + n \<le> d" by auto
    then show ?thesis
      using move_forward_nth [of d s n m n j] assms j False unfolding r by (auto simp: memmove_def)
  qed
qed

section \<open>Strings\<close>

text \<open>The string a buffer of at most \<open>n\<close> bytes holds: everything before the first NUL.\<close>

definition cstr :: "nat \<Rightarrow> u8 list \<Rightarrow> u8 list" where
  "cstr n s = takeWhile (\<lambda>c. c \<noteq> 0) (take n s)"

text \<open>The bytes the bounded routines inspect are readable.\<close>

definition readable :: "nat \<Rightarrow> u8 list \<Rightarrow> bool" where
  "readable n s \<longleftrightarrow> n \<le> length s \<or> 0 \<in> set s"

lemma cstr_simps [simp]:
  "cstr 0 s = []" "cstr n [] = []"
  "cstr (Suc n) (c # s) = (if c = 0 then [] else c # cstr n s)"
  by (simp_all add: cstr_def)

lemma readable_Cons: "readable (Suc n) (c # s) \<longleftrightarrow> c = 0 \<or> readable n s"
  by (auto simp: readable_def)

lemma readable_Suc_Nil: "\<not> readable (Suc n) []"
  by (simp add: readable_def)

lemma strncmp_cstr:
  "readable n s1 \<Longrightarrow> readable n s2 \<Longrightarrow>
   (\<exists>r. strncmp s1 s2 n = Some r) \<and> (strncmp s1 s2 n = Some 0 \<longleftrightarrow> cstr n s1 = cstr n s2)"
  by (induction s1 s2 n rule: strncmp.induct)
    (auto simp: readable_Cons readable_Suc_Nil unsigned_eq_0_iff dest: word_uint_eqI)

lemma copy_stop_cstr: "readable n src \<Longrightarrow> copy_stop src n = Some (length (cstr n src))"
  by (induction src n rule: copy_stop.induct) (auto simp: readable_Cons readable_Suc_Nil)

lemma cstr_length_le: "length (cstr n s) \<le> n" "length (cstr n s) \<le> length s"
  using length_takeWhile_le [of "\<lambda>c. c \<noteq> 0" "take n s"] by (simp_all add: cstr_def)

lemma cstr_nth: "i < length (cstr n s) \<Longrightarrow> cstr n s ! i = s ! i"
  using cstr_length_le [of n s] by (simp add: cstr_def takeWhile_nth)

lemma strncpy_range:
  assumes "readable n src" and "n \<le> length dest"
  shows "strncpy dest src n =
    Some (range_put 0 (cstr n src @ replicate (n - length (cstr n src)) 0) dest)"
proof -
  let ?k = "length (cstr n src)"
  let ?d = "fold (\<lambda>i dest. dest[i := src ! i]) [0..<?k] dest"
  have k: "?k \<le> n" by (rule cstr_length_le)
  have "fold (\<lambda>i dest. dest[i := 0]) [?k..<n] ?d =
    range_put 0 (cstr n src @ replicate (n - ?k) 0) dest" (is "?l = ?r")
  proof (rule nth_equalityI)
    show "length ?l = length ?r" using assms k by (simp add: fold_const_length buf_simps)
  next
    fix j assume "j < length ?l"
    then show "?l ! j = ?r ! j"
      using assms k
      by (auto simp: fold_const_length fold_update_nth buf_simps nth_append cstr_nth)
  qed
  then show ?thesis using assms by (simp add: strncpy_def copy_stop_cstr)
qed

section \<open>Properties\<close>

text \<open>
  C9: \<open>memmove\<close> moves the \<open>n\<close> bytes at \<open>s\<close> to \<open>d\<close> as they were before the call, however
  the two ranges overlap, and changes no byte outside the destination range.
\<close>

theorem memmove_overlap_safe:
  assumes "s + n \<le> length m" and "d + n \<le> length m"
  shows "range_get d n (memmove d s n m) = range_get s n m \<and>
    length (memmove d s n m) = length m \<and>
    (\<forall>j < length m. (j < d \<or> d + n \<le> j) \<longrightarrow> memmove d s n m ! j = m ! j)"
  using assms by (simp add: memmove_range buf_simps)

theorem memmove_overlap_safe_witness:
  "range_get 1 3 (memmove 1 0 3 [10, 20, 30, 40]) = [10, 20, 30]"
  using memmove_overlap_safe [of 0 3 "[10, 20, 30, 40]" 1] by (simp add: range_get_def)

text \<open>
  C10: comparing with \<open>strncmp\<close> what \<open>strncpy\<close> stored: the copy of a name into a field of
  \<open>n\<close> bytes fills the whole field, padding with NULs, touches nothing behind it, and
  compares equal to the original under \<open>strncmp\<close> with the same bound; two names compare
  equal exactly when they agree up to their first NUL or the bound.
\<close>

theorem strncpy_strncmp:
  assumes "readable n src" and "n \<le> length dest" and "readable n other"
  shows "\<exists>d. strncpy dest src n = Some d \<and> length d = length dest \<and> drop n d = drop n dest \<and>
    strncmp d src n = Some 0 \<and>
    (strncmp d other n = Some 0 \<longleftrightarrow> cstr n src = cstr n other)"
proof -
  let ?c = "cstr n src"
  let ?d = "range_put 0 (?c @ replicate (n - length ?c) 0) dest"
  have k: "length ?c \<le> n" by (rule cstr_length_le)
  have d: "take n ?d = ?c @ replicate (n - length ?c) 0" "drop n ?d = drop n dest"
    "length ?d = length dest"
    using k assms(2) by (simp_all add: range_put_def)
  have nz: "\<forall>c\<in>set ?c. c \<noteq> 0" by (auto simp: cstr_def dest: set_takeWhileD)
  have "cstr n ?d = ?c"
    unfolding cstr_def [of n "?d"] d(1) using nz by (simp add: takeWhile_append)
  moreover have "readable n ?d" using assms(2) d(3) by (simp add: readable_def)
  ultimately show ?thesis
    using strncpy_range [OF assms(1,2)] d strncmp_cstr [of n ?d src] strncmp_cstr [of n ?d other] assms
    by auto
qed

theorem strncpy_strncmp_witness:
  "\<exists>d. strncpy [9, 9, 9, 9] [97, 98, 0] 3 = Some d \<and> length d = 4 \<and> drop 3 d = [9] \<and>
    strncmp d [97, 98, 0] 3 = Some 0"
  using strncpy_strncmp [of 3 "[97, 98, 0]" "[9, 9, 9, 9]" "[97, 0]"]
  by (auto simp: readable_def)

end
