(* ===== verification/Fs_Defs.thy ===== *)
theory Fs_Defs
  imports Bitmap CString
begin

text \<open>
  On-disk structures of the file system (\<open>fs/defines.h\<close>) and the block device
  (\<open>fs/block_device.c\<close>). Every structure is a record together with its little-endian
  byte layout; the layouts are interpretations of the \<open>codec\<close> locale, which provides
  the round trips and the array laws used by the block cache and the inode layer.
\<close>

section \<open>Constants\<close>

abbreviation BLOCK_SIZE :: nat where "BLOCK_SIZE \<equiv> 512"
abbreviation SWAP_SIZE :: nat where "SWAP_SIZE \<equiv> 200"
abbreviation SWAP_START :: nat where "SWAP_START \<equiv> 800"
abbreviation SWAP_END :: nat where "SWAP_END \<equiv> 1000"
abbreviation LOG_MAX_SIZE :: nat where "LOG_MAX_SIZE \<equiv> 63"
abbreviation INODE_NUM_DIRECT :: nat where "INODE_NUM_DIRECT \<equiv> 12"
abbreviation INODE_NUM_INDIRECT :: nat where "INODE_NUM_INDIRECT \<equiv> 128"
abbreviation INODE_PER_BLOCK :: nat where "INODE_PER_BLOCK \<equiv> 8"
abbreviation INODE_MAX_BLOCKS :: nat where "INODE_MAX_BLOCKS \<equiv> 140"
abbreviation INODE_MAX_BYTES :: nat where "INODE_MAX_BYTES \<equiv> 71680"
abbreviation FILE_NAME_MAX_LENGTH :: nat where "FILE_NAME_MAX_LENGTH \<equiv> 14"
abbreviation INODE_INVALID :: u16 where "INODE_INVALID \<equiv> 0"
abbreviation INODE_DIRECTORY :: u16 where "INODE_DIRECTORY \<equiv> 1"
abbreviation INODE_REGULAR :: u16 where "INODE_REGULAR \<equiv> 2"
abbreviation INODE_DEVICE :: u16 where "INODE_DEVICE \<equiv> 3"
abbreviation ROOT_INODE_NO :: nat where "ROOT_INODE_NO \<equiv> 1"
abbreviation BIT_PER_BLOCK :: nat where "BIT_PER_BLOCK \<equiv> 4096"

section \<open>Structures\<close>

record SuperBlock =
  sb_num_blocks :: u32
  sb_num_data_blocks :: u32
  sb_num_inodes :: u32
  sb_num_log_blocks :: u32
  sb_log_start :: u32
  sb_inode_start :: u32
  sb_bitmap_start :: u32

record InodeEntry =
  i_type :: u16
  i_major :: u16
  i_minor :: u16
  i_num_links :: u16
  i_num_bytes :: u32
  i_addrs :: "u32 list"
  i_indirect :: u32

record DirEntry =
  d_inode_no :: u16
  d_name :: "u8 list"

text \<open>\<open>usize\<close> fields are natural numbers that fit in 64 bits.\<close>

record LogHeader =
  lh_num_blocks :: nat
  lh_block_no :: "nat list"

section \<open>Layouts\<close>

definition enc_usize :: "nat \<Rightarrow> u8 list" where
  "enc_usize n = enc64 (word_of_nat n)"

definition dec_usize :: "u8 list \<Rightarrow> nat" where
  "dec_usize bs = unat (dec64 bs)"

interpretation usz: codec enc_usize dec_usize 8 "\<lambda>n. n < 2 ^ 64"
  by unfold_locales (simp_all add: enc_usize_def dec_usize_def le_word_le_bytes unat_of_nat take_bit_nat_eq_self)

definition enc_header :: "LogHeader \<Rightarrow> u8 list" where
  "enc_header h = enc_usize (lh_num_blocks h) @ concat (map enc_usize (lh_block_no h))"

definition dec_header :: "u8 list \<Rightarrow> LogHeader" where
  "dec_header bs =
     \<lparr>lh_num_blocks = dec_usize (take 8 bs),
      lh_block_no = map (\<lambda>i. arr_get 8 dec_usize i (drop 8 bs)) [0..<LOG_MAX_SIZE]\<rparr>"

definition wf_header :: "LogHeader \<Rightarrow> bool" where
  "wf_header h \<longleftrightarrow> lh_num_blocks h < 2 ^ 64 \<and> length (lh_block_no h) = LOG_MAX_SIZE \<and>
     (\<forall>b\<in>set (lh_block_no h). b < 2 ^ 64)"

interpretation hdr: codec enc_header dec_header BLOCK_SIZE wf_header
proof unfold_locales
  fix h assume "wf_header h"
  then have w: "lh_num_blocks h < 2 ^ 64" "length (lh_block_no h) = LOG_MAX_SIZE"
    "\<forall>b\<in>set (lh_block_no h). b < 2 ^ 64"
    by (simp_all add: wf_header_def)
  note [simp] = usz.enc_length [OF w(1)] usz.dec_enc [OF w(1)] usz.length_concat_enc [OF w(3)]
  show "length (enc_header h) = BLOCK_SIZE" using w(2) by (simp add: enc_header_def)
  show "dec_header (enc_header h) = h"
    using usz.map_arr_get_concat [OF w(3), of "[]"] w(2)
    by (simp add: enc_header_def dec_header_def)
qed

definition enc_inode :: "InodeEntry \<Rightarrow> u8 list" where
  "enc_inode e = enc16 (i_type e) @ enc16 (i_major e) @ enc16 (i_minor e) @ enc16 (i_num_links e) @
     enc32 (i_num_bytes e) @ concat (map enc32 (i_addrs e)) @ enc32 (i_indirect e)"

definition dec_inode :: "u8 list \<Rightarrow> InodeEntry" where
  "dec_inode bs =
     \<lparr>i_type = dec16 (range_get 0 2 bs), i_major = dec16 (range_get 2 2 bs),
      i_minor = dec16 (range_get 4 2 bs), i_num_links = dec16 (range_get 6 2 bs),
      i_num_bytes = dec32 (range_get 8 4 bs),
      i_addrs = map (\<lambda>i. arr_get 4 dec32 i (drop 12 bs)) [0..<INODE_NUM_DIRECT],
      i_indirect = dec32 (range_get 60 4 bs)\<rparr>"

definition wf_inode_entry :: "InodeEntry \<Rightarrow> bool" where
  "wf_inode_entry e \<longleftrightarrow> length (i_addrs e) = INODE_NUM_DIRECT"

lemma range_get_append_right:
  "length xs \<le> off \<Longrightarrow> range_get off n (xs @ ys) = range_get (off - length xs) n ys"
  by (simp add: range_get_def)

lemma range_get_append_left: "n = length xs \<Longrightarrow> range_get 0 n (xs @ ys) = xs"
  by (simp add: range_get_def)

interpretation ino: codec enc_inode dec_inode 64 wf_inode_entry
proof unfold_locales
  fix e assume "wf_inode_entry e"
  then have w: "length (i_addrs e) = INODE_NUM_DIRECT" by (simp add: wf_inode_entry_def)
  have l: "length (concat (map enc32 (i_addrs e))) = 48"
    using c32.length_concat_enc [of "i_addrs e"] w by simp
  show "length (enc_inode e) = 64" using l by (simp add: enc_inode_def)
  have "map (\<lambda>i. arr_get 4 dec32 i (drop 12 (enc_inode e))) [0..<INODE_NUM_DIRECT] = i_addrs e"
    using c32.map_arr_get_concat [of "i_addrs e" "enc32 (i_indirect e)"] w
    by (simp add: enc_inode_def)
  then show "dec_inode (enc_inode e) = e"
    using l by (simp add: dec_inode_def)
      (simp add: enc_inode_def range_get_append_right range_get_append_left range_get_whole
        c16.dec_enc c32.dec_enc)
qed

definition enc_dirent :: "DirEntry \<Rightarrow> u8 list" where
  "enc_dirent d = enc16 (d_inode_no d) @ d_name d"

definition dec_dirent :: "u8 list \<Rightarrow> DirEntry" where
  "dec_dirent bs = \<lparr>d_inode_no = dec16 (range_get 0 2 bs), d_name = range_get 2 14 bs\<rparr>"

definition wf_dirent :: "DirEntry \<Rightarrow> bool" where
  "wf_dirent d \<longleftrightarrow> length (d_name d) = FILE_NAME_MAX_LENGTH"

interpretation dirent: codec enc_dirent dec_dirent 16 wf_dirent
proof unfold_locales
  fix d assume "wf_dirent d"
  then have w: "length (d_name d) = 14" by (simp add: wf_dirent_def)
  then show "length (enc_dirent d) = 16" by (simp add: enc_dirent_def)
  show "dec_dirent (enc_dirent d) = d"
    using w by (simp add: dec_dirent_def enc_dirent_def range_get_append_right
        range_get_append_left range_get_whole c16.dec_enc)
qed

text \<open>The bitmap cells seen through \<open>(BitmapCell *)block->data\<close>, and back.\<close>

definition cells_of :: "u8 list \<Rightarrow> BitmapCell list" where
  "cells_of bs = map (\<lambda>i. arr_get 8 dec64 i bs) [0..<length bs div 8]"

definition bytes_of :: "BitmapCell list \<Rightarrow> u8 list" where
  "bytes_of cs = concat (map enc64 cs)"

lemma length_bytes_of [simp]: "length (bytes_of cs) = 8 * length cs"
  using c64.length_concat_enc [of cs] by (simp add: bytes_of_def)

lemma length_cells_of [simp]: "length (cells_of bs) = length bs div 8"
  by (simp add: cells_of_def)

lemma cells_of_bytes_of [simp]: "cells_of (bytes_of cs) = cs"
  using c64.map_arr_get_concat [of cs "[]"]
  by (simp add: cells_of_def) (simp add: bytes_of_def)

section \<open>The block device\<close>

text \<open>
  What the upper layers rely on of a block device: a read returns the last block written
  at that number. \<open>ok\<close> delimits the block numbers the device can tell apart.
\<close>

locale block_device =
  fixes read :: "'d \<Rightarrow> nat \<Rightarrow> u8 list" and "write" :: "'d \<Rightarrow> nat \<Rightarrow> u8 list \<Rightarrow> 'd"
    and ok :: "nat \<Rightarrow> bool"
  assumes read_write_same: "ok n \<Longrightarrow> read (write d n x) n = x"
    and read_write_other: "ok n \<Longrightarrow> ok m \<Longrightarrow> n \<noteq> m \<Longrightarrow> read (write d n x) m = read d m"
begin

lemma read_fold_write:
  "\<forall>(n, x)\<in>set ws. ok n \<Longrightarrow> ok m \<Longrightarrow> m \<notin> fst ` set ws \<Longrightarrow>
   read (fold (\<lambda>(n, x) d. write d n x) ws d) m = read d m"
  by (induction ws arbitrary: d) (auto simp: read_write_other)

end

definition BLOCKNO_OFFSET :: u32 where
  "BLOCKNO_OFFSET = 0x20800"

text \<open>
  \<open>sd_read\<close> and \<open>sd_write\<close> of \<open>fs/block_device.c\<close> over a card, the sectors behind
  \<open>sdrw\<close>: the block number is truncated to 32 bits and shifted to the second partition.
\<close>

type_synonym sd_card = "u32 \<Rightarrow> u8 list"

definition sd_read :: "sd_card \<Rightarrow> nat \<Rightarrow> u8 list" where
  "sd_read sd block_no = sd (word_of_nat block_no + BLOCKNO_OFFSET)"

definition sd_write :: "sd_card \<Rightarrow> nat \<Rightarrow> u8 list \<Rightarrow> sd_card" where
  "sd_write sd block_no buffer = sd(word_of_nat block_no + BLOCKNO_OFFSET := buffer)"

lemma word_of_nat_eq_iff32:
  "n < 2 ^ 32 \<Longrightarrow> m < 2 ^ 32 \<Longrightarrow> (word_of_nat n :: u32) = word_of_nat m \<longleftrightarrow> n = m"
  by (simp add: word_of_nat_eq_iff take_bit_nat_eq_self)

interpretation sd: block_device sd_read sd_write "\<lambda>n. n < 2 ^ 32"
  by unfold_locales (simp_all add: sd_read_def sd_write_def word_of_nat_eq_iff32)

end
