(* ===== verification/Block_Cache.thy ===== *)
theory Block_Cache
  imports Fs_Defs Sync
begin

text \<open>
  The block cache and its write-ahead log (\<open>fs/cache.h\<close>, \<open>fs/cache.c\<close>).

  A \<open>Block *\<close> is the number of the block: the cache holds at most one block of each number,
  and a pointer to a block that is no longer cached is \<open>Panic\<close>. The list \<open>head\<close> of the
  source is a list of blocks, most recently used first; \<^term>\<open>trace\<close> is a ghost field that
  records the writes handed to the device, in order, so that a crash is a prefix of it.
  Threads handed to \<open>activate_proc\<close> by a semaphore are appended to \<^term>\<open>activated\<close>.
\<close>

section \<open>State\<close>

abbreviation OP_MAX_NUM_BLOCKS :: nat where "OP_MAX_NUM_BLOCKS \<equiv> 10"
abbreviation EVICTION_THRESHOLD :: nat where "EVICTION_THRESHOLD \<equiv> 20"

record Block =
  b_no :: nat
  b_acquired :: bool
  b_pinned :: bool
  b_lock :: Semaphore
  b_valid :: bool
  b_data :: "u8 list"

record OpContext =
  rm :: nat
  ts :: nat

record LOG =
  max_size :: int
  outstanding :: int
  log_used :: int
  committing :: bool
  log_sem :: Semaphore
  log_commit_sem :: Semaphore

record cache =
  sblock :: SuperBlock
  disk :: "nat \<Rightarrow> u8 list"
  trace :: "(nat \<times> u8 list) list"
  head :: "Block list"
  header :: LogHeader
  cache_cnt :: nat
  swap_bitmap :: "u8 list"
  log :: LOG
  activated :: "nat list"

abbreviation log_start :: "cache \<Rightarrow> nat" where
  "log_start s \<equiv> unat (sb_log_start (sblock s))"

section \<open>Device access and the log header\<close>

definition dev_write :: "nat \<Rightarrow> u8 list \<Rightarrow> cache \<Rightarrow> cache" where
  "dev_write n d s = s\<lparr>disk := (disk s)(n := d), trace := trace s @ [(n, d)]\<rparr>"

definition read_header :: "cache \<Rightarrow> cache" where
  "read_header s = s\<lparr>header := dec_header (disk s (log_start s))\<rparr>"

definition write_header :: "cache \<Rightarrow> cache" where
  "write_header s = dev_write (log_start s) (enc_header (header s)) s"

definition header_block :: "nat \<Rightarrow> cache \<Rightarrow> nat res" where
  "header_block i s =
     (if i < length (lh_block_no (header s)) then Ok (lh_block_no (header s) ! i) else Panic)"

section \<open>Blocks\<close>

definition init_block :: Block where
  "init_block = \<lparr>b_no = 0, b_acquired = False, b_pinned = False, b_lock = init_sleeplock,
     b_valid = False, b_data = memset (replicate BLOCK_SIZE 0) 0 BLOCK_SIZE\<rparr>"

definition block_at :: "cache \<Rightarrow> nat \<Rightarrow> Block option" where
  "block_at s n = find (\<lambda>b. b_no b = n) (head s)"

definition upd_block :: "nat \<Rightarrow> (Block \<Rightarrow> Block) \<Rightarrow> cache \<Rightarrow> cache" where
  "upd_block n f s = s\<lparr>head := map (\<lambda>b. if b_no b = n then f b else b) (head s)\<rparr>"

definition get_data :: "nat \<Rightarrow> cache \<Rightarrow> u8 list" where
  "get_data n s = (case block_at s n of None \<Rightarrow> [] | Some b \<Rightarrow> b_data b)"

definition put_data :: "nat \<Rightarrow> u8 list \<Rightarrow> cache \<Rightarrow> cache" where
  "put_data n d s = upd_block n (\<lambda>b. b\<lparr>b_data := d\<rparr>) s"

definition device_write :: "nat \<Rightarrow> cache \<Rightarrow> cache" where
  "device_write n s = dev_write n (get_data n s) s"

definition get_num_cached_blocks :: "cache \<Rightarrow> nat" where
  "get_num_cached_blocks s = cache_cnt s"

text \<open>\<open>LRU_shrink\<close> walks the list from its tail, the least recently used block.\<close>

fun lru_walk :: "nat \<Rightarrow> Block list \<Rightarrow> nat \<times> Block list" where
  "lru_walk cnt [] = (cnt, [])"
| "lru_walk cnt (b # bs) =
     (if cnt < EVICTION_THRESHOLD then (cnt, b # bs)
      else if \<not> b_pinned b \<and> \<not> b_acquired b then lru_walk (cnt - 1) bs
      else let (cnt', bs') = lru_walk cnt bs in (cnt', b # bs'))"

definition LRU_shrink :: "cache \<Rightarrow> cache" where
  "LRU_shrink s =
     (let (cnt, bs) = lru_walk (cache_cnt s) (rev (head s))
      in s\<lparr>head := rev bs, cache_cnt := cnt\<rparr>)"

text \<open>
  One pass of \<open>cache_acquire\<close> from its label \<open>__back\<close>, under the cache lock: \<open>None\<close> when the
  block is held by another thread and the caller has to wait on the block's lock first.
\<close>

definition cache_acquire_try :: "bool \<Rightarrow> nat \<Rightarrow> cache \<Rightarrow> cache option" where
  "cache_acquire_try if_back n s =
     (case List.extract (\<lambda>b. b_no b = n) (head s) of
        Some (ys, b, zs) \<Rightarrow>
          if b_acquired b then None
          else
            let s = s\<lparr>head := b # ys @ zs\<rparr>;
                s = (if \<not> if_back
                     then upd_block n (\<lambda>b. b\<lparr>b_lock := snd (get_sem (b_lock b))\<rparr>) s else s)
            in Some (upd_block n (\<lambda>b. b\<lparr>b_acquired := True\<rparr>) s)
      | None \<Rightarrow>
          let s = (if get_num_cached_blocks s \<ge> EVICTION_THRESHOLD then LRU_shrink s else s);
              s = s\<lparr>cache_cnt := cache_cnt s + 1\<rparr>;
              b = init_block\<lparr>b_no := n\<rparr>;
              b = b\<lparr>b_data := disk s n\<rparr>;
              b = b\<lparr>b_valid := True\<rparr>;
              s = s\<lparr>head := b # head s\<rparr>;
              s = upd_block n (\<lambda>b. b\<lparr>b_lock := snd (get_sem (b_lock b))\<rparr>) s
          in Some (upd_block n (\<lambda>b. b\<lparr>b_acquired := True\<rparr>) s))"

definition cache_acquire_wait :: "nat \<Rightarrow> nat \<Rightarrow> cache \<Rightarrow> cache" where
  "cache_acquire_wait t n s = upd_block n (\<lambda>b. b\<lparr>b_lock := snd (wait_sem t (b_lock b))\<rparr>) s"

definition cache_acquire :: "nat \<Rightarrow> cache \<Rightarrow> cache res" where
  "cache_acquire n s =
     (case cache_acquire_try False n s of Some s' \<Rightarrow> Ok s' | None \<Rightarrow> Blocked)"

definition cache_release :: "nat \<Rightarrow> cache \<Rightarrow> cache res" where
  "cache_release n s =
     (case block_at s n of
        None \<Rightarrow> Panic
      | Some b \<Rightarrow>
          let s = upd_block n (\<lambda>b. b\<lparr>b_acquired := False\<rparr>) s
          in bnd (post_sem (b_lock b)) (\<lambda>(woken, sem).
               Ok (upd_block n (\<lambda>b. b\<lparr>b_lock := sem\<rparr>)
                     (s\<lparr>activated := activated s @ (case woken of None \<Rightarrow> [] | Some t \<Rightarrow> [t])\<rparr>))))"

section \<open>Recovery and initialisation\<close>

definition recover_step :: "nat \<Rightarrow> cache \<Rightarrow> cache res" where
  "recover_step i s =
     (let d = disk s (log_start s + i + 1)
      in bnd (header_block i s) (\<lambda>n. Ok (dev_write n d s)))"

definition recover_from_log :: "cache \<Rightarrow> cache res" where
  "recover_from_log s =
     (let s = read_header s in
      bnd (mfold recover_step [0..<lh_num_blocks (header s)] s) (\<lambda>s.
        Ok (write_header (s\<lparr>header := (header s)\<lparr>lh_num_blocks := 0\<rparr>\<rparr>))))"

definition init_bcache :: "SuperBlock \<Rightarrow> cache \<Rightarrow> cache res" where
  "init_bcache sb s =
     (let s = s\<lparr>sblock := sb, head := [], cache_cnt := 0\<rparr>;
          s = s\<lparr>log := (log s)\<lparr>log_sem := init_sem 0, log_commit_sem := init_sem 0,
                max_size := int (min (unat (sb_num_log_blocks sb - 1)) LOG_MAX_SIZE),
                log_used := 0, committing := False, outstanding := 0\<rparr>\<rparr>
      in bnd (recover_from_log s) (\<lambda>s.
           Ok (s\<lparr>swap_bitmap := memset (swap_bitmap s) 0 ((SWAP_END - SWAP_START) div 8)\<rparr>)))"

section \<open>Atomic operations\<close>

text \<open>
  \<open>cache_begin_op\<close> for thread \<open>t\<close>: one pass of its loop. The flag tells whether the
  operation has begun; otherwise the thread has been put to sleep on \<open>log_sem\<close> (or has
  consumed a unit of it) and runs the loop again when it resumes.
\<close>

definition cache_begin_op :: "nat \<Rightarrow> OpContext \<Rightarrow> cache \<Rightarrow> bool \<times> OpContext \<times> cache" where
  "cache_begin_op t ctx s =
     (let l = log s in
      if committing l
      then (False, ctx, s\<lparr>log := l\<lparr>log_sem := snd (wait_sem t (log_sem l))\<rparr>\<rparr>)
      else if log_used l + int (lh_num_blocks (header s)) + int OP_MAX_NUM_BLOCKS > max_size l
      then (False, ctx, s\<lparr>log := l\<lparr>log_sem := snd (wait_sem t (log_sem l))\<rparr>\<rparr>)
      else (True, ctx\<lparr>rm := OP_MAX_NUM_BLOCKS\<rparr>,
            s\<lparr>log := l\<lparr>outstanding := outstanding l + 1,
                         log_used := log_used l + int OP_MAX_NUM_BLOCKS\<rparr>\<rparr>))"

definition logged :: "cache \<Rightarrow> nat list" where
  "logged s = take (lh_num_blocks (header s)) (lh_block_no (header s))"

definition cache_sync :: "OpContext option \<Rightarrow> nat \<Rightarrow> cache \<Rightarrow> (OpContext option \<times> cache) res" where
  "cache_sync ctx n s =
     (case ctx of
        None \<Rightarrow> Ok (None, device_write n s)
      | Some c \<Rightarrow>
          if n \<in> set (logged s) then Ok (ctx, s)
          else
            let i = lh_num_blocks (header s);
                h = header s;
                s = s\<lparr>header := h\<lparr>lh_block_no := (lh_block_no h)[i := n]\<rparr>\<rparr>;
                s = upd_block n (\<lambda>b. b\<lparr>b_pinned := True\<rparr>) s
            in if rm c > 0
               then Ok (Some (c\<lparr>rm := rm c - 1\<rparr>),
                        s\<lparr>log := (log s)\<lparr>log_used := log_used (log s) - 1\<rparr>,
                          header := (header s)\<lparr>lh_num_blocks := i + 1\<rparr>\<rparr>)
               else Panic)"

definition log_one_block :: "nat \<Rightarrow> cache \<Rightarrow> cache res" where
  "log_one_block i s =
     bnd (header_block i s) (\<lambda>n.
     bnd (cache_acquire n s) (\<lambda>s.
       let s = dev_write (log_start s + 1 + i) (get_data n s) s;
           s = upd_block n (\<lambda>b. b\<lparr>b_pinned := False\<rparr>) s
       in cache_release n s))"

definition write_block_to_log :: "cache \<Rightarrow> cache res" where
  "write_block_to_log s = mfold log_one_block [0..<lh_num_blocks (header s)] s"

definition persist_one_block :: "nat \<Rightarrow> cache \<Rightarrow> cache res" where
  "persist_one_block i s =
     (let d = disk s (log_start s + 1 + i) in
      bnd (header_block i s) (\<lambda>n.
      bnd (cache_acquire n s) (\<lambda>s.
        let s = put_data n d s;
            s = device_write n s
        in cache_release n s)))"

definition persist_from_log :: "cache \<Rightarrow> cache res" where
  "persist_from_log s = mfold persist_one_block [0..<lh_num_blocks (header s)] s"

definition checkpoint :: "cache \<Rightarrow> cache res" where
  "checkpoint s =
     (if lh_num_blocks (header s) \<le> 0 then Ok s
      else
        bnd (write_block_to_log s) (\<lambda>s.
        bnd (persist_from_log (write_header s)) (\<lambda>s.
          Ok (write_header (s\<lparr>header := (header s)\<lparr>lh_num_blocks := 0\<rparr>\<rparr>)))))"

definition post_all_log_sem :: "cache \<Rightarrow> cache res" where
  "post_all_log_sem s =
     bnd (post_all_sem (log_sem (log s))) (\<lambda>(_, woken, sem).
       Ok (s\<lparr>log := (log s)\<lparr>log_sem := sem\<rparr>, activated := activated s @ woken\<rparr>))"

definition post_all_log_commit_sem :: "cache \<Rightarrow> cache res" where
  "post_all_log_commit_sem s =
     bnd (post_all_sem (log_commit_sem (log s))) (\<lambda>(_, woken, sem).
       Ok (s\<lparr>log := (log s)\<lparr>log_commit_sem := sem\<rparr>, activated := activated s @ woken\<rparr>))"

text \<open>
  \<open>cache_end_op\<close> for thread \<open>t\<close>. The flag is \<open>False\<close> when the thread now sleeps on
  \<open>log_commit_sem\<close>, to be woken by the operation that commits.
\<close>

definition cache_end_op :: "nat \<Rightarrow> OpContext \<Rightarrow> cache \<Rightarrow> (bool \<times> cache) res" where
  "cache_end_op t ctx s =
     (let s = s\<lparr>log := (log s)\<lparr>outstanding := outstanding (log s) - 1,
                                 log_used := log_used (log s) - int (rm ctx)\<rparr>\<rparr> in
      if outstanding (log s) = 0
      then
        bnd (checkpoint (s\<lparr>log := (log s)\<lparr>committing := True\<rparr>\<rparr>)) (\<lambda>s.
        let s = s\<lparr>log := (log s)\<lparr>committing := False\<rparr>\<rparr> in
        bnd (post_all_log_commit_sem s) (\<lambda>s.
        bnd (post_all_log_sem s) (\<lambda>s. Ok (True, s))))
      else
        bnd (post_all_log_sem s) (\<lambda>s.
        let (passed, sem) = wait_sem t (log_commit_sem (log s))
        in Ok (passed, s\<lparr>log := (log s)\<lparr>log_commit_sem := sem\<rparr>\<rparr>)))"

section \<open>Allocation of blocks\<close>

text \<open>\<open>sblock->num_blocks - SWAP_SIZE\<close> is computed in 32 bits.\<close>

definition alloc_limit :: "cache \<Rightarrow> nat" where
  "alloc_limit s = unat (sb_num_blocks (sblock s) - 200)"

definition bitmap_start :: "cache \<Rightarrow> nat" where
  "bitmap_start s = unat (sb_bitmap_start (sblock s))"

definition take_block ::
  "OpContext option \<Rightarrow> nat \<Rightarrow> nat \<Rightarrow> nat \<Rightarrow> cache \<Rightarrow> (nat \<times> OpContext option \<times> cache) res" where
  "take_block ctx bitmap_block index i s =
     (let s = put_data bitmap_block
                (bytes_of (bitmap_set (cells_of (get_data bitmap_block s)) i)) s in
      bnd (cache_sync ctx bitmap_block s) (\<lambda>(ctx, s).
      bnd (cache_release bitmap_block s) (\<lambda>s.
      let alloc_block_no = index + i in
      bnd (cache_acquire alloc_block_no s) (\<lambda>s.
      let s = put_data alloc_block_no (memset (get_data alloc_block_no s) 0 BLOCK_SIZE) s in
      bnd (cache_sync ctx alloc_block_no s) (\<lambda>(ctx, s).
      bnd (cache_release alloc_block_no s) (\<lambda>s.
        Ok (alloc_block_no, ctx, s)))))))"

text \<open>The outer loop of \<open>cache_alloc\<close> over the bitmap blocks.\<close>

fun alloc_scan :: "nat list \<Rightarrow> OpContext option \<Rightarrow> cache \<Rightarrow> (nat \<times> OpContext option \<times> cache) res" where
  "alloc_scan [] ctx s = Panic"
| "alloc_scan (k # ks) ctx s =
     (let index = k * BIT_PER_BLOCK;
          bitmap_block_no = index div BIT_PER_BLOCK + bitmap_start s
      in bnd (cache_acquire bitmap_block_no s) (\<lambda>s.
           let bitmap = cells_of (get_data bitmap_block_no s) in
           case find (\<lambda>i. \<not> bitmap_get bitmap i) [0..<min BIT_PER_BLOCK (alloc_limit s - index)] of
             Some i \<Rightarrow> take_block ctx bitmap_block_no index i s
           | None \<Rightarrow> bnd (cache_release bitmap_block_no s) (alloc_scan ks ctx)))"

definition cache_alloc :: "OpContext option \<Rightarrow> cache \<Rightarrow> (nat \<times> OpContext option \<times> cache) res" where
  "cache_alloc ctx s =
     alloc_scan [0..<(alloc_limit s + BIT_PER_BLOCK - 1) div BIT_PER_BLOCK] ctx s"

definition cache_free :: "OpContext option \<Rightarrow> nat \<Rightarrow> cache \<Rightarrow> (OpContext option \<times> cache) res" where
  "cache_free ctx n s =
     (let bitmap_block_no = n div BIT_PER_BLOCK + bitmap_start s in
      bnd (cache_acquire bitmap_block_no s) (\<lambda>s.
      let bitmap = cells_of (get_data bitmap_block_no s);
          index = n mod BIT_PER_BLOCK
      in if \<not> bitmap_get bitmap index then Panic
         else
           let s = put_data bitmap_block_no (bytes_of (bitmap_clear bitmap index)) s in
           bnd (cache_sync ctx bitmap_block_no s) (\<lambda>(ctx, s).
           bnd (cache_release bitmap_block_no s) (\<lambda>s. Ok (ctx, s)))))"

section \<open>Swap space\<close>

text \<open>
  \<open>swap_bitmap\<close> has 25 bytes and is accessed in 64-bit cells; the field \<^term>\<open>swap_bitmap\<close>
  holds all 32 bytes of the four cells, so the last 7 are the memory behind the array.
\<close>

definition release_8_blocks :: "nat \<Rightarrow> cache \<Rightarrow> cache" where
  "release_8_blocks bno s =
     s\<lparr>swap_bitmap := bytes_of (fold (\<lambda>i bitmap. bitmap_clear bitmap (i - SWAP_START))
                                     [bno..<bno + 8] (cells_of (swap_bitmap s)))\<rparr>"

fun find_8_from :: "nat list \<Rightarrow> nat \<Rightarrow> nat \<Rightarrow> BitmapCell list \<Rightarrow> (nat \<times> BitmapCell list) res" where
  "find_8_from [] cnt ret bitmap = Panic"
| "find_8_from (i # is) cnt ret bitmap =
     (let (cnt, ret) =
        (if \<not> bitmap_get bitmap (i - SWAP_START)
         then (cnt + 1, if cnt = 0 then i else ret)
         else (0, ret))
      in if cnt = 8
         then Ok (ret, fold (\<lambda>j bitmap. bitmap_set bitmap (j - SWAP_START)) [ret..<ret + 8] bitmap)
         else find_8_from is cnt ret bitmap)"

definition find_and_set_8_blocks :: "cache \<Rightarrow> (nat \<times> cache) res" where
  "find_and_set_8_blocks s =
     bnd (find_8_from [SWAP_START..<SWAP_END] 0 0 (cells_of (swap_bitmap s))) (\<lambda>(ret, bitmap).
       Ok (ret, s\<lparr>swap_bitmap := bytes_of bitmap\<rparr>))"

section \<open>Basic facts\<close>

named_theorems cache_simps

lemma find_map_upd:
  "(\<And>b. b_no (f b) = b_no b) \<Longrightarrow>
   find (\<lambda>b. b_no b = m) (map (\<lambda>b. if b_no b = n then f b else b) bs) =
   (if m = n then map_option f (find (\<lambda>b. b_no b = n) bs) else find (\<lambda>b. b_no b = m) bs)"
  by (induction bs) auto

lemma block_at_upd [cache_simps]:
  "(\<And>b. b_no (f b) = b_no b) \<Longrightarrow>
   block_at (upd_block n f s) m = (if m = n then map_option f (block_at s n) else block_at s m)"
  by (simp add: block_at_def upd_block_def find_map_upd)

lemma upd_block_fields [simp]:
  "sblock (upd_block n f s) = sblock s" "disk (upd_block n f s) = disk s"
  "trace (upd_block n f s) = trace s" "header (upd_block n f s) = header s"
  "cache_cnt (upd_block n f s) = cache_cnt s" "swap_bitmap (upd_block n f s) = swap_bitmap s"
  "log (upd_block n f s) = log s" "activated (upd_block n f s) = activated s"
  "length (head (upd_block n f s)) = length (head s)"
  by (simp_all add: upd_block_def)

lemma put_data_fields [simp]:
  "sblock (put_data n d s) = sblock s" "disk (put_data n d s) = disk s"
  "trace (put_data n d s) = trace s" "header (put_data n d s) = header s"
  "cache_cnt (put_data n d s) = cache_cnt s" "swap_bitmap (put_data n d s) = swap_bitmap s"
  "log (put_data n d s) = log s" "activated (put_data n d s) = activated s"
  by (simp_all add: put_data_def)

lemma dev_write_fields [simp]:
  "sblock (dev_write n d s) = sblock s" "disk (dev_write n d s) = (disk s)(n := d)"
  "trace (dev_write n d s) = trace s @ [(n, d)]" "header (dev_write n d s) = header s"
  "cache_cnt (dev_write n d s) = cache_cnt s" "swap_bitmap (dev_write n d s) = swap_bitmap s"
  "log (dev_write n d s) = log s" "activated (dev_write n d s) = activated s"
  "head (dev_write n d s) = head s"
  by (simp_all add: dev_write_def)

lemma map_b_no_upd: "(\<And>b. b_no (f b) = b_no b) \<Longrightarrow> map b_no (head (upd_block n f s)) = map b_no (head s)"
  by (simp add: upd_block_def)

lemma block_at_cong [simp]:
  "block_at (s\<lparr>sblock := a1\<rparr>) = block_at s" "block_at (s\<lparr>disk := a2\<rparr>) = block_at s"
  "block_at (s\<lparr>trace := a3\<rparr>) = block_at s" "block_at (s\<lparr>header := a4\<rparr>) = block_at s"
  "block_at (s\<lparr>cache_cnt := a5\<rparr>) = block_at s" "block_at (s\<lparr>swap_bitmap := a6\<rparr>) = block_at s"
  "block_at (s\<lparr>log := a7\<rparr>) = block_at s" "block_at (s\<lparr>activated := a8\<rparr>) = block_at s"
  "block_at (dev_write n d s) = block_at s"
  by (simp_all add: block_at_def fun_eq_iff)

lemma find_distinct:
  "distinct (map b_no bs) \<Longrightarrow> find (\<lambda>b. b_no b = n) bs = Some b \<longleftrightarrow> b \<in> set bs \<and> b_no b = n"
  by (induction bs) force+

lemma block_at_iff:
  "distinct (map b_no (head s)) \<Longrightarrow> block_at s n = Some b \<longleftrightarrow> b \<in> set (head s) \<and> b_no b = n"
  by (simp add: block_at_def find_distinct)

lemma block_at_no: "block_at s n = Some b \<Longrightarrow> b_no b = n"
  by (auto simp: block_at_def find_Some_iff)

section \<open>Invariant and logical content\<close>

text \<open>What a reader of block \<open>n\<close> sees: the cached copy if there is one, the disk otherwise.\<close>

definition lview :: "cache \<Rightarrow> nat \<Rightarrow> u8 list" where
  "lview s n = (case block_at s n of Some b \<Rightarrow> b_data b | None \<Rightarrow> disk s n)"

definition held :: "cache \<Rightarrow> nat set" where
  "held s = {n. \<exists>b. block_at s n = Some b \<and> b_acquired b}"

definition pinned :: "cache \<Rightarrow> nat set" where
  "pinned s = {n. \<exists>b. block_at s n = Some b \<and> b_pinned b}"

definition lru_ok :: "cache \<Rightarrow> bool" where
  "lru_ok s \<longleftrightarrow> distinct (map b_no (head s)) \<and> cache_cnt s = length (head s)"

definition block_ok :: "Block \<Rightarrow> bool" where
  "block_ok b \<longleftrightarrow> length (b_data b) = BLOCK_SIZE \<and> sem_inv (b_lock b)"

definition blocks_ok :: "cache \<Rightarrow> bool" where
  "blocks_ok s \<longleftrightarrow> (\<forall>n b. block_at s n = Some b \<longrightarrow> block_ok b) \<and>
     (\<forall>n. length (disk s n) = BLOCK_SIZE)"

text \<open>A cached block that is neither pinned nor held agrees with the disk, so it may be evicted.\<close>

definition coherent :: "cache \<Rightarrow> bool" where
  "coherent s \<longleftrightarrow> (\<forall>n b. block_at s n = Some b \<and> \<not> b_pinned b \<and> \<not> b_acquired b \<longrightarrow>
     b_data b = disk s n)"

definition log_ok :: "cache \<Rightarrow> bool" where
  "log_ok s \<longleftrightarrow> length (lh_block_no (header s)) = LOG_MAX_SIZE \<and>
     lh_num_blocks (header s) \<le> LOG_MAX_SIZE \<and> distinct (logged s) \<and> set (logged s) = pinned s"

definition cache_inv :: "cache \<Rightarrow> bool" where
  "cache_inv s \<longleftrightarrow> lru_ok s \<and> blocks_ok s \<and> coherent s \<and> log_ok s"

lemma cache_invD:
  assumes "cache_inv s"
  shows "lru_ok s" "blocks_ok s" "coherent s" "log_ok s"
  using assms by (simp_all add: cache_inv_def)

lemma lru_walk_correct:
  "lru_walk cnt bs = (cnt', bs') \<Longrightarrow>
   set bs' \<subseteq> set bs \<and> (\<forall>b\<in>set bs - set bs'. \<not> b_pinned b \<and> \<not> b_acquired b) \<and>
   cnt' + length bs = cnt + length bs' \<and>
   (distinct (map b_no bs) \<longrightarrow> distinct (map b_no bs')) \<and>
   (cnt' < EVICTION_THRESHOLD \<or> (\<forall>b\<in>set bs'. b_pinned b \<or> b_acquired b))"
proof (induction cnt bs arbitrary: cnt' bs' rule: lru_walk.induct)
  case (2 cnt b bs)
  consider (stop) "cnt < EVICTION_THRESHOLD"
    | (evict) "\<not> cnt < EVICTION_THRESHOLD" "\<not> b_pinned b \<and> \<not> b_acquired b"
    | (keep) bs'' where "\<not> cnt < EVICTION_THRESHOLD" "b_pinned b \<or> b_acquired b"
        "lru_walk cnt bs = (cnt', bs'')" "bs' = b # bs''"
    using "2.prems" by (auto split: if_splits prod.splits)
  then show ?case
  proof cases
    case stop
    then show ?thesis using "2.prems" by simp
  next
    case evict
    then show ?thesis using "2.IH"(1) [OF evict, of cnt' bs'] "2.prems" by auto
  next
    case keep
    then have "\<not> (\<not> b_pinned b \<and> \<not> b_acquired b)" by simp
    from "2.IH"(2) [OF keep(1) this keep(3)] show ?thesis using keep(2,4) by (auto simp: subset_iff)
  qed
qed simp

text \<open>Eviction only drops blocks that are neither pinned nor held.\<close>

definition evicts :: "cache \<Rightarrow> cache \<Rightarrow> bool" where
  "evicts s s' \<longleftrightarrow> (\<exists>bs cnt. s' = s\<lparr>head := bs, cache_cnt := cnt\<rparr>) \<and>
     (\<forall>m. block_at s' m = block_at s m \<or>
        block_at s' m = None \<and> (\<exists>b. block_at s m = Some b \<and> \<not> b_pinned b \<and> \<not> b_acquired b))"

lemma LRU_shrink_evicts:
  assumes "lru_ok s"
  shows "evicts s (LRU_shrink s)" "lru_ok (LRU_shrink s)"
proof -
  obtain cnt bs where w: "lru_walk (cache_cnt s) (rev (head s)) = (cnt, bs)" by fastforce
  have s': "LRU_shrink s = s\<lparr>head := rev bs, cache_cnt := cnt\<rparr>" by (simp add: LRU_shrink_def w)
  have d: "distinct (map b_no (head s))" and c: "cache_cnt s = length (head s)"
    using assms by (simp_all add: lru_ok_def)
  note lw = lru_walk_correct [OF w]
  have d': "distinct (map b_no (rev bs))" using lw d by (simp add: rev_map [symmetric])
  show "lru_ok (LRU_shrink s)" using lw d' c by (simp add: lru_ok_def s')
  have "block_at (LRU_shrink s) m = block_at s m \<or>
      block_at (LRU_shrink s) m = None \<and> (\<exists>b. block_at s m = Some b \<and> \<not> b_pinned b \<and> \<not> b_acquired b)"
    for m
  proof (cases "block_at s m")
    case None
    then have "\<forall>b\<in>set (head s). b_no b \<noteq> m" by (auto simp: block_at_def find_None_iff)
    then have "\<forall>b\<in>set (rev bs). b_no b \<noteq> m" using lw by auto
    then have "block_at (LRU_shrink s) m = None" by (auto simp: s' block_at_def find_None_iff)
    then show ?thesis using None by simp
  next
    case (Some b)
    then have b: "b \<in> set (head s)" "b_no b = m" using block_at_iff [OF d] by auto
    show ?thesis
    proof (cases "b \<in> set bs")
      case True
      then show ?thesis using Some b d' block_at_iff [of "LRU_shrink s" m b] by (simp add: s')
    next
      case False
      have "b' \<notin> set bs" if "b_no b' = m" for b'
        using that False b d lw by (auto simp: distinct_map inj_on_def)
      then have "block_at (LRU_shrink s) m = None" by (auto simp: s' block_at_def find_None_iff)
      then show ?thesis using Some b lw False by simp
    qed
  qed
  then show "evicts s (LRU_shrink s)" unfolding evicts_def using s' by blast
qed

lemma evicts_refl: "evicts s s"
  unfolding evicts_def by (metis cache.surjective cache.update_convs(4,6))

text \<open>Taking a block out of the list and putting it in front.\<close>

lemma extract_block:
  assumes "List.extract (\<lambda>b. b_no b = n) bs = Some (ys, b, zs)"
  shows "bs = ys @ b # zs" "b_no b = n" "find (\<lambda>b. b_no b = n) bs = Some b"
    "find (\<lambda>b. b_no b = m) (b # ys @ zs) = find (\<lambda>b. b_no b = m) bs"
proof -
  have e: "bs = ys @ b # zs" "b_no b = n" "\<forall>y\<in>set ys. b_no y \<noteq> n"
    using assms by (auto simp: extract_Some_iff)
  have skip: "find (\<lambda>b. b_no b = n) (ys @ us) = find (\<lambda>b. b_no b = n) us" for us
    using e(3) by (induction ys) auto
  show "bs = ys @ b # zs" "b_no b = n" by fact+
  show "find (\<lambda>b. b_no b = n) bs = Some b" using e by (simp add: skip)
  show "find (\<lambda>b. b_no b = m) (b # ys @ zs) = find (\<lambda>b. b_no b = m) bs"
  proof (cases "m = n")
    case True
    then show ?thesis using e by (simp add: skip)
  next
    case False
    then have "find (\<lambda>b. b_no b = m) (ys @ b # zs) = find (\<lambda>b. b_no b = m) (ys @ zs)" for ys
      using e(2) by (induction ys) auto
    then show ?thesis using e False by simp
  qed
qed

lemma lru_ok_upd [cache_simps]: "(\<And>b. b_no (f b) = b_no b) \<Longrightarrow> lru_ok (upd_block n f s) = lru_ok s"
  by (simp add: lru_ok_def map_b_no_upd)

lemma upd_block_frame: "\<exists>bs. upd_block n f s = s\<lparr>head := bs\<rparr>"
  by (auto simp: upd_block_def)

text \<open>What a pass of \<open>cache_acquire\<close> does to the blocks, for either value of \<open>if_back\<close>.\<close>

lemma cache_acquire_try_spec:
  assumes lru: "lru_ok s" and nh: "n \<notin> held s"
  obtains s1 b s' where "evicts s s1" "cache_acquire_try if_back n s = Some s'"
    "\<exists>bs cnt. s' = s\<lparr>head := bs, cache_cnt := cnt\<rparr>" "lru_ok s'"
    "block_at s' = (block_at s1)(n \<mapsto> b)" "b_acquired b" "b_data b = lview s n"
    "b_pinned b \<longleftrightarrow> n \<in> pinned s" "\<forall>b0. block_at s n = Some b0 \<longrightarrow> block_at s1 = block_at s \<and> (sem_inv (b_lock b0) \<longrightarrow> sem_inv (b_lock b))"
    "block_at s n = None \<longrightarrow> sem_inv (b_lock b)" "b_no b = n"
proof (cases "List.extract (\<lambda>b. b_no b = n) (head s)")
  case (Some t)
  obtain ys b zs where t: "t = (ys, b, zs)" by (cases t)
  note e = extract_block [OF Some [unfolded t]]
  have bn: "block_at s n = Some b" using e(3) by (simp add: block_at_def)
  have na: "\<not> b_acquired b" using nh bn by (auto simp: held_def)
  define s2 where "s2 = s\<lparr>head := b # ys @ zs\<rparr>"
  have bs2: "block_at s2 = block_at s" using e(4) by (auto simp: s2_def block_at_def)
  have lru2: "lru_ok s2" using lru e(1) by (auto simp: lru_ok_def s2_def)
  define b' where "b' = (if if_back then b else b\<lparr>b_lock := snd (get_sem (b_lock b))\<rparr>)\<lparr>b_acquired := True\<rparr>"
  define s' where "s' = upd_block n (\<lambda>_. b') s2"
  let ?s3 = "if \<not> if_back then upd_block n (\<lambda>b. b\<lparr>b_lock := snd (get_sem (b_lock b))\<rparr>) s2 else s2"
  let ?s4 = "upd_block n (\<lambda>b. b\<lparr>b_acquired := True\<rparr>) ?s3"
  show thesis
  proof (rule that)
    show "evicts s s" by (rule evicts_refl)
    show "cache_acquire_try if_back n s = Some ?s4"
      by (simp add: cache_acquire_try_def Some t na Let_def s2_def)
    show "\<exists>bs cnt. ?s4 = s\<lparr>head := bs, cache_cnt := cnt\<rparr>"
      by (rule exI [of _ "head ?s4"], rule exI [of _ "cache_cnt s"]) (simp add: upd_block_def s2_def)
    show "lru_ok ?s4" using lru2 by (simp add: cache_simps)
    show "block_at ?s4 = (block_at s)(n \<mapsto> b')"
      by (rule ext) (simp add: cache_simps bs2 bn b'_def)
    show "b_acquired b'" "b_data b' = lview s n" "b_no b' = n"
      using bn e(2) by (simp_all add: b'_def lview_def)
    show "b_pinned b' \<longleftrightarrow> n \<in> pinned s" using bn by (simp add: b'_def pinned_def)
    show "\<forall>b0. block_at s n = Some b0 \<longrightarrow> block_at s = block_at s \<and> (sem_inv (b_lock b0) \<longrightarrow> sem_inv (b_lock b'))"
      using bn by (auto simp: b'_def sem_inv_get)
    show "block_at s n = None \<longrightarrow> sem_inv (b_lock b')" using bn by simp
  qed
next
  case None
  then have bn: "block_at s n = None" by (simp add: block_at_def extract_None_iff find_None_iff)
  define s1 where "s1 = (if get_num_cached_blocks s \<ge> EVICTION_THRESHOLD then LRU_shrink s else s)"
  have ev: "evicts s s1" and lru1: "lru_ok s1"
    using LRU_shrink_evicts [OF lru] lru by (simp_all add: s1_def evicts_refl)
  have bn1: "block_at s1 n = None" using ev bn by (metis evicts_def option.distinct(1))
  obtain bs1 cnt1 where s1: "s1 = s\<lparr>head := bs1, cache_cnt := cnt1\<rparr>" using ev evicts_def by blast
  define b where "b = init_block\<lparr>b_no := n, b_data := disk s n, b_valid := True\<rparr>"
  define b' where "b' = b\<lparr>b_lock := snd (get_sem init_sleeplock), b_acquired := True\<rparr>"
  define s2 where "s2 = s1\<lparr>cache_cnt := cache_cnt s1 + 1, head := b # head s1\<rparr>"
  have lru2: "lru_ok s2"
    using lru1 bn1 by (auto simp: lru_ok_def s2_def b_def block_at_def find_None_iff)
  have bs2: "block_at s2 m = (if m = n then Some b else block_at s1 m)" for m
    by (simp add: s2_def block_at_def b_def)
  let ?s4 = "upd_block n (\<lambda>b. b\<lparr>b_acquired := True\<rparr>) (upd_block n (\<lambda>b. b\<lparr>b_lock := snd (get_sem (b_lock b))\<rparr>) s2)"
  show thesis
  proof (rule that)
    show "evicts s s1" by (rule ev)
    have "disk s1 n = disk s n" by (simp add: s1)
    then show "cache_acquire_try if_back n s = Some ?s4"
      by (simp add: cache_acquire_try_def None Let_def s1_def [symmetric] s2_def b_def)
    show "\<exists>bs cnt. ?s4 = s\<lparr>head := bs, cache_cnt := cnt\<rparr>"
      by (rule exI [of _ "head ?s4"], rule exI [of _ "cache_cnt ?s4"]) (simp add: upd_block_def s2_def s1)
    show "lru_ok ?s4" using lru2 by (simp add: cache_simps)
    show "block_at ?s4 = (block_at s1)(n \<mapsto> b')"
      by (rule ext) (simp add: cache_simps bs2 b'_def b_def init_block_def)
    show "b_acquired b'" "b_data b' = lview s n" "b_no b' = n"
      using bn by (simp_all add: b'_def b_def lview_def)
    show "b_pinned b' \<longleftrightarrow> n \<in> pinned s" using bn by (simp add: b'_def b_def init_block_def pinned_def)
    show "\<forall>b0. block_at s n = Some b0 \<longrightarrow> block_at s1 = block_at s \<and> (sem_inv (b_lock b0) \<longrightarrow> sem_inv (b_lock b'))"
      using bn by simp
    show "block_at s n = None \<longrightarrow> sem_inv (b_lock b')"
      by (simp add: b'_def b_def sem_inv_get sem_inv_init)
  qed
qed

lemma evicts_fields:
  assumes "evicts s s1"
  shows "sblock s1 = sblock s" "disk s1 = disk s" "trace s1 = trace s" "header s1 = header s"
    "swap_bitmap s1 = swap_bitmap s" "log s1 = log s" "activated s1 = activated s"
  using assms by (auto simp: evicts_def)

lemma evicts_cases:
  assumes "evicts s s1"
  obtains "block_at s1 m = block_at s m"
    | b where "block_at s1 m = None" "block_at s m = Some b" "\<not> b_pinned b" "\<not> b_acquired b"
  using assms unfolding evicts_def by blast

lemma evicts_sets:
  assumes ev: "evicts s s1"
  shows "held s1 = held s" "pinned s1 = pinned s"
proof -
  have "(\<exists>b. block_at s1 m = Some b \<and> P b) \<longleftrightarrow> (\<exists>b. block_at s m = Some b \<and> P b)"
    if "\<And>b. P b \<Longrightarrow> b_pinned b \<or> b_acquired b" for m P
    using evicts_cases [OF ev, of m] that by (metis option.distinct(1) option.inject)
  from this [of b_acquired] this [of b_pinned]
  show "held s1 = held s" "pinned s1 = pinned s" by (simp_all add: held_def pinned_def)
qed

lemma evicts_view: "evicts s s1 \<Longrightarrow> coherent s \<Longrightarrow> lview s1 = lview s"
proof (rule ext)
  fix m assume ev: "evicts s s1" and c: "coherent s"
  show "lview s1 m = lview s m"
  proof (rule evicts_cases [OF ev, of m])
    assume "block_at s1 m = block_at s m"
    then show ?thesis by (simp add: lview_def evicts_fields(2) [OF ev] split: option.split)
  next
    fix b assume "block_at s1 m = None" "block_at s m = Some b" "\<not> b_pinned b" "\<not> b_acquired b"
    then show ?thesis using c by (simp add: lview_def coherent_def evicts_fields(2) [OF ev])
  qed
qed

lemma evicts_ok:
  assumes ev: "evicts s s1"
  shows "blocks_ok s \<Longrightarrow> blocks_ok s1" "coherent s \<Longrightarrow> coherent s1"
proof -
  have sub: "block_at s m = Some b" if "block_at s1 m = Some b" for m b
    using that by (cases rule: evicts_cases [OF ev, of m]) auto
  show "blocks_ok s \<Longrightarrow> blocks_ok s1" "coherent s \<Longrightarrow> coherent s1"
    unfolding blocks_ok_def coherent_def using sub evicts_fields(2) [OF ev] by auto
qed

text \<open>Every predicate on the blocks depends on \<^const>\<open>block_at\<close>, the disk and the header only.\<close>

lemma view_of_blocks:
  assumes "block_at s' = (block_at s)(n \<mapsto> b)" "disk s' = disk s"
  shows "lview s' = (lview s)(n := b_data b)"
    "held s' = (if b_acquired b then insert n (held s) else held s - {n})"
    "pinned s' = (if b_pinned b then insert n (pinned s) else pinned s - {n})"
    "blocks_ok s \<Longrightarrow> block_ok b \<Longrightarrow> blocks_ok s'"
    "coherent s \<Longrightarrow> b_pinned b \<or> b_acquired b \<or> b_data b = disk s n \<Longrightarrow> coherent s'"
  using assms by (auto simp: fun_eq_iff lview_def held_def pinned_def blocks_ok_def coherent_def
      split: option.split)

text \<open>A held block may be released once its changes are in the log, or when it has none.\<close>

definition clean :: "nat \<Rightarrow> cache \<Rightarrow> bool" where
  "clean n s \<longleftrightarrow> n \<in> pinned s \<or> lview s n = disk s n"

definition env :: "cache \<Rightarrow> SuperBlock \<times> (nat \<Rightarrow> u8 list) \<times> (nat \<times> u8 list) list \<times> u8 list" where
  "env s = (sblock s, disk s, trace s, swap_bitmap s)"

lemma env_eq_iff:
  "env s' = env s \<longleftrightarrow>
   sblock s' = sblock s \<and> disk s' = disk s \<and> trace s' = trace s \<and> swap_bitmap s' = swap_bitmap s"
  by (auto simp: env_def)

lemma cache_acquire_ok:
  assumes inv: "cache_inv s" and nh: "n \<notin> held s"
  shows "\<exists>s'. cache_acquire n s = Ok s' \<and> cache_inv s' \<and> lview s' = lview s \<and>
    held s' = insert n (held s) \<and> clean n s' \<and> (\<forall>m. clean m s' = clean m s) \<and> env s' = env s \<and>
    header s' = header s \<and> log s' = log s"
proof -
  note inv' = cache_invD [OF inv]
  obtain s1 b s' where a: "evicts s s1" "cache_acquire_try False n s = Some s'"
    "\<exists>bs cnt. s' = s\<lparr>head := bs, cache_cnt := cnt\<rparr>" "lru_ok s'"
    "block_at s' = (block_at s1)(n \<mapsto> b)" "b_acquired b" "b_data b = lview s n"
    "b_pinned b \<longleftrightarrow> n \<in> pinned s"
    "\<forall>b0. block_at s n = Some b0 \<longrightarrow> block_at s1 = block_at s \<and> (sem_inv (b_lock b0) \<longrightarrow> sem_inv (b_lock b))"
    "block_at s n = None \<longrightarrow> sem_inv (b_lock b)" "b_no b = n"
    by (rule cache_acquire_try_spec [OF inv'(1) nh])
  have f: "disk s' = disk s1" "disk s' = disk s" "header s' = header s" "log s' = log s"
    "sblock s' = sblock s" "trace s' = trace s" "swap_bitmap s' = swap_bitmap s"
    using a(3) evicts_fields [OF a(1)] by auto
  note v = view_of_blocks [OF a(5) f(1)]
  have view: "lview s' = lview s"
    using v(1) evicts_view [OF a(1) inv'(3)] a(7) by (simp add: fun_eq_iff)
  have pins: "pinned s' = pinned s" using v(3) evicts_sets [OF a(1)] a(8) by auto
  have sem: "sem_inv (b_lock b)"
    using a(9,10) inv'(2) by (cases "block_at s n") (auto simp: blocks_ok_def block_ok_def)
  have len: "length (b_data b) = BLOCK_SIZE"
    using a(7) inv'(2) by (auto simp: lview_def blocks_ok_def block_ok_def split: option.splits)
  have "blocks_ok s'" "coherent s'"
    using v(4,5) evicts_ok [OF a(1)] inv'(2,3) sem len a(6) by (auto simp: block_ok_def)
  moreover have "log_ok s'" using inv'(4) pins f(3) by (simp add: log_ok_def logged_def)
  moreover have "n \<in> pinned s \<or> lview s n = disk s n"
    using inv'(3) nh by (auto simp: lview_def coherent_def pinned_def held_def split: option.splits)
  ultimately show ?thesis
    using a(2,4,6) view v(2) evicts_sets [OF a(1)] pins f
    by (simp add: cache_acquire_def cache_inv_def clean_def env_def)
qed

lemma cache_acquire_busy: "n \<in> held s \<Longrightarrow> cache_acquire n s = Blocked"
proof -
  assume "n \<in> held s"
  then obtain b where b: "find (\<lambda>b. b_no b = n) (head s) = Some b" "b_acquired b"
    by (auto simp: held_def block_at_def)
  then obtain ys b' zs where e: "List.extract (\<lambda>b. b_no b = n) (head s) = Some (ys, b', zs)"
    by (cases "List.extract (\<lambda>b. b_no b = n) (head s)") (auto simp: extract_None_iff find_Some_iff)
  have "b' = b" using extract_block(3) [OF e] b(1) by simp
  then show ?thesis using e b(2) by (simp add: cache_acquire_def cache_acquire_try_def)
qed

lemma cache_release_ok:
  assumes inv: "cache_inv s" and h: "n \<in> held s" and c: "clean n s"
  shows "\<exists>s'. cache_release n s = Ok s' \<and> cache_inv s' \<and> lview s' = lview s \<and>
    held s' = held s - {n} \<and> (\<forall>m. clean m s' = clean m s) \<and> env s' = env s \<and>
    header s' = header s \<and> log s' = log s"
proof -
  note inv' = cache_invD [OF inv]
  obtain b where b: "block_at s n = Some b" using h by (auto simp: held_def)
  have ok: "block_ok b" using b inv'(2) by (auto simp: blocks_ok_def)
  obtain w sem where p: "post_sem (b_lock b) = Ok (w, sem)" and sem: "sem_inv sem"
    using ok post_sem_ok [of "b_lock b"] by (auto simp: block_ok_def)
  define b' where "b' = b\<lparr>b_acquired := False, b_lock := sem\<rparr>"
  define s' where "s' = upd_block n (\<lambda>b. b\<lparr>b_lock := sem\<rparr>)
    ((upd_block n (\<lambda>b. b\<lparr>b_acquired := False\<rparr>) s)
       \<lparr>activated := activated s @ (case w of None \<Rightarrow> [] | Some t \<Rightarrow> [t])\<rparr>)"
  have r: "cache_release n s = Ok s'" by (simp add: cache_release_def b p Let_def s'_def)
  have ba: "block_at s' = (block_at s)(n \<mapsto> b')"
    by (rule ext) (simp add: s'_def cache_simps b b'_def)
  have f: "disk s' = disk s" "header s' = header s" "log s' = log s" "env s' = env s"
    by (simp_all add: s'_def env_def)
  note v = view_of_blocks [OF ba f(1)]
  have pins: "pinned s' = pinned s" using v(3) b by (auto simp: b'_def pinned_def)
  have lv: "lview s n = b_data b" using b by (simp add: lview_def)
  have "lview s' = lview s" using v(1) lv by (simp add: b'_def fun_eq_iff)
  moreover have "held s' = held s - {n}" using v(2) by (simp add: b'_def)
  moreover have "blocks_ok s'" using v(4) inv'(2) ok sem by (simp add: b'_def block_ok_def)
  moreover have "coherent s'"
    using v(5) inv'(3) c lv b by (auto simp: clean_def b'_def pinned_def)
  moreover have "lru_ok s'" using inv'(1) by (simp add: s'_def lru_ok_def map_b_no_upd)
  moreover have "log_ok s'" using inv'(4) pins f by (simp add: log_ok_def logged_def)
  ultimately show ?thesis using r f pins by (simp add: cache_inv_def clean_def)
qed

lemma put_data_ok:
  assumes inv: "cache_inv s" and h: "n \<in> held s" and l: "length d = BLOCK_SIZE"
  shows "cache_inv (put_data n d s)" "lview (put_data n d s) = (lview s)(n := d)"
    "held (put_data n d s) = held s" "pinned (put_data n d s) = pinned s"
proof -
  let ?s = "put_data n d s"
  note inv' = cache_invD [OF inv]
  obtain b where b: "block_at s n = Some b" "b_acquired b" using h by (auto simp: held_def)
  have ok: "block_ok b" using b inv'(2) by (auto simp: blocks_ok_def)
  have ba: "block_at ?s = (block_at s)(n \<mapsto> b\<lparr>b_data := d\<rparr>)"
    by (rule ext) (simp add: put_data_def cache_simps b)
  have "disk ?s = disk s" by simp
  note v = view_of_blocks [OF ba this]
  show "lview ?s = (lview s)(n := d)" using v(1) by simp
  show "held ?s = held s" using v(2) b h by auto
  show pins: "pinned ?s = pinned s" using v(3) b by (auto simp: pinned_def)
  have "lru_ok ?s" using inv'(1) by (simp add: put_data_def cache_simps)
  moreover have "blocks_ok ?s" using v(4) inv'(2) ok l by (simp add: block_ok_def)
  moreover have "coherent ?s" using v(5) inv'(3) b by simp
  moreover have "log_ok ?s" using inv'(4) pins by (simp add: log_ok_def logged_def)
  ultimately show "cache_inv ?s" by (simp add: cache_inv_def)
qed

lemma get_data_held: "n \<in> held s \<Longrightarrow> get_data n s = lview s n"
  by (auto simp: held_def get_data_def lview_def)

lemma log_ok_card: "log_ok s \<Longrightarrow> card (set (logged s)) = lh_num_blocks (header s)"
  using distinct_card [of "logged s"] by (simp add: log_ok_def) (simp add: logged_def)

definition budget :: "OpContext \<Rightarrow> cache \<Rightarrow> nat" where
  "budget c s = rm c + card (set (logged s))"

lemma cache_sync_ok:
  assumes inv: "cache_inv s" and h: "n \<in> held s" and q: "n \<in> set (logged s) \<or> rm c > 0"
    and room: "budget c s \<le> LOG_MAX_SIZE"
  shows "\<exists>c' s'. cache_sync (Some c) n s = Ok (Some c', s') \<and> cache_inv s' \<and> lview s' = lview s \<and>
    held s' = held s \<and> clean n s' \<and> (\<forall>m. clean m s \<longrightarrow> clean m s') \<and> env s' = env s \<and>
    set (logged s') = insert n (set (logged s)) \<and> budget c' s' = budget c s \<and>
    log s' = (log s)\<lparr>log_used := log_used (log s) - (int (rm c) - int (rm c'))\<rparr>"
proof (cases "n \<in> set (logged s)")
  case True
  then have "n \<in> pinned s" using cache_invD(4) [OF inv] by (simp add: log_ok_def)
  then show ?thesis using True inv by (auto simp: cache_sync_def clean_def)
next
  case False
  note inv' = cache_invD [OF inv]
  obtain b where b: "block_at s n = Some b" "b_acquired b" using h by (auto simp: held_def)
  have ok: "block_ok b" using b inv'(2) by (auto simp: blocks_ok_def)
  let ?h = "header s" let ?i = "lh_num_blocks (header s)"
  have i: "?i < LOG_MAX_SIZE" using room q False log_ok_card [OF inv'(4)] by (simp add: budget_def)
  have len: "length (lh_block_no ?h) = LOG_MAX_SIZE" using inv'(4) by (simp add: log_ok_def)
  define c' where "c' = c\<lparr>rm := rm c - 1\<rparr>"
  define s' where "s' = (upd_block n (\<lambda>b. b\<lparr>b_pinned := True\<rparr>) s)
    \<lparr>log := (log s)\<lparr>log_used := log_used (log s) - 1\<rparr>,
     header := \<lparr>lh_num_blocks = ?i + 1, lh_block_no = (lh_block_no ?h)[?i := n]\<rparr>\<rparr>"
  have r: "cache_sync (Some c) n s = Ok (Some c', s')"
    using False q by (simp add: cache_sync_def Let_def c'_def s'_def upd_block_def)
  have ba: "block_at s' = (block_at s)(n \<mapsto> b\<lparr>b_pinned := True\<rparr>)"
    by (rule ext) (simp add: s'_def cache_simps b)
  have f: "disk s' = disk s" "env s' = env s" by (simp_all add: s'_def env_def)
  note v = view_of_blocks [OF ba f(1)]
  have lg: "logged s' = logged s @ [n]"
    using i len by (simp add: logged_def s'_def take_Suc_conv_app_nth)
  have view: "lview s' = lview s" using v(1) b by (simp add: fun_eq_iff lview_def)
  have "blocks_ok s'" using v(4) inv'(2) ok by (simp add: block_ok_def)
  moreover have "coherent s'" using v(5) inv'(3) by simp
  moreover have "lru_ok s'" using inv'(1) by (simp add: s'_def lru_ok_def map_b_no_upd)
  moreover have "log_ok s'"
    using inv'(4) v(3) lg False i len by (simp add: log_ok_def) (simp add: s'_def)
  moreover have "held s' = held s" using v(2) b h by auto
  moreover have "budget c' s' = budget c s" "int (rm c) - int (rm c') = 1"
    using q False lg by (simp_all add: budget_def c'_def)
  moreover have "log s' = (log s)\<lparr>log_used := log_used (log s) - 1\<rparr>" by (simp add: s'_def)
  ultimately show ?thesis using r view v(3) f lg by (simp add: cache_inv_def clean_def)
qed

section \<open>The block store contract\<close>

text \<open>
  What the layers above rely on of the block cache: a view of the blocks that only writes
  through a held block change, and a log that grows by the blocks synchronised. The budget of
  an operation (its remaining quota plus the size of the log) is constant.
\<close>

locale block_store =
  fixes inv :: "'s \<Rightarrow> bool" and view :: "'s \<Rightarrow> nat \<Rightarrow> u8 list" and holds :: "'s \<Rightarrow> nat set"
    and logset :: "'s \<Rightarrow> nat set" and clean :: "nat \<Rightarrow> 's \<Rightarrow> bool" and env :: "'s \<Rightarrow> 'e"
    and budget :: "OpContext \<Rightarrow> 's \<Rightarrow> nat" and cap :: nat
    and acquire :: "nat \<Rightarrow> 's \<Rightarrow> 's res" and release :: "nat \<Rightarrow> 's \<Rightarrow> 's res"
    and data :: "nat \<Rightarrow> 's \<Rightarrow> u8 list" and "write" :: "nat \<Rightarrow> u8 list \<Rightarrow> 's \<Rightarrow> 's"
    and sync :: "OpContext option \<Rightarrow> nat \<Rightarrow> 's \<Rightarrow> (OpContext option \<times> 's) res"
  assumes acquire_ok: "inv s \<Longrightarrow> n \<notin> holds s \<Longrightarrow>
      \<exists>s'. acquire n s = Ok s' \<and> inv s' \<and> view s' = view s \<and> holds s' = insert n (holds s) \<and>
        clean n s' \<and> (\<forall>m. clean m s' = clean m s) \<and> env s' = env s \<and> logset s' = logset s \<and>
        (\<forall>c. budget c s' = budget c s)"
    and release_ok: "inv s \<Longrightarrow> n \<in> holds s \<Longrightarrow> clean n s \<Longrightarrow>
      \<exists>s'. release n s = Ok s' \<and> inv s' \<and> view s' = view s \<and> holds s' = holds s - {n} \<and>
        (\<forall>m. clean m s' = clean m s) \<and> env s' = env s \<and> logset s' = logset s \<and>
        (\<forall>c. budget c s' = budget c s)"
    and data_ok: "n \<in> holds s \<Longrightarrow> data n s = view s n"
    and write_ok: "inv s \<Longrightarrow> n \<in> holds s \<Longrightarrow> length d = BLOCK_SIZE \<Longrightarrow>
      inv (write n d s) \<and> view (write n d s) = (view s)(n := d) \<and> holds (write n d s) = holds s \<and>
      (\<forall>m. m \<noteq> n \<longrightarrow> clean m (write n d s) = clean m s) \<and> env (write n d s) = env s \<and>
      logset (write n d s) = logset s \<and> (\<forall>c. budget c (write n d s) = budget c s)"
    and sync_ok: "inv s \<Longrightarrow> n \<in> holds s \<Longrightarrow> n \<in> logset s \<or> rm c > 0 \<Longrightarrow> budget c s \<le> cap \<Longrightarrow>
      \<exists>c' s'. sync (Some c) n s = Ok (Some c', s') \<and> inv s' \<and> view s' = view s \<and>
        holds s' = holds s \<and> clean n s' \<and> (\<forall>m. clean m s \<longrightarrow> clean m s') \<and> env s' = env s \<and>
        logset s' = insert n (logset s) \<and> budget c' s' = budget c s"
    and length_view: "inv s \<Longrightarrow> length (view s n) = BLOCK_SIZE"
begin

text \<open>Reading a block leaves everything as it was.\<close>

lemma read_block:
  assumes "inv s" "n \<notin> holds s"
  obtains s1 s2 where "acquire n s = Ok s1" "data n s1 = view s n" "release n s1 = Ok s2"
    "inv s1" "inv s2" "view s1 = view s" "view s2 = view s" "holds s1 = insert n (holds s)"
    "holds s2 = holds s" "env s1 = env s" "env s2 = env s" "logset s1 = logset s"
    "logset s2 = logset s" "\<And>c. budget c s2 = budget c s" "\<And>m. clean m s2 = clean m s"
proof -
  obtain s1 where s1: "acquire n s = Ok s1" "inv s1" "view s1 = view s" "holds s1 = insert n (holds s)"
    "clean n s1" "\<forall>m. clean m s1 = clean m s" "env s1 = env s" "logset s1 = logset s"
    "\<forall>c. budget c s1 = budget c s"
    using acquire_ok [OF assms] by auto
  obtain s2 where "release n s1 = Ok s2" "inv s2" "view s2 = view s1" "holds s2 = holds s1 - {n}"
    "\<forall>m. clean m s2 = clean m s1" "env s2 = env s1" "logset s2 = logset s1"
    "\<forall>c. budget c s2 = budget c s1"
    using release_ok [OF s1(2) _ s1(5)] s1(4) by auto
  then show thesis using that s1 assms(2) data_ok [of n s1] by simp
qed

text \<open>Changing a block: acquire, write, synchronise, release.\<close>

lemma update_block:
  assumes "inv s" "n \<notin> holds s" "n \<in> logset s \<or> rm c > 0" "budget c s \<le> cap" "length d = BLOCK_SIZE"
  obtains s1 c' s2 s3 where "acquire n s = Ok s1" "data n s1 = view s n"
    "sync (Some c) n (write n d s1) = Ok (Some c', s2)" "release n s2 = Ok s3"
    "inv s3" "view s3 = (view s)(n := d)" "holds s3 = holds s" "env s3 = env s"
    "logset s3 = insert n (logset s)" "budget c' s3 = budget c s"
    "\<And>m. m \<noteq> n \<Longrightarrow> clean m s \<Longrightarrow> clean m s3"
proof -
  obtain s1 where s1: "acquire n s = Ok s1" "inv s1" "view s1 = view s" "holds s1 = insert n (holds s)"
    "clean n s1" "\<forall>m. clean m s1 = clean m s" "env s1 = env s" "logset s1 = logset s"
    "\<forall>c. budget c s1 = budget c s"
    using acquire_ok [OF assms(1,2)] by auto
  note w = write_ok [OF s1(2) _ assms(5), of n]
  obtain c' s2 where s2: "sync (Some c) n (write n d s1) = Ok (Some c', s2)" "inv s2"
    "view s2 = view (write n d s1)" "holds s2 = holds (write n d s1)" "clean n s2"
    "\<forall>m. clean m (write n d s1) \<longrightarrow> clean m s2" "env s2 = env (write n d s1)"
    "logset s2 = insert n (logset (write n d s1))" "budget c' s2 = budget c (write n d s1)"
    using sync_ok [of "write n d s1" n c] w s1 assms(3,4) by auto
  obtain s3 where s3: "release n s2 = Ok s3" "inv s3" "view s3 = view s2" "holds s3 = holds s2 - {n}"
    "\<forall>m. clean m s3 = clean m s2" "env s3 = env s2" "logset s3 = logset s2"
    "\<forall>c. budget c s3 = budget c s2"
    using release_ok [OF s2(2) _ s2(5)] s2(4) w s1(4) by auto
  show thesis
    by (rule that [OF s1(1) _ s2(1) s3(1)]) (use s1 s2 s3 w assms(2) data_ok [of n s1] in auto)
qed

end

interpretation bc: block_store cache_inv lview held "\<lambda>s. set (logged s)" clean env budget LOG_MAX_SIZE
  cache_acquire cache_release get_data put_data cache_sync
proof unfold_locales
  fix s n
  assume "cache_inv s" "n \<notin> held s"
  then show "\<exists>s'. cache_acquire n s = Ok s' \<and> cache_inv s' \<and> lview s' = lview s \<and>
      held s' = insert n (held s) \<and> clean n s' \<and> (\<forall>m. clean m s' = clean m s) \<and> env s' = env s \<and>
      set (logged s') = set (logged s) \<and> (\<forall>c. budget c s' = budget c s)"
    using cache_acquire_ok [of s n] by (auto simp: budget_def logged_def)
next
  fix s n
  assume "cache_inv s" "n \<in> held s" "clean n s"
  then show "\<exists>s'. cache_release n s = Ok s' \<and> cache_inv s' \<and> lview s' = lview s \<and>
      held s' = held s - {n} \<and> (\<forall>m. clean m s' = clean m s) \<and> env s' = env s \<and>
      set (logged s') = set (logged s) \<and> (\<forall>c. budget c s' = budget c s)"
    using cache_release_ok [of s n] by (auto simp: budget_def logged_def)
next
  fix s n and d :: "u8 list"
  assume "cache_inv s" "n \<in> held s" "length d = BLOCK_SIZE"
  then show "cache_inv (put_data n d s) \<and> lview (put_data n d s) = (lview s)(n := d) \<and>
      held (put_data n d s) = held s \<and> (\<forall>m. m \<noteq> n \<longrightarrow> clean m (put_data n d s) = clean m s) \<and>
      env (put_data n d s) = env s \<and> set (logged (put_data n d s)) = set (logged s) \<and>
      (\<forall>c. budget c (put_data n d s) = budget c s)"
    using put_data_ok [of s n d] by (simp add: budget_def logged_def env_def clean_def)
next
  fix s n c
  assume "cache_inv s" "n \<in> held s" "n \<in> set (logged s) \<or> 0 < rm c" "budget c s \<le> LOG_MAX_SIZE"
  then show "\<exists>c' s'. cache_sync (Some c) n s = Ok (Some c', s') \<and> cache_inv s' \<and> lview s' = lview s \<and>
      held s' = held s \<and> clean n s' \<and> (\<forall>m. clean m s \<longrightarrow> clean m s') \<and> env s' = env s \<and>
      set (logged s') = insert n (set (logged s)) \<and> budget c' s' = budget c s"
    using cache_sync_ok [of s n c] by blast
next
  fix s n
  assume "cache_inv s"
  then show "length (lview s n) = BLOCK_SIZE"
    by (auto simp: cache_inv_def blocks_ok_def block_ok_def lview_def split: option.split)
qed (rule get_data_held)

section \<open>Effect of a sequence of block operations\<close>

text \<open>
  \<open>stores s c B V s' c'\<close>: from \<open>s\<close> with context \<open>c\<close>, an operation has logged the blocks \<open>B\<close> and
  left the logical content \<open>V\<close>; the blocks held, and that they are clean, are as before.
\<close>

definition stores ::
  "cache \<Rightarrow> OpContext \<Rightarrow> nat set \<Rightarrow> (nat \<Rightarrow> u8 list) \<Rightarrow> cache \<Rightarrow> OpContext \<Rightarrow> bool" where
  "stores s c B V s' c' \<longleftrightarrow> cache_inv s' \<and> held s' = held s \<and> env s' = env s \<and>
     (\<forall>m\<in>held s. clean m s \<longrightarrow> clean m s') \<and> lview s' = V \<and>
     set (logged s') = set (logged s) \<union> B \<and> budget c' s' = budget c s"

lemma stores_refl: "cache_inv s \<Longrightarrow> stores s c {} (lview s) s c"
  by (simp add: stores_def)

lemma stores_trans:
  "stores s c B V s1 c1 \<Longrightarrow> stores s1 c1 B' V' s2 c2 \<Longrightarrow> stores s c (B \<union> B') V' s2 c2"
  by (auto simp: stores_def)

lemma stores_env: "stores s c B V s' c' \<Longrightarrow> sblock s' = sblock s \<and> disk s' = disk s \<and> trace s' = trace s"
  by (simp add: stores_def env_def)

lemma storesD:
  assumes "stores s c B V s' c'"
  shows "cache_inv s'" "held s' = held s" "lview s' = V" "set (logged s') = set (logged s) \<union> B"
    "budget c' s' = budget c s" "sblock s' = sblock s" "\<And>m. m \<in> held s \<Longrightarrow> clean m s \<Longrightarrow> clean m s'"
  using assms by (simp_all add: stores_def env_def)

text \<open>The quota pays for the blocks that were not yet in the log.\<close>

lemma stores_rm:
  assumes "stores s c B V s' c'" "finite B"
  shows "rm c \<le> rm c' + card (B - set (logged s))"
proof -
  have "card (set (logged s) \<union> B) \<le> card (set (logged s)) + card (B - set (logged s))"
    by (metis Un_Diff_cancel card_Un_le)
  moreover have "rm c' + card (set (logged s) \<union> B) = rm c + card (set (logged s))"
    using storesD(5) [OF assms(1)] by (simp add: budget_def storesD(4) [OF assms(1)])
  ultimately show ?thesis by linarith
qed

lemma stores_rm_pos:
  assumes "stores s c B V s' c'" "finite B" "card B < rm c" shows "rm c' > 0"
  using stores_rm [OF assms(1,2)] assms(3) card_mono [OF assms(2), of "B - set (logged s)"]
  by fastforce

lemma read_stores:
  assumes "cache_inv s" "n \<notin> held s"
  obtains s1 s2 where "cache_acquire n s = Ok s1" "get_data n s1 = lview s n" "sblock s1 = sblock s"
    "cache_release n s1 = Ok s2" "\<And>c. stores s c {} (lview s) s2 c"
proof (rule bc.read_block [OF assms])
  fix s1 s2
  assume r: "cache_acquire n s = Ok s1" "get_data n s1 = lview s n" "cache_release n s1 = Ok s2"
    "cache_inv s2" "lview s2 = lview s" "held s2 = held s" "env s1 = env s" "env s2 = env s"
    "set (logged s2) = set (logged s)" "\<And>c. budget c s2 = budget c s" "\<And>m. clean m s2 = clean m s"
  have "sblock s1 = sblock s" using r(7) by (simp add: env_def)
  then show thesis using that r by (simp add: stores_def)
qed

lemma update_stores:
  assumes "cache_inv s" "n \<notin> held s" "n \<in> set (logged s) \<or> rm c > 0" "budget c s \<le> LOG_MAX_SIZE"
    and "length d = BLOCK_SIZE"
  obtains s1 c' s2 s3 where "cache_acquire n s = Ok s1" "get_data n s1 = lview s n"
    "sblock s1 = sblock s" "cache_sync (Some c) n (put_data n d s1) = Ok (Some c', s2)"
    "cache_release n s2 = Ok s3" "stores s c {n} ((lview s)(n := d)) s3 c'"
proof -
  obtain s0 where s0: "cache_acquire n s = Ok s0" "sblock s0 = sblock s"
    using bc.acquire_ok [OF assms(1,2)] by (auto simp: env_def)
  show thesis
  proof (rule bc.update_block [OF assms])
    fix s1 c' s2 s3
    assume u: "cache_acquire n s = Ok s1" "get_data n s1 = lview s n"
      "cache_sync (Some c) n (put_data n d s1) = Ok (Some c', s2)" "cache_release n s2 = Ok s3"
      "cache_inv s3" "lview s3 = (lview s)(n := d)" "held s3 = held s" "env s3 = env s"
      "set (logged s3) = insert n (set (logged s))" "budget c' s3 = budget c s"
      "\<And>m. m \<noteq> n \<Longrightarrow> clean m s \<Longrightarrow> clean m s3"
    have "stores s c {n} ((lview s)(n := d)) s3 c'"
      using u assms(2) unfolding stores_def by (metis Un_insert_right sup_bot.right_neutral)
    then show thesis using that u(1-4) s0 by simp
  qed
qed

text \<open>A block held while another sequence of operations runs, then released or changed.\<close>

lemma release_around:
  assumes "stores s1 c B V s2 c2" "i \<in> held s1" "clean i s1" "held s1 = insert i (held s)" "i \<notin> held s"
    and "\<And>m. clean m s1 = clean m s" "env s1 = env s" "set (logged s1) = set (logged s)"
    and "\<And>c. budget c s1 = budget c s"
  obtains s3 where "cache_release i s2 = Ok s3" "stores s c B V s3 c2"
proof -
  note d = storesD [OF assms(1)]
  have h: "i \<in> held s2" "clean i s2" using assms(2,3) d(2,7) by auto
  obtain s3 where s3: "cache_release i s2 = Ok s3" "cache_inv s3" "lview s3 = lview s2"
    "held s3 = held s2 - {i}" "\<forall>m. clean m s3 = clean m s2" "env s3 = env s2"
    "set (logged s3) = set (logged s2)" "\<forall>c. budget c s3 = budget c s2"
    using bc.release_ok [OF d(1) h] by auto
  have "stores s c B V s3 c2"
    using assms(1,4-) s3(2-) by (auto simp: stores_def)
  then show thesis using that s3(1) by blast
qed

lemma update_around:
  assumes "stores s1 c B V s2 c2" "i \<in> held s1" "held s1 = insert i (held s)" "i \<notin> held s"
    and "\<And>m. clean m s1 = clean m s" "env s1 = env s" "set (logged s1) = set (logged s)"
    and "\<And>c. budget c s1 = budget c s"
    and "length d = BLOCK_SIZE" "rm c2 > 0" "budget c s \<le> LOG_MAX_SIZE"
  obtains c' s3 s4 where "cache_sync (Some c2) i (put_data i d s2) = Ok (Some c', s3)"
    "cache_release i s3 = Ok s4" "stores s c (insert i B) (V(i := d)) s4 c'"
proof -
  note e = storesD [OF assms(1)]
  have h: "i \<in> held s2" using assms(2) e(2) by simp
  note w = bc.write_ok [OF e(1) h assms(9)]
  obtain c' s3 where s3: "cache_sync (Some c2) i (put_data i d s2) = Ok (Some c', s3)" "cache_inv s3"
    "lview s3 = lview (put_data i d s2)" "held s3 = held (put_data i d s2)" "clean i s3"
    "\<forall>m. clean m (put_data i d s2) \<longrightarrow> clean m s3" "env s3 = env (put_data i d s2)"
    "set (logged s3) = insert i (set (logged (put_data i d s2)))"
    "budget c' s3 = budget c2 (put_data i d s2)"
    using bc.sync_ok [of "put_data i d s2" i c2] w h assms(8,10,11) e(5) by auto
  obtain s4 where s4: "cache_release i s3 = Ok s4" "cache_inv s4" "lview s4 = lview s3"
    "held s4 = held s3 - {i}" "\<forall>m. clean m s4 = clean m s3" "env s4 = env s3"
    "set (logged s4) = set (logged s3)" "\<forall>c. budget c s4 = budget c s3"
    using bc.release_ok [OF s3(2) _ s3(5)] s3(4) w h by auto
  have cl: "clean m s4" if m: "m \<in> held s" "clean m s" for m
  proof -
    have "m \<noteq> i" "clean m s2" using m assms(3-5) e(7) by auto
    then show ?thesis using w s3(6) s4(5) by blast
  qed
  have "stores s c (insert i B) (V(i := d)) s4 c'"
    unfolding stores_def
  proof (intro conjI)
    show "held s4 = held s" using s4(4) s3(4) w e(2) assms(3,4) by simp
    show "env s4 = env s" using s4(6) s3(7) w assms(1,6) by (simp add: stores_def)
    show "lview s4 = V(i := d)" using s4(3) s3(3) w e(3) by simp
    show "set (logged s4) = set (logged s) \<union> insert i B" using s4(7) s3(8) w e(4) assms(7) by simp
    show "budget c' s4 = budget c s" using s4(8) s3(9) w e(5) assms(8) by simp
  qed (use s4(2) cl in auto)
  then show thesis using that s3(1) s4(1) by blast
qed

section \<open>Allocation\<close>

definition bitmap_block :: "cache \<Rightarrow> nat \<Rightarrow> nat" where
  "bitmap_block s n = n div BIT_PER_BLOCK + bitmap_start s"

definition block_used :: "cache \<Rightarrow> nat \<Rightarrow> bool" where
  "block_used s n = bitmap_get (cells_of (lview s (bitmap_block s n))) (n mod BIT_PER_BLOCK)"

lemma bitmap_bits_view: "cache_inv s \<Longrightarrow> bitmap_bits (cells_of (lview s n)) = BIT_PER_BLOCK"
  using bc.length_view [of s n] by (simp add: bitmap_bits_def)

lemma length_bitmap [simp]:
  "length (bitmap_set cs i) = length cs" "length (bitmap_clear cs i) = length cs"
  by (simp_all add: bitmap_set_def bitmap_clear_def split: prod.split)

lemma stores_same_map:
  assumes "stores s c B (lview s) s' c'"
  shows "block_used s' = block_used s" "alloc_limit s' = alloc_limit s" "bitmap_block s' = bitmap_block s"
    "bitmap_start s' = bitmap_start s"
  using storesD [OF assms]
  by (simp_all add: fun_eq_iff block_used_def bitmap_block_def bitmap_start_def alloc_limit_def)

definition mark_used :: "cache \<Rightarrow> nat \<Rightarrow> u8 list" where
  "mark_used s n = bytes_of (bitmap_set (cells_of (lview s (bitmap_block s n))) (n mod BIT_PER_BLOCK))"

definition mark_free :: "cache \<Rightarrow> nat \<Rightarrow> u8 list" where
  "mark_free s n = bytes_of (bitmap_clear (cells_of (lview s (bitmap_block s n))) (n mod BIT_PER_BLOCK))"

lemma memset_block: "length d = BLOCK_SIZE \<Longrightarrow> memset d 0 BLOCK_SIZE = replicate BLOCK_SIZE 0"
  by (simp add: memset_range range_put_def)

lemma take_block_ok:
  assumes inv: "cache_inv s" and nh: "n \<notin> held s" "bitmap_block s n \<notin> held s"
    and ne: "n \<noteq> bitmap_block s n" and q: "rm c \<ge> 2" "budget c s \<le> LOG_MAX_SIZE"
  obtains s1 c' s' where "cache_acquire (bitmap_block s n) s = Ok s1"
    "get_data (bitmap_block s n) s1 = lview s (bitmap_block s n)" "sblock s1 = sblock s"
    "take_block (Some c) (bitmap_block s n) (n div BIT_PER_BLOCK * BIT_PER_BLOCK) (n mod BIT_PER_BLOCK) s1 =
       Ok (n, Some c', s')"
    "stores s c {bitmap_block s n, n}
       ((lview s)(bitmap_block s n := mark_used s n, n := replicate BLOCK_SIZE 0)) s' c'"
proof -
  let ?b = "bitmap_block s n"
  have l: "length (mark_used s n) = BLOCK_SIZE"
    using bc.length_view [OF inv] by (simp add: mark_used_def)
  have pos: "?b \<in> set (logged s) \<or> rm c > 0" using q by simp
  obtain s1 c1 s2 s3 where a: "cache_acquire ?b s = Ok s1" "get_data ?b s1 = lview s ?b"
    "sblock s1 = sblock s" "cache_sync (Some c) ?b (put_data ?b (mark_used s n) s1) = Ok (Some c1, s2)"
    "cache_release ?b s2 = Ok s3" and st1: "stores s c {?b} ((lview s)(?b := mark_used s n)) s3 c1"
    by (rule update_stores [OF inv nh(2) pos q(2) l])
  note d1 = storesD [OF st1]
  let ?z = "replicate BLOCK_SIZE (0 :: u8)"
  have pos3: "n \<in> set (logged s3) \<or> rm c1 > 0" using stores_rm_pos [OF st1] q(1) by simp
  have q3: "budget c1 s3 \<le> LOG_MAX_SIZE" using d1(5) q(2) by simp
  have nh3: "n \<notin> held s3" using nh(1) d1(2) by simp
  obtain s4 c' s5 s6 where b: "cache_acquire n s3 = Ok s4" "get_data n s4 = lview s3 n"
    "cache_sync (Some c1) n (put_data n ?z s4) = Ok (Some c', s5)" "cache_release n s5 = Ok s6"
    and st2: "stores s3 c1 {n} ((lview s3)(n := ?z)) s6 c'"
    by (rule update_stores [OF d1(1) nh3 pos3 q3, of ?z]) simp_all
  have mz: "memset (lview s3 n) 0 BLOCK_SIZE = ?z" by (rule memset_block) (rule bc.length_view [OF d1(1)])
  show thesis
  proof (rule that [OF a(1-3)])
    have "n div BIT_PER_BLOCK * BIT_PER_BLOCK + n mod BIT_PER_BLOCK = n" by simp
    then show "take_block (Some c) ?b (n div BIT_PER_BLOCK * BIT_PER_BLOCK) (n mod BIT_PER_BLOCK) s1 =
        Ok (n, Some c', s6)"
      using a b mz by (simp add: take_block_def Let_def mark_used_def)
    show "stores s c {?b, n} ((lview s)(?b := mark_used s n, n := ?z)) s6 c'"
      using stores_trans [OF st1 st2] d1(3) by (simp add: insert_commute)
  qed
qed

lemma find_first:
  assumes "i < m" "P i" "\<forall>j<i. \<not> P j"
  shows "find P [0..<m] = Some i"
proof -
  have "[0..<m] = [0..<i] @ [i..<m]" using assms(1) by (metis le_add_diff_inverse less_imp_le_nat upt_add_eq_append zero_le)
  moreover have "find P ([0..<i] @ xs) = find P xs" for xs
    using assms(3) by (induction i arbitrary: xs) simp_all
  moreover have "[i..<m] = i # [Suc i..<m]" using assms(1) by (rule upt_conv_Cons)
  ultimately show ?thesis using assms(2) by simp
qed

lemma alloc_scan_ok:
  assumes "cache_inv s" "n \<notin> held s" "\<forall>m\<le>n. bitmap_block s m \<notin> held s" "n \<noteq> bitmap_block s n"
    and "rm c \<ge> 2" "budget c s \<le> LOG_MAX_SIZE"
    and "n < alloc_limit s" "\<not> block_used s n" "\<forall>m<n. block_used s m"
    and "k \<le> n div BIT_PER_BLOCK" "n div BIT_PER_BLOCK < hi"
  shows "\<exists>c' s'. alloc_scan [k..<hi] (Some c) s = Ok (n, Some c', s') \<and>
    stores s c {bitmap_block s n, n}
      ((lview s)(bitmap_block s n := mark_used s n, n := replicate BLOCK_SIZE 0)) s' c'"
  using assms
proof (induction "n div BIT_PER_BLOCK - k" arbitrary: k s)
  case 0
  let ?b = "bitmap_block s n"
  have k: "k = n div BIT_PER_BLOCK" using 0 by simp
  obtain s1 c' s' where t: "cache_acquire ?b s = Ok s1" "get_data ?b s1 = lview s ?b" "sblock s1 = sblock s"
    "take_block (Some c) ?b (n div BIT_PER_BLOCK * BIT_PER_BLOCK) (n mod BIT_PER_BLOCK) s1 = Ok (n, Some c', s')"
    and st: "stores s c {?b, n} ((lview s)(?b := mark_used s n, n := replicate BLOCK_SIZE 0)) s' c'"
    by (rule take_block_ok [of s n c]) (use 0 in auto)
  have lim: "alloc_limit s1 = alloc_limit s" by (simp add: alloc_limit_def t(3))
  have "find (\<lambda>i. \<not> bitmap_get (cells_of (lview s ?b)) i)
      [0..<min BIT_PER_BLOCK (alloc_limit s - n div BIT_PER_BLOCK * BIT_PER_BLOCK)] = Some (n mod BIT_PER_BLOCK)"
  proof (rule find_first)
    have m: "n mod BIT_PER_BLOCK < BIT_PER_BLOCK" "n = n div BIT_PER_BLOCK * BIT_PER_BLOCK + n mod BIT_PER_BLOCK" by simp_all
    then show "n mod BIT_PER_BLOCK < min BIT_PER_BLOCK (alloc_limit s - n div BIT_PER_BLOCK * BIT_PER_BLOCK)"
      using "0.prems"(7) by linarith
    show "\<not> bitmap_get (cells_of (lview s ?b)) (n mod BIT_PER_BLOCK)"
      using "0.prems"(8) by (simp add: block_used_def)
    show "\<forall>j<n mod BIT_PER_BLOCK. \<not> \<not> bitmap_get (cells_of (lview s ?b)) j"
    proof (intro allI impI)
      fix j assume j: "j < n mod BIT_PER_BLOCK"
      let ?m = "n div BIT_PER_BLOCK * BIT_PER_BLOCK + j"
      have "?m < n" "j < BIT_PER_BLOCK"
        using j m by linarith+
      moreover have "?m div BIT_PER_BLOCK = n div BIT_PER_BLOCK" "?m mod BIT_PER_BLOCK = j"
        using \<open>j < BIT_PER_BLOCK\<close> by simp_all
      ultimately show "\<not> \<not> bitmap_get (cells_of (lview s ?b)) j"
        using "0.prems"(9) by (auto simp: block_used_def bitmap_block_def)
    qed
  qed
  moreover have "[k..<hi] = k # [Suc k..<hi]" using 0 k by (simp add: upt_conv_Cons)
  ultimately have "alloc_scan [k..<hi] (Some c) s = Ok (n, Some c', s')"
    using t lim by (simp add: k Let_def bitmap_block_def)
  then show ?case using st by blast
next
  case (Suc d)
  let ?b = "k + bitmap_start s"
  have kn: "k < n div BIT_PER_BLOCK" using Suc by simp
  then have "Suc k * BIT_PER_BLOCK \<le> n" by (simp add: Suc_le_eq flip: less_eq_div_iff_mult_less_eq)
  then have full: "k * BIT_PER_BLOCK + j < n" if "j < BIT_PER_BLOCK" for j
    using that by simp
  have bb: "bitmap_block s (k * BIT_PER_BLOCK) = ?b" by (simp add: bitmap_block_def)
  have "k * BIT_PER_BLOCK \<le> n" using full [of 0] by simp
  then have nh: "?b \<notin> held s" using Suc.prems(3) bb by metis
  obtain s1 s2 where r: "cache_acquire ?b s = Ok s1" "get_data ?b s1 = lview s ?b" "sblock s1 = sblock s"
    "cache_release ?b s1 = Ok s2" and st: "\<And>c. stores s c {} (lview s) s2 c"
    by (rule read_stores [OF Suc.prems(1) nh]) blast
  note d = storesD [OF st [of c]] and same = stores_same_map [OF st [of c]]
  have lim: "alloc_limit s1 = alloc_limit s" by (simp add: alloc_limit_def r(3))
  have none: "find (\<lambda>i. \<not> bitmap_get (cells_of (lview s ?b)) i) [0..<min BIT_PER_BLOCK m] = None" for m
  proof -
    have "bitmap_get (cells_of (lview s ?b)) j" if "j < BIT_PER_BLOCK" for j
      using Suc.prems(9) full [OF that] that
      by (auto simp: block_used_def bitmap_block_def dest!: spec [of _ "k * BIT_PER_BLOCK + j"])
    then show ?thesis by (auto simp: find_None_iff)
  qed
  have "\<exists>c' s'. alloc_scan [Suc k..<hi] (Some c) s2 = Ok (n, Some c', s') \<and>
    stores s2 c {bitmap_block s2 n, n}
      ((lview s2)(bitmap_block s2 n := mark_used s2 n, n := replicate BLOCK_SIZE 0)) s' c'"
    by (rule Suc.hyps(1)) (use Suc.prems Suc.hyps(2) kn d same in auto)
  then obtain c' s' where f: "alloc_scan [Suc k..<hi] (Some c) s2 = Ok (n, Some c', s')"
    "stores s2 c {bitmap_block s n, n}
      ((lview s)(bitmap_block s n := mark_used s n, n := replicate BLOCK_SIZE 0)) s' c'"
    using d same by (auto simp: mark_used_def)
  have "[k..<hi] = k # [Suc k..<hi]" using Suc.prems(11) kn by (simp add: upt_conv_Cons)
  then have "alloc_scan [k..<hi] (Some c) s = Ok (n, Some c', s')"
    using r f(1) none lim by (simp add: Let_def)
  then show ?case using stores_trans [OF st f(2)] by simp
qed

lemma limit_blocks: "n < m \<Longrightarrow> n div BIT_PER_BLOCK < (m + BIT_PER_BLOCK - 1) div BIT_PER_BLOCK"
proof -
  assume "n < m"
  then have "n div BIT_PER_BLOCK < (n + BIT_PER_BLOCK) div BIT_PER_BLOCK" by simp
  also have "\<dots> \<le> (m + BIT_PER_BLOCK - 1) div BIT_PER_BLOCK" using \<open>n < m\<close> by (intro div_le_mono) simp
  finally show ?thesis .
qed

lemma cache_alloc_ok:
  assumes "cache_inv s" "n \<notin> held s" "\<forall>m\<le>n. bitmap_block s m \<notin> held s" "n \<noteq> bitmap_block s n"
    and "rm c \<ge> 2" "budget c s \<le> LOG_MAX_SIZE"
    and "n < alloc_limit s" "\<not> block_used s n" "\<forall>m<n. block_used s m"
  obtains c' s' where "cache_alloc (Some c) s = Ok (n, Some c', s')"
    "stores s c {bitmap_block s n, n}
      ((lview s)(bitmap_block s n := mark_used s n, n := replicate BLOCK_SIZE 0)) s' c'"
  using alloc_scan_ok [OF assms _ limit_blocks [OF assms(7)], of 0] by (auto simp: cache_alloc_def)

lemma alloc_scan_full:
  "cache_inv s \<Longrightarrow> \<forall>k\<in>set ks. k + bitmap_start s \<notin> held s \<Longrightarrow> \<forall>m<alloc_limit s. block_used s m \<Longrightarrow>
   alloc_scan ks ctx s = Panic"
proof (induction ks arbitrary: s)
  case (Cons k ks)
  let ?b = "k + bitmap_start s"
  have nh: "?b \<notin> held s" using Cons.prems(2) by simp
  obtain s1 s2 where r: "cache_acquire ?b s = Ok s1" "get_data ?b s1 = lview s ?b" "sblock s1 = sblock s"
    "cache_release ?b s1 = Ok s2" and st: "\<And>c. stores s c {} (lview s) s2 c"
    by (rule read_stores [OF Cons.prems(1) nh]) blast
  note d = storesD [OF st] and same = stores_same_map [OF st]
  have lim: "alloc_limit s1 = alloc_limit s" by (simp add: alloc_limit_def r(3))
  have "bitmap_get (cells_of (lview s ?b)) j"
    if "j < min BIT_PER_BLOCK (alloc_limit s - k * BIT_PER_BLOCK)" for j
    using Cons.prems(3) that
    by (auto simp: block_used_def bitmap_block_def dest!: spec [of _ "k * BIT_PER_BLOCK + j"])
  then have "find (\<lambda>i. \<not> bitmap_get (cells_of (lview s ?b)) i)
      [0..<min BIT_PER_BLOCK (alloc_limit s - k * BIT_PER_BLOCK)] = None"
    by (auto simp: find_None_iff)
  moreover have "alloc_scan ks ctx s2 = Panic" using Cons.prems d same by (intro Cons.IH) auto
  ultimately show ?case using r lim by (simp add: Let_def)
qed simp

lemma cache_free_ok:
  assumes inv: "cache_inv s" and nh: "bitmap_block s n \<notin> held s" and u: "block_used s n"
    and q: "rm c > 0" "budget c s \<le> LOG_MAX_SIZE"
  obtains c' s' where "cache_free (Some c) n s = Ok (Some c', s')"
    "stores s c {bitmap_block s n} ((lview s)(bitmap_block s n := mark_free s n)) s' c'"
proof -
  let ?b = "bitmap_block s n"
  have l: "length (mark_free s n) = BLOCK_SIZE"
    using bc.length_view [OF inv] by (simp add: mark_free_def)
  have pos: "?b \<in> set (logged s) \<or> rm c > 0" using q by simp
  obtain s1 c' s2 s3 where a: "cache_acquire ?b s = Ok s1" "get_data ?b s1 = lview s ?b"
    "sblock s1 = sblock s" "cache_sync (Some c) ?b (put_data ?b (mark_free s n) s1) = Ok (Some c', s2)"
    "cache_release ?b s2 = Ok s3" and st: "stores s c {?b} ((lview s)(?b := mark_free s n)) s3 c'"
    by (rule update_stores [OF inv nh pos q(2) l])
  have "cache_free (Some c) n s = Ok (Some c', s3)"
    using a u by (simp add: cache_free_def Let_def bitmap_block_def block_used_def mark_free_def)
  then show thesis using that st by blast
qed

lemma cache_free_unused:
  assumes inv: "cache_inv s" and nh: "bitmap_block s n \<notin> held s" and u: "\<not> block_used s n"
  shows "cache_free ctx n s = Panic"
proof -
  let ?b = "bitmap_block s n"
  obtain s1 s2 where "cache_acquire ?b s = Ok s1" "get_data ?b s1 = lview s ?b"
    by (rule read_stores [OF inv nh])
  then show ?thesis using u by (simp add: cache_free_def Let_def bitmap_block_def block_used_def)
qed

text \<open>Effect of a changed bitmap block on the allocation state of every block.\<close>

lemma block_used_update:
  assumes inv: "cache_inv s" and sb: "sblock s' = sblock s"
    and V: "lview s' (bitmap_block s m) = (if bitmap_block s m = bitmap_block s n
      then bytes_of (f (cells_of (lview s (bitmap_block s n))) (n mod BIT_PER_BLOCK))
      else lview s (bitmap_block s m))"
    and f: "f = bitmap_set \<and> (r \<longleftrightarrow> m = n \<or> block_used s m) \<or>
      f = bitmap_clear \<and> (r \<longleftrightarrow> m \<noteq> n \<and> block_used s m)"
  shows "block_used s' m \<longleftrightarrow> r"
proof -
  have bb: "bitmap_block s' m = bitmap_block s m" by (simp add: bitmap_block_def bitmap_start_def sb)
  have bits: "i mod BIT_PER_BLOCK < bitmap_bits (cells_of (lview s b))" for i b
    using bitmap_bits_view [OF inv] by simp
  have mn: "m = n \<longleftrightarrow> bitmap_block s m = bitmap_block s n \<and> m mod BIT_PER_BLOCK = n mod BIT_PER_BLOCK"
    by (metis add_right_cancel bitmap_block_def div_mult_mod_eq)
  show ?thesis
    using f mn by (auto simp: block_used_def bb V bm.get_set [OF bits bits] bm.get_clear [OF bits bits])
qed

section \<open>Swap space\<close>

definition swap_used :: "cache \<Rightarrow> nat \<Rightarrow> bool" where
  "swap_used s n = bitmap_get (cells_of (swap_bitmap s)) (n - SWAP_START)"

lemma fold_shift:
  "fold (\<lambda>i bitmap. f bitmap (i - SWAP_START)) is bitmap = fold (\<lambda>i bitmap. f bitmap i) (map (\<lambda>i. i - SWAP_START) is) bitmap"
  by (simp add: fold_map comp_def)

text \<open>\<open>find_8_from\<close> keeps in \<open>cnt\<close> the length of the run of free blocks that ends just before
  the next block, and in \<open>ret\<close> its first block.\<close>

lemma find_8_from_ok:
  assumes "\<forall>j. i - cnt \<le> j \<and> j < i \<longrightarrow> \<not> bitmap_get bm (j - SWAP_START)" "cnt \<le> i - SWAP_START" "cnt < 8"
    and "cnt > 0 \<longrightarrow> ret = i - cnt" "SWAP_START \<le> i"
    and "find_8_from [i..<SWAP_END] cnt ret bm = Ok (r, bm')"
  shows "SWAP_START \<le> r \<and> r + 8 \<le> SWAP_END \<and>
    (\<forall>j. r \<le> j \<and> j < r + 8 \<longrightarrow> \<not> bitmap_get bm (j - SWAP_START)) \<and>
    bm' = fold (\<lambda>j bitmap. bitmap_set bitmap (j - SWAP_START)) [r..<r + 8] bm"
  using assms
proof (induction "SWAP_END - i" arbitrary: i cnt ret)
  case (Suc d)
  have i: "i < SWAP_END" "[i..<SWAP_END] = i # [Suc i..<SWAP_END]" using Suc.hyps(2) by (simp_all add: upt_conv_Cons)
  show ?case
  proof (cases "bitmap_get bm (i - SWAP_START)")
    case True
    show ?thesis by (rule Suc.hyps(1) [of "Suc i" 0 ret]) (use Suc.hyps(2) Suc.prems True i in auto)
  next
    case False
    define ret' where "ret' = (if cnt = 0 then i else ret)"
    have r': "ret' = Suc i - Suc cnt" "SWAP_START \<le> ret'" "ret' + Suc cnt = Suc i"
      using Suc.prems by (auto simp: ret'_def)
    have free: "\<forall>j. Suc i - Suc cnt \<le> j \<and> j < Suc i \<longrightarrow> \<not> bitmap_get bm (j - SWAP_START)"
      using Suc.prems(1) False by (metis diff_Suc_Suc less_Suc_eq)
    show ?thesis
    proof (cases "Suc cnt = 8")
      case True
      then have "r = ret'" "bm' = fold (\<lambda>j bitmap. bitmap_set bitmap (j - SWAP_START)) [ret'..<ret' + 8] bm"
        using Suc.prems(6) i False by (auto simp: ret'_def)
      then show ?thesis using True r' i free by auto
    next
      case nf: False
      show ?thesis
        by (rule Suc.hyps(1) [of "Suc i" "Suc cnt" ret'])
          (use Suc.hyps(2) Suc.prems nf False i free r' in \<open>auto simp: ret'_def\<close>)
    qed
  qed
qed simp

lemma find_8_from_total:
  assumes "i \<le> r" "r + 8 \<le> SWAP_END" "\<forall>j. r \<le> j \<and> j < r + 8 \<longrightarrow> \<not> bitmap_get bm (j - SWAP_START)" "cnt < 8"
  shows "find_8_from [i..<SWAP_END] cnt ret bm \<noteq> Panic \<and> find_8_from [i..<SWAP_END] cnt ret bm \<noteq> Blocked"
proof -
  have run: "\<exists>x. find_8_from [i..<SWAP_END] cnt ret bm = Ok x"
    if "r \<le> i" "i - r \<le> cnt" "cnt < 8" "i < r + 8" for i cnt ret
    using that
  proof (induction "r + 8 - i" arbitrary: i cnt ret)
    case (Suc d)
    have e: "[i..<SWAP_END] = i # [Suc i..<SWAP_END]"
      using Suc.prems assms(2) by (simp add: upt_conv_Cons)
    have free: "\<not> bitmap_get bm (i - SWAP_START)" using assms(3) Suc.prems by simp
    show ?case
    proof (cases "Suc cnt = 8")
      case False
      have "\<exists>x. find_8_from [Suc i..<SWAP_END] (Suc cnt) (if cnt = 0 then i else ret) bm = Ok x"
        by (rule Suc.hyps(1)) (use False Suc.prems Suc.hyps(2) in auto)
      then show ?thesis using e free False by simp
    qed (use e free in simp)
  qed simp
  have "\<exists>x. find_8_from [i..<SWAP_END] cnt ret bm = Ok x"
    using assms(1,4)
  proof (induction "r - i" arbitrary: i cnt ret)
    case 0
    then show ?case using run [of i cnt ret] by simp
  next
    case (Suc d)
    have "[i..<SWAP_END] = i # [Suc i..<SWAP_END]"
      using Suc assms(2) by (simp add: upt_conv_Cons)
    then show ?case using Suc by (auto simp: Let_def)
  qed
  then show ?thesis by auto
qed

section \<open>Properties\<close>

text \<open>A cache as \<open>init_bcache\<close> leaves it on a cleanly unmounted disk.\<close>

definition fresh_cache :: "SuperBlock \<Rightarrow> (nat \<Rightarrow> u8 list) \<Rightarrow> cache" where
  "fresh_cache sb d =
     \<lparr>sblock = sb, disk = d, trace = [], head = [],
      header = \<lparr>lh_num_blocks = 0, lh_block_no = replicate LOG_MAX_SIZE 0\<rparr>, cache_cnt = 0,
      swap_bitmap = replicate 32 0,
      log = \<lparr>max_size = int (min (unat (sb_num_log_blocks sb - 1)) LOG_MAX_SIZE), outstanding = 0,
             log_used = 0, committing = False, log_sem = init_sem 0, log_commit_sem = init_sem 0\<rparr>,
      activated = []\<rparr>"

lemma fresh_cache_facts [simp]:
  "sblock (fresh_cache sb d) = sb" "disk (fresh_cache sb d) = d" "head (fresh_cache sb d) = []"
  "block_at (fresh_cache sb d) n = None" "lview (fresh_cache sb d) = d" "held (fresh_cache sb d) = {}"
  "pinned (fresh_cache sb d) = {}" "logged (fresh_cache sb d) = []" "trace (fresh_cache sb d) = []"
  "header (fresh_cache sb d) = \<lparr>lh_num_blocks = 0, lh_block_no = replicate LOG_MAX_SIZE 0\<rparr>"
  by (simp_all add: fresh_cache_def block_at_def lview_def held_def pinned_def logged_def fun_eq_iff)

lemma fresh_cache_inv: "\<forall>n. length (d n) = BLOCK_SIZE \<Longrightarrow> cache_inv (fresh_cache sb d)"
  by (simp add: cache_inv_def lru_ok_def blocks_ok_def coherent_def log_ok_def)
    (simp add: fresh_cache_def)

abbreviation demo_sb :: SuperBlock where
  "demo_sb \<equiv> \<lparr>sb_num_blocks = 1000, sb_num_data_blocks = 700, sb_num_inodes = 64, sb_num_log_blocks = 64,
    sb_log_start = 2, sb_inode_start = 66, sb_bitmap_start = 74\<rparr>"

abbreviation demo_disk :: "nat \<Rightarrow> u8 list" where
  "demo_disk \<equiv> (\<lambda>n. if n = 74 then bytes_of (3 # replicate 63 0) else replicate 512 0)"

lemma demo_inv: "cache_inv (fresh_cache demo_sb demo_disk)"
  by (rule fresh_cache_inv) simp

lemma demo_budget: "budget c (fresh_cache demo_sb demo_disk) = rm c"
  by (simp add: budget_def)

text \<open>
  C14: acquiring a block that no thread holds succeeds, whatever has to be evicted for it: the
  caller gets the current content of the block, no block changes its logical content, every
  block held before stays cached, and the block is now held.
\<close>

theorem cache_acquire_transparent:
  assumes "cache_inv s" and "n \<notin> held s"
  shows "\<exists>s'. cache_acquire n s = Ok s' \<and> cache_inv s' \<and> get_data n s' = lview s n \<and>
    lview s' = lview s \<and> held s' = insert n (held s) \<and> disk s' = disk s \<and> logged s' = logged s"
proof -
  obtain s' where s': "cache_acquire n s = Ok s'" "cache_inv s'" "lview s' = lview s"
    "held s' = insert n (held s)" "env s' = env s" "header s' = header s"
    using cache_acquire_ok [OF assms] by blast
  then show ?thesis using get_data_held [of n s'] by (simp add: env_def logged_def)
qed

theorem cache_acquire_transparent_witness:
  "cache_inv (fresh_cache demo_sb demo_disk) \<and>
   (\<exists>s'. cache_acquire 5 (fresh_cache demo_sb demo_disk) = Ok s' \<and> get_data 5 s' = replicate 512 0 \<and>
      held s' = {5})"
  using cache_acquire_transparent [OF demo_inv, of 5] demo_inv by auto

text \<open>
  C15: \<open>cache_alloc\<close> returns the lowest free block below the swap area, zero-filled and marked
  used; no other block's allocation state changes and, outside the bitmap block, no other
  block's content. It logs exactly the bitmap block and the new block.
\<close>

theorem cache_alloc_correct:
  assumes "cache_inv s" and "held s = {}" and "rm c \<ge> 2" and "budget c s \<le> LOG_MAX_SIZE"
    and "n < alloc_limit s" and "\<not> block_used s n" and "\<forall>m<n. block_used s m"
    and "\<forall>m<alloc_limit s. n \<noteq> bitmap_block s m"
  shows "\<exists>c' s'. cache_alloc (Some c) s = Ok (n, Some c', s') \<and> cache_inv s' \<and> held s' = {} \<and>
    lview s' n = replicate BLOCK_SIZE 0 \<and>
    (\<forall>m<alloc_limit s. block_used s' m \<longleftrightarrow> m = n \<or> block_used s m) \<and>
    (\<forall>m. m \<noteq> n \<and> m \<noteq> bitmap_block s n \<longrightarrow> lview s' m = lview s m) \<and>
    set (logged s') = set (logged s) \<union> {bitmap_block s n, n}"
proof -
  have ne: "n \<noteq> bitmap_block s n" using assms(5,8) by blast
  obtain c' s' where a: "cache_alloc (Some c) s = Ok (n, Some c', s')"
    and st: "stores s c {bitmap_block s n, n}
      ((lview s)(bitmap_block s n := mark_used s n, n := replicate BLOCK_SIZE 0)) s' c'"
    by (rule cache_alloc_ok [of s n c]) (use assms ne in auto)
  note d = storesD [OF st]
  have "block_used s' m \<longleftrightarrow> m = n \<or> block_used s m" if m: "m < alloc_limit s" for m
    by (rule block_used_update [OF assms(1) d(6), of m n bitmap_set])
      (use assms(8) m d(3) in \<open>auto simp: mark_used_def\<close>)
  then show ?thesis using a d assms(2) ne by auto
qed

lemma demo_alloc_facts:
  "alloc_limit (fresh_cache demo_sb demo_disk) = 800"
  "m < BIT_PER_BLOCK \<Longrightarrow> bitmap_block (fresh_cache demo_sb demo_disk) m = 74"
  "m < 64 \<Longrightarrow> block_used (fresh_cache demo_sb demo_disk) m \<longleftrightarrow> m < 2"
proof -
  show "alloc_limit (fresh_cache demo_sb demo_disk) = 800" by (simp add: alloc_limit_def)
  show bb: "bitmap_block (fresh_cache demo_sb demo_disk) m = 74" if "m < BIT_PER_BLOCK" for m
    using that by (simp add: bitmap_block_def bitmap_start_def)
  have "bit (3 :: u64) m \<longleftrightarrow> m < 2" if "m < 64"
  proof -
    have three: "(3 :: u64) = mask 2" by (simp add: mask_eq_exp_minus_1)
    show ?thesis unfolding three bit_mask_iff using that by simp
  qed
  then show "block_used (fresh_cache demo_sb demo_disk) m \<longleftrightarrow> m < 2" if "m < 64"
    using that bb [of m] by (simp add: block_used_def bitmap_get_bit)
qed

theorem cache_alloc_correct_witness:
  "\<exists>c' s'. cache_alloc (Some \<lparr>rm = 10, ts = 0\<rparr>) (fresh_cache demo_sb demo_disk) = Ok (2, Some c', s') \<and>
     lview s' 2 = replicate 512 0 \<and> block_used s' 2"
  using cache_alloc_correct [OF demo_inv, of "\<lparr>rm = 10, ts = 0\<rparr>" 2]
  by (auto simp: demo_alloc_facts demo_budget)

text \<open>
  C16: \<open>cache_free\<close> clears the bit of a used block and of no other block, and panics on a block
  that is already free.
\<close>

theorem cache_free_correct:
  assumes "cache_inv s" and "bitmap_block s n \<notin> held s" and "rm c > 0" and "budget c s \<le> LOG_MAX_SIZE"
  shows "if block_used s n
    then \<exists>c' s'. cache_free (Some c) n s = Ok (Some c', s') \<and> cache_inv s' \<and> held s' = held s \<and>
      (\<forall>m. block_used s' m \<longleftrightarrow> m \<noteq> n \<and> block_used s m) \<and>
      (\<forall>m. m \<noteq> bitmap_block s n \<longrightarrow> lview s' m = lview s m)
    else cache_free (Some c) n s = Panic"
proof (cases "block_used s n")
  case True
  then obtain c' s' where f: "cache_free (Some c) n s = Ok (Some c', s')"
    and st: "stores s c {bitmap_block s n} ((lview s)(bitmap_block s n := mark_free s n)) s' c'"
    by (rule cache_free_ok [OF assms(1,2) _ assms(3,4)])
  note d = storesD [OF st]
  have "block_used s' m \<longleftrightarrow> m \<noteq> n \<and> block_used s m" for m
    by (rule block_used_update [OF assms(1) d(6), of m n bitmap_clear])
      (use d(3) in \<open>auto simp: mark_free_def\<close>)
  then show ?thesis using True f d by auto
qed (simp add: cache_free_unused [OF assms(1,2)])

theorem cache_free_correct_witness:
  "(\<exists>c' s'. cache_free (Some \<lparr>rm = 10, ts = 0\<rparr>) 1 (fresh_cache demo_sb demo_disk) = Ok (Some c', s') \<and>
      \<not> block_used s' 1 \<and> block_used s' 0) \<and>
   cache_free (Some \<lparr>rm = 10, ts = 0\<rparr>) 2 (fresh_cache demo_sb demo_disk) = Panic"
  using cache_free_correct [OF demo_inv, of 1 "\<lparr>rm = 10, ts = 0\<rparr>"]
    cache_free_correct [OF demo_inv, of 2 "\<lparr>rm = 10, ts = 0\<rparr>"]
  by (auto simp: demo_alloc_facts demo_budget)

text \<open>
  \<open>find_and_set_8_blocks\<close> returns eight consecutive free blocks of the swap area whenever
  there are such blocks, marks exactly those used, and \<open>release_8_blocks\<close> gives them back.
\<close>

lemma swap_blocks_correct:
  assumes "length (swap_bitmap s) = 32"
    and "SWAP_START \<le> r0" "r0 + 8 \<le> SWAP_END" "\<forall>j. r0 \<le> j \<and> j < r0 + 8 \<longrightarrow> \<not> swap_used s j"
  shows "\<exists>r s'. find_and_set_8_blocks s = Ok (r, s') \<and> SWAP_START \<le> r \<and> r + 8 \<le> SWAP_END \<and>
    (\<forall>j. r \<le> j \<and> j < r + 8 \<longrightarrow> \<not> swap_used s j) \<and>
    (\<forall>j\<in>{SWAP_START..<SWAP_END}. swap_used s' j \<longleftrightarrow> swap_used s j \<or> r \<le> j \<and> j < r + 8) \<and>
    (\<forall>j\<in>{SWAP_START..<SWAP_END}. swap_used (release_8_blocks r s') j \<longleftrightarrow> swap_used s j)"
proof -
  note [simp del] = upt_rec_numeral
  let ?bm = "cells_of (swap_bitmap s)"
  have bits: "bitmap_bits ?bm = 256" using assms(1) by (simp add: bitmap_bits_def)
  obtain r bm' where f: "find_8_from [SWAP_START..<SWAP_END] 0 0 ?bm = Ok (r, bm')"
    using find_8_from_total [of SWAP_START r0 ?bm 0 0] assms(2-4)
    by (cases "find_8_from [SWAP_START..<SWAP_END] 0 0 ?bm") (auto simp: swap_used_def)
  have r: "SWAP_START \<le> r \<and> r + 8 \<le> SWAP_END \<and>
      (\<forall>j. r \<le> j \<and> j < r + 8 \<longrightarrow> \<not> bitmap_get ?bm (j - SWAP_START)) \<and>
      bm' = fold (\<lambda>j bitmap. bitmap_set bitmap (j - SWAP_START)) [r..<r + 8] ?bm"
    by (rule find_8_from_ok [OF _ _ _ _ _ f]) auto
  define I where "I = map (\<lambda>i. i - SWAP_START) [r..<r + 8]"
  have I: "set I = (\<lambda>i. i - SWAP_START) ` {r..<r + 8}" by (simp add: I_def)
  have small: "\<forall>i\<in>set I. i < 256" using r by (auto simp: I)
  have memI: "j - SWAP_START \<in> set I \<longleftrightarrow> r \<le> j \<and> j < r + 8" if "SWAP_START \<le> j" for j
    using r that by (auto simp: I image_iff intro: bexI [of _ j])
  have bm': "bm' = fold (\<lambda>i bitmap. bitmap_set bitmap i) I ?bm" using r by (simp add: fold_shift I_def)
  have bits': "bitmap_bits bm' = 256" using bm.fold_set_size [of I ?bm] bits by (simp add: bm')
  define s' where "s' = s\<lparr>swap_bitmap := bytes_of bm'\<rparr>"
  have used': "swap_used s' j \<longleftrightarrow> swap_used s j \<or> r \<le> j \<and> j < r + 8" if "j \<in> {SWAP_START..<SWAP_END}" for j
  proof -
    have "j - SWAP_START < 256" using that unfolding atLeastLessThan_iff by linarith
    then show ?thesis
      using bm.fold_set_get [of I ?bm "j - SWAP_START"] small bits memI [of j] that
      by (auto simp: swap_used_def s'_def bm')
  qed
  have "swap_used (release_8_blocks r s') j \<longleftrightarrow> swap_used s j" if j: "j \<in> {SWAP_START..<SWAP_END}" for j
  proof -
    have "j - SWAP_START < 256" using j unfolding atLeastLessThan_iff by linarith
    then have "swap_used (release_8_blocks r s') j \<longleftrightarrow> j - SWAP_START \<notin> set I \<and> bitmap_get bm' (j - SWAP_START)"
      using bm.fold_clear_get [of I bm' "j - SWAP_START"] small bits' j
      by (simp add: swap_used_def release_8_blocks_def s'_def fold_shift I_def)
    then show ?thesis using used' [OF j] memI [of j] r j by (auto simp: swap_used_def s'_def)
  qed
  moreover have "find_and_set_8_blocks s = Ok (r, s')" by (simp add: find_and_set_8_blocks_def f s'_def)
  ultimately show ?thesis using r used' by (auto simp: swap_used_def)
qed

end
