(* ===== verification/Cache_Log.thy ===== *)
theory Cache_Log
  imports Block_Cache
begin

text \<open>
  Crash safety of the write-ahead log of \<open>fs/cache.c\<close> and the admission of atomic operations.

  A crash stops the machine between two device writes, so the disk it leaves is the disk at
  the start of the commit with a prefix of the commit's writes applied. The recovered view of
  a disk is what \<open>recover_from_log\<close> will make of it: the committed log entries over the home
  blocks. Every single write of a commit or of a recovery either leaves the recovered view as it is or,
  for the one write of the log header that commits, changes it to the new contents.
\<close>

section \<open>Writes and the recovered view\<close>

definition apply_writes :: "(nat \<times> u8 list) list \<Rightarrow> (nat \<Rightarrow> u8 list) \<Rightarrow> nat \<Rightarrow> u8 list" where
  "apply_writes ws d = fold (\<lambda>(n, x) d. d(n := x)) ws d"

text \<open>
  The log takes \<open>num_log_blocks\<close> blocks from \<open>log_start\<close> on, the first of which is its header. In the image that
  \<open>mkfs\<close> builds these are the 63 blocks from 2 to 64; the inodes follow at 65.
\<close>

abbreviation log_blocks :: "cache \<Rightarrow> nat" where
  "log_blocks s \<equiv> unat (sb_num_log_blocks (sblock s))"

definition log_area :: "nat \<Rightarrow> nat \<Rightarrow> nat set" where
  "log_area ls nl = {ls..ls + (nl - 1)}"

definition disk_header :: "nat \<Rightarrow> (nat \<Rightarrow> u8 list) \<Rightarrow> LogHeader" where
  "disk_header ls d = dec_header (d ls)"

definition committed :: "nat \<Rightarrow> (nat \<Rightarrow> u8 list) \<Rightarrow> nat list" where
  "committed ls d = take (lh_num_blocks (disk_header ls d)) (lh_block_no (disk_header ls d))"

definition rview :: "nat \<Rightarrow> (nat \<Rightarrow> u8 list) \<Rightarrow> nat \<Rightarrow> u8 list" where
  "rview ls d n =
     (case find (\<lambda>i. committed ls d ! i = n) [0..<length (committed ls d)] of
        Some i \<Rightarrow> d (ls + 1 + i) | None \<Rightarrow> d n)"

text \<open>A log header as \<open>cache_sync\<close> builds it: distinct home blocks, none of them in the log, and room in the log for each.\<close>

definition log_disk_ok :: "nat \<Rightarrow> nat \<Rightarrow> (nat \<Rightarrow> u8 list) \<Rightarrow> bool" where
  "log_disk_ok ls nl d \<longleftrightarrow> lh_num_blocks (disk_header ls d) \<le> LOG_MAX_SIZE \<and> lh_num_blocks (disk_header ls d) \<le> nl - 1 \<and>
     distinct (committed ls d) \<and> set (committed ls d) \<inter> log_area ls nl = {}"

lemma apply_writes_simps [simp]:
  "apply_writes [] d = d"
  "apply_writes ((n, x) # ws) d = apply_writes ws (d(n := x))"
  "apply_writes (ws @ vs) d = apply_writes vs (apply_writes ws d)"
  by (simp_all add: apply_writes_def)

lemma length_dec_header [simp]: "length (lh_block_no (dec_header bs)) = LOG_MAX_SIZE"
  by (simp add: dec_header_def)

lemma length_committed:
  "length (committed ls d) = min (lh_num_blocks (disk_header ls d)) LOG_MAX_SIZE"
  by (simp add: committed_def disk_header_def)

lemma rview_none: "n \<notin> set (committed ls d) \<Longrightarrow> rview ls d n = d n"
proof -
  assume "n \<notin> set (committed ls d)"
  then have "find (\<lambda>i. committed ls d ! i = n) [0..<length (committed ls d)] = None"
    by (auto simp: find_None_iff)
  then show ?thesis by (simp add: rview_def)
qed

lemma rview_committed:
  assumes "distinct (committed ls d)" "i < length (committed ls d)"
  shows "rview ls d (committed ls d ! i) = d (ls + 1 + i)"
proof -
  have "find (\<lambda>j. committed ls d ! j = committed ls d ! i) [0..<length (committed ls d)] = Some i"
    using assms by (intro find_first) (auto simp: nth_eq_iff_index_eq)
  then show ?thesis by (simp add: rview_def)
qed

text \<open>Two disks with the same log have the same recovered view, up to the home blocks not logged.\<close>

lemma rview_cong:
  assumes h: "d' ls = d ls" and l: "\<forall>i<length (committed ls d). d' (ls + 1 + i) = d (ls + 1 + i)"
    and n: "n \<in> set (committed ls d) \<or> d' n = d n" and dis: "distinct (committed ls d)"
  shows "rview ls d' n = rview ls d n"
proof -
  have c: "committed ls d' = committed ls d" using h by (simp add: committed_def disk_header_def)
  show ?thesis
  proof (cases "n \<in> set (committed ls d)")
    case True
    then obtain i where "i < length (committed ls d)" "n = committed ls d ! i" by (metis in_set_conv_nth)
    then show ?thesis using rview_committed [of ls d i] rview_committed [of ls d' i] dis c l by simp
  next
    case False
    then show ?thesis using n c by (simp add: rview_none)
  qed
qed

lemma log_area_mem: "i < nl - 1 \<Longrightarrow> ls + 1 + i \<in> log_area ls nl" "ls \<in> log_area ls nl"
  by (simp_all add: log_area_def)

text \<open>The four kinds of device write of the log.\<close>

lemma rview_log_write:
  assumes "committed ls d = []" "i < nl - 1" "n \<notin> log_area ls nl"
  shows "rview ls (d(ls + 1 + i := x)) n = rview ls d n" "committed ls (d(ls + 1 + i := x)) = []"
proof -
  have c: "committed ls (d(ls + 1 + i := x)) = []"
    using assms(1) by (simp add: committed_def disk_header_def)
  show "committed ls (d(ls + 1 + i := x)) = []" by (rule c)
  show "rview ls (d(ls + 1 + i := x)) n = rview ls d n"
    using assms log_area_mem(1) [OF assms(2), of ls] c by (auto simp: rview_none)
qed

lemma rview_home_write:
  assumes "log_disk_ok ls nl d" "m \<in> set (committed ls d)"
  shows "rview ls (d(m := x)) n = rview ls d n" "committed ls (d(m := x)) = committed ls d"
proof -
  have m: "m \<notin> log_area ls nl" using assms by (auto simp: log_disk_ok_def)
  have "ls + 1 + i \<noteq> m" if "i < length (committed ls d)" for i
    using log_area_mem(1) [of i nl ls] m that length_committed [of ls d] assms(1) by (auto simp: log_disk_ok_def)
  moreover have "ls \<noteq> m" using m log_area_mem(2) by auto
  ultimately show "rview ls (d(m := x)) n = rview ls d n" "committed ls (d(m := x)) = committed ls d"
    using assms rview_cong [of "d(m := x)" ls d n]
    by (auto simp: log_disk_ok_def committed_def disk_header_def)
qed

lemma rview_clear_write:
  assumes "lh_num_blocks (dec_header x) = 0" "n \<notin> log_area ls nl" "distinct (committed ls d)"
    and "\<forall>i<length (committed ls d). d (committed ls d ! i) = d (ls + 1 + i)"
  shows "rview ls (d(ls := x)) n = rview ls d n" "committed ls (d(ls := x)) = []"
proof -
  have c: "committed ls (d(ls := x)) = []" using assms(1) by (simp add: committed_def disk_header_def)
  show "committed ls (d(ls := x)) = []" by (rule c)
  have "rview ls d n = d n"
    using assms(3,4) by (cases "n \<in> set (committed ls d)")
      (auto simp: in_set_conv_nth rview_committed rview_none)
  then show "rview ls (d(ls := x)) n = rview ls d n"
    using c assms(2) log_area_mem(2) [of ls nl] by (auto simp: rview_none)
qed

section \<open>Recovery\<close>

definition copy_writes :: "nat \<Rightarrow> (nat \<Rightarrow> u8 list) \<Rightarrow> nat \<Rightarrow> (nat \<times> u8 list) list" where
  "copy_writes ls d k = map (\<lambda>i. (committed ls d ! i, d (ls + 1 + i))) [0..<k]"

definition clear_header :: "LogHeader \<Rightarrow> u8 list" where
  "clear_header h = enc_header (h\<lparr>lh_num_blocks := 0\<rparr>)"

text \<open>The disk after the first \<open>k\<close> home blocks have been copied from the log.\<close>

lemma copy_writes_all:
  assumes ok: "log_disk_ok ls nl d"
  shows "k \<le> length (committed ls d) \<Longrightarrow>
    (\<forall>i<k. apply_writes (copy_writes ls d k) d (committed ls d ! i) = d (ls + 1 + i)) \<and>
    (\<forall>n\<in>log_area ls nl. apply_writes (copy_writes ls d k) d n = d n) \<and>
    (\<forall>n. rview ls (apply_writes (copy_writes ls d k) d) n = rview ls d n) \<and>
    committed ls (apply_writes (copy_writes ls d k) d) = committed ls d"
proof (induction k)
  case (Suc k)
  let ?c = "committed ls d" let ?d = "apply_writes (copy_writes ls d k) d"
  have k: "k \<le> length ?c" "k < length ?c" using Suc.prems by simp_all
  note IH = Suc.IH [OF k(1)]
  have s: "apply_writes (copy_writes ls d (Suc k)) d = ?d(?c ! k := d (ls + 1 + k))"
    by (simp add: copy_writes_def)
  have ck: "?c ! k \<in> set ?c" using k(2) by simp
  then have nl: "?c ! k \<notin> log_area ls nl" using ok by (auto simp: log_disk_ok_def)
  have ok': "log_disk_ok ls nl ?d"
    using ok IH log_area_mem(2) [of ls nl] by (simp add: log_disk_ok_def disk_header_def)
  have ne: "?c ! i \<noteq> ?c ! k" if "i < k" for i
    using that k ok by (simp add: log_disk_ok_def nth_eq_iff_index_eq)
  have ck': "?c ! k \<in> set (committed ls ?d)" using ck IH by simp
  have "(\<forall>i<Suc k. (?d(?c ! k := d (ls + 1 + k))) (?c ! i) = d (ls + 1 + i))"
    using IH ne by (auto simp: less_Suc_eq)
  moreover have "\<forall>n\<in>log_area ls nl. (?d(?c ! k := d (ls + 1 + k))) n = d n" using IH nl by auto
  moreover have "rview ls (?d(?c ! k := d (ls + 1 + k))) n = rview ls d n" for n
    using rview_home_write(1) [OF ok' ck'] IH by simp
  moreover have "committed ls (?d(?c ! k := d (ls + 1 + k))) = ?c"
    using rview_home_write(2) [OF ok' ck'] IH by simp
  ultimately show ?case unfolding s by (simp del: fun_upd_apply)
qed (simp add: copy_writes_def)

lemma copy_writes_disk:
  assumes "log_disk_ok ls nl d" "k \<le> length (committed ls d)"
  shows "i < k \<Longrightarrow> apply_writes (copy_writes ls d k) d (committed ls d ! i) = d (ls + 1 + i)"
    "n \<in> log_area ls nl \<Longrightarrow> apply_writes (copy_writes ls d k) d n = d n"
    "rview ls (apply_writes (copy_writes ls d k) d) n = rview ls d n"
    "committed ls (apply_writes (copy_writes ls d k) d) = committed ls d"
  using copy_writes_all [OF assms] by blast+

lemma recover_loop:
  assumes "k \<le> length (committed ls d)" "log_disk_ok ls nl d"
    and "ls = log_start s" "d = disk s" "header s = disk_header ls d"
  shows "mfold recover_step [0..<k] s = Ok (s\<lparr>disk := apply_writes (copy_writes ls d k) d,
    trace := trace s @ copy_writes ls d k\<rparr>)"
  using assms(1)
proof (induction k)
  case 0
  then show ?case using assms(4) by (simp add: copy_writes_def)
next
  case (Suc k)
  have k: "k \<le> length (committed ls d)" "k < nl - 1" "k < LOG_MAX_SIZE" "k < lh_num_blocks (disk_header ls d)"
    using Suc.prems length_committed [of ls d] assms(2) by (simp_all add: log_disk_ok_def)
  have "header_block k (s\<lparr>disk := x, trace := t\<rparr>) = Ok (committed ls d ! k)" for x t
    using k assms(5) by (simp add: header_block_def committed_def disk_header_def)
  moreover have "apply_writes (copy_writes ls d k) d (ls + 1 + k) = d (ls + 1 + k)"
    using copy_writes_disk(2) [OF assms(2) k(1) log_area_mem(1) [OF k(2)]] .
  ultimately show ?case
    using Suc.IH [OF k(1)] assms(3)
    by (simp add: mfold_append recover_step_def Let_def dev_write_def copy_writes_def del: fun_upd_apply)
qed

text \<open>
  Recovery succeeds on every disk with a sound log, makes the home blocks what the recovered
  view said, and leaves an empty log.
\<close>

lemma recover_from_log_ok:
  assumes ok: "log_disk_ok (log_start s) (log_blocks s) (disk s)"
  defines "ls \<equiv> log_start s" and "nl \<equiv> log_blocks s" and "d \<equiv> disk s"
  shows "\<exists>s'. recover_from_log s = Ok s' \<and> head s' = head s \<and> cache_cnt s' = cache_cnt s \<and>
    sblock s' = sblock s \<and> log s' = log s \<and> swap_bitmap s' = swap_bitmap s \<and> activated s' = activated s \<and>
    header s' = (disk_header ls d)\<lparr>lh_num_blocks := 0\<rparr> \<and>
    trace s' = trace s @ copy_writes ls d (length (committed ls d)) @ [(ls, clear_header (disk_header ls d))] \<and>
    disk s' = apply_writes (copy_writes ls d (length (committed ls d)) @ [(ls, clear_header (disk_header ls d))]) d"
proof -
  have n: "lh_num_blocks (disk_header ls d) = length (committed ls d)"
    using ok length_committed [of ls d] by (simp add: log_disk_ok_def ls_def d_def)
  have "mfold recover_step [0..<length (committed ls d)] (read_header s) =
      Ok ((read_header s)\<lparr>disk := apply_writes (copy_writes ls d (length (committed ls d))) d,
        trace := trace s @ copy_writes ls d (length (committed ls d))\<rparr>)"
    using recover_loop [of "length (committed ls d)" ls d nl "read_header s"] ok
    by (simp add: read_header_def disk_header_def ls_def nl_def d_def)
  then show ?thesis
    by (simp add: recover_from_log_def Let_def n [symmetric])
      (simp add: read_header_def write_header_def dev_write_def ls_def d_def disk_header_def clear_header_def)
qed

section \<open>Checkpoint\<close>

text \<open>Acquiring a cached block does not evict anything.\<close>

lemma acquire_cached:
  assumes "lru_ok s" "block_at s n = Some b0" "sem_inv (b_lock b0)" "n \<notin> held s"
  obtains s1 b where "cache_acquire n s = Ok s1" "block_at s1 = (block_at s)(n \<mapsto> b)"
    "b_acquired b" "b_data b = b_data b0" "b_pinned b = b_pinned b0" "sem_inv (b_lock b)" "lru_ok s1"
    "\<exists>bs cnt. s1 = s\<lparr>head := bs, cache_cnt := cnt\<rparr>"
proof (rule cache_acquire_try_spec [OF assms(1,4), of False])
  fix s1 b s'
  assume a: "cache_acquire_try False n s = Some s'" "\<exists>bs cnt. s' = s\<lparr>head := bs, cache_cnt := cnt\<rparr>" "lru_ok s'"
    "block_at s' = (block_at s1)(n \<mapsto> b)" "b_acquired b" "b_data b = lview s n"
    "b_pinned b \<longleftrightarrow> n \<in> pinned s"
    "\<forall>b0. block_at s n = Some b0 \<longrightarrow> block_at s1 = block_at s \<and> (sem_inv (b_lock b0) \<longrightarrow> sem_inv (b_lock b))"
  show thesis
    by (rule that [of s' b]) (use a assms in \<open>auto simp: cache_acquire_def lview_def pinned_def\<close>)
qed

lemma release_cached:
  assumes "lru_ok s" "block_at s n = Some b" "sem_inv (b_lock b)"
  obtains s' b' where "cache_release n s = Ok s'" "block_at s' = (block_at s)(n \<mapsto> b')"
    "\<not> b_acquired b'" "b_data b' = b_data b" "b_pinned b' = b_pinned b" "sem_inv (b_lock b')" "lru_ok s'"
    "\<exists>bs a. s' = s\<lparr>head := bs, activated := a\<rparr>"
proof -
  obtain w sem where p: "post_sem (b_lock b) = Ok (w, sem)" and sem: "sem_inv sem"
    using post_sem_ok [OF assms(3)] by blast
  define a where "a = activated s @ (case w of None \<Rightarrow> [] | Some t \<Rightarrow> [t])"
  define s' where "s' = upd_block n (\<lambda>b. b\<lparr>b_lock := sem\<rparr>)
    ((upd_block n (\<lambda>b. b\<lparr>b_acquired := False\<rparr>) s)\<lparr>activated := a\<rparr>)"
  show thesis
  proof (rule that [of s' "b\<lparr>b_acquired := False, b_lock := sem\<rparr>"])
    show "cache_release n s = Ok s'" by (simp add: cache_release_def assms(2) p Let_def s'_def a_def)
    show "block_at s' = (block_at s)(n \<mapsto> b\<lparr>b_acquired := False, b_lock := sem\<rparr>)"
      by (rule ext) (simp add: s'_def cache_simps assms(2))
    show "lru_ok s'" using assms(1) by (simp add: s'_def lru_ok_def map_b_no_upd)
    show "\<exists>bs a. s' = s\<lparr>head := bs, activated := a\<rparr>"
      by (rule exI [of _ "head s'"], rule exI [of _ a]) (simp add: s'_def upd_block_def)
  qed (simp_all add: sem)
qed

text \<open>
  Both loops of a checkpoint go over blocks that are cached; the data and the holders of all
  blocks stay as they are.
\<close>

definition ckpt :: "cache \<Rightarrow> cache \<Rightarrow> bool" where
  "ckpt s s' \<longleftrightarrow> lru_ok s' \<and> (\<forall>n b. block_at s' n = Some b \<longrightarrow> block_ok b) \<and>
     (\<forall>n. map_option b_data (block_at s' n) = map_option b_data (block_at s n)) \<and>
     held s' = held s \<and> header s' = header s \<and> log s' = log s \<and> sblock s' = sblock s \<and>
     swap_bitmap s' = swap_bitmap s"

lemma ckpt_cached:
  assumes "ckpt s s1" "block_at s n = Some b"
  obtains b1 where "block_at s1 n = Some b1" "b_data b1 = b_data b" "block_ok b1"
  using assms unfolding ckpt_def by (metis (no_types) map_option_eq_Some)

lemma ckpt_step:
  assumes ck: "ckpt s s1" and b: "block_at s n = Some b" and nh: "n \<notin> held s"
    and b3: "block_at s3 = (block_at s1)(n \<mapsto> b3)" "b_data b3 = b_data b" "sem_inv (b_lock b3)" "lru_ok s3"
    and f: "header s3 = header s1" "log s3 = log s1" "sblock s3 = sblock s1" "swap_bitmap s3 = swap_bitmap s1"
  obtains s4 where "cache_release n s3 = Ok s4" "ckpt s s4"
    "pinned s4 = (if b_pinned b3 then insert n (pinned s1) else pinned s1 - {n})"
    "disk s4 = disk s3" "trace s4 = trace s3"
proof -
  have bn: "block_at s3 n = Some b3" using b3(1) by simp
  obtain s4 b4 where s4: "cache_release n s3 = Ok s4" "block_at s4 = (block_at s3)(n \<mapsto> b4)"
    "\<not> b_acquired b4" "b_data b4 = b_data b3" "b_pinned b4 = b_pinned b3" "sem_inv (b_lock b4)" "lru_ok s4"
    "\<exists>bs a. s4 = s3\<lparr>head := bs, activated := a\<rparr>"
    by (rule release_cached [OF b3(4) bn b3(3)])
  have len: "length (b_data b) = BLOCK_SIZE"
    using ckpt_cached [OF ck b] by (metis block_ok_def)
  have ba: "block_at s4 = (block_at s1)(n \<mapsto> b4)" using s4(2) b3(1) by simp
  have h: "held s4 = held s1 - {n}" "pinned s4 = (if b_pinned b3 then insert n (pinned s1) else pinned s1 - {n})"
    using ba s4(3,5) by (auto simp: held_def pinned_def)
  have "map_option b_data (block_at s4 m) = map_option b_data (block_at s m)" for m
    using ck b b3(2) s4(4) by (simp add: ba ckpt_def)
  moreover have "block_ok c" if "block_at s4 m = Some c" for m c
    using that ck s4(4,6) b3(2) len by (auto simp: ba ckpt_def block_ok_def split: if_splits)
  ultimately have "ckpt s s4"
    using ck h(1) nh s4(7,8) f by (auto simp: ckpt_def)
  moreover have "disk s4 = disk s3" "trace s4 = trace s3" using s4(8) by auto
  ultimately show thesis using that s4(1) h(2) by blast
qed

definition log_writes :: "cache \<Rightarrow> nat \<Rightarrow> (nat \<times> u8 list) list" where
  "log_writes s k = map (\<lambda>i. (log_start s + 1 + i, lview s (logged s ! i))) [0..<k]"

definition home_writes :: "cache \<Rightarrow> nat \<Rightarrow> (nat \<times> u8 list) list" where
  "home_writes s k = map (\<lambda>i. (logged s ! i, lview s (logged s ! i))) [0..<k]"

text \<open>When a commit starts, no logged block is held, no block of the log area is cached and the log has room for the logged blocks.\<close>

definition commit_ready :: "cache \<Rightarrow> bool" where
  "commit_ready s \<longleftrightarrow> cache_inv s \<and> set (logged s) \<inter> held s = {} \<and>
     (\<forall>n\<in>log_area (log_start s) (log_blocks s). block_at s n = None) \<and> length (logged s) \<le> log_blocks s - 1"

lemma commit_ready_block:
  assumes "commit_ready s" "i < length (logged s)"
  obtains b where "block_at s (logged s ! i) = Some b" "b_data b = lview s (logged s ! i)"
    "length (b_data b) = BLOCK_SIZE" "logged s ! i \<notin> held s" "logged s ! i \<notin> log_area (log_start s) (log_blocks s)"
    "header_block i s = Ok (logged s ! i)" "i < log_blocks s - 1"
proof -
  have inv: "cache_inv s" using assms by (simp add: commit_ready_def)
  have m: "logged s ! i \<in> set (logged s)" using assms(2) by simp
  then have "logged s ! i \<in> pinned s" using cache_invD(4) [OF inv] by (simp add: log_ok_def)
  then obtain b where b: "block_at s (logged s ! i) = Some b" by (auto simp: pinned_def)
  then have l: "b_data b = lview s (logged s ! i)" by (simp add: lview_def)
  have i: "i < lh_num_blocks (header s)" "i < length (lh_block_no (header s))" "i < LOG_MAX_SIZE"
    using assms(2) cache_invD(4) [OF inv] by (simp_all add: logged_def log_ok_def)
  show thesis
  proof (rule that [OF b l])
    show "length (b_data b) = BLOCK_SIZE" using l bc.length_view [OF inv] by simp
    show "logged s ! i \<notin> held s" using m assms(1) by (auto simp: commit_ready_def)
    show "logged s ! i \<notin> log_area (log_start s) (log_blocks s)" using b assms(1) by (auto simp: commit_ready_def)
    show "header_block i s = Ok (logged s ! i)" using i by (simp add: header_block_def logged_def)
    show "i < log_blocks s - 1" using assms by (simp add: commit_ready_def)
  qed
qed

lemma log_one_block_step:
  assumes cr: "commit_ready s" and i: "i < length (logged s)" and ck: "ckpt s s1"
  obtains s' where "log_one_block i s1 = Ok s'" "ckpt s s'"
    "disk s' = (disk s1)(log_start s + 1 + i := lview s (logged s ! i))"
    "trace s' = trace s1 @ [(log_start s + 1 + i, lview s (logged s ! i))]"
    "pinned s' = pinned s1 - {logged s ! i}"
proof -
  let ?n = "logged s ! i"
  obtain b where b: "block_at s ?n = Some b" "b_data b = lview s ?n" "?n \<notin> held s" "header_block i s = Ok ?n"
    using commit_ready_block [OF cr i] by metis
  obtain b1 where b1: "block_at s1 ?n = Some b1" "b_data b1 = b_data b" "block_ok b1"
    by (rule ckpt_cached [OF ck b(1)])
  have c: "lru_ok s1" "?n \<notin> held s1" "header s1 = header s" "sblock s1 = sblock s"
    using ck b(3) by (simp_all add: ckpt_def)
  have hb: "header_block i s1 = Ok ?n" using b(4) c(3) by (simp add: header_block_def split: if_splits)
  have sem: "sem_inv (b_lock b1)" using b1(3) by (simp add: block_ok_def)
  obtain s2 b2 where a: "cache_acquire ?n s1 = Ok s2" "block_at s2 = (block_at s1)(?n \<mapsto> b2)"
    "b_acquired b2" "b_data b2 = b_data b1" "b_pinned b2 = b_pinned b1" "sem_inv (b_lock b2)" "lru_ok s2"
    "\<exists>bs cnt. s2 = s1\<lparr>head := bs, cache_cnt := cnt\<rparr>"
    by (rule acquire_cached [OF c(1) b1(1) sem c(2)])
  have g: "get_data ?n s2 = lview s ?n" using a(2,4) b1(2) b(2) by (simp add: get_data_def)
  define s3 where "s3 = upd_block ?n (\<lambda>b. b\<lparr>b_pinned := False\<rparr>)
    (dev_write (log_start s + 1 + i) (lview s ?n) s2)"
  have b3: "block_at s3 = (block_at s1)(?n \<mapsto> b2\<lparr>b_pinned := False\<rparr>)"
    by (rule ext) (simp add: s3_def cache_simps a(2))
  have f: "header s3 = header s1" "log s3 = log s1" "sblock s3 = sblock s1" "swap_bitmap s3 = swap_bitmap s1"
    "disk s3 = (disk s1)(log_start s + 1 + i := lview s ?n)"
    "trace s3 = trace s1 @ [(log_start s + 1 + i, lview s ?n)]"
    using a(8) by (auto simp: s3_def)
  have lru3: "lru_ok s3" using a(7) by (simp add: s3_def cache_simps) (simp add: lru_ok_def)
  obtain s4 where r: "cache_release ?n s3 = Ok s4" "ckpt s s4" "pinned s4 = pinned s1 - {?n}"
    "disk s4 = disk s3" "trace s4 = trace s3"
    using ckpt_step [OF ck b(1) b(3) b3 _ _ lru3 f(1-4)] a(4,6) b1(2) by auto
  have "log_start s2 = log_start s" using a(8) c(4) by auto
  then have eq: "log_one_block i s1 = Ok s4"
    using a(1) hb g r(1) by (simp add: log_one_block_def Let_def s3_def)
  show thesis by (rule that [OF eq r(2)]) (use r f in auto)
qed

lemma persist_one_block_step:
  assumes cr: "commit_ready s" and i: "i < length (logged s)" and ck: "ckpt s s1"
    and d: "disk s1 (log_start s + 1 + i) = lview s (logged s ! i)"
  obtains s' where "persist_one_block i s1 = Ok s'" "ckpt s s'"
    "disk s' = (disk s1)(logged s ! i := lview s (logged s ! i))"
    "trace s' = trace s1 @ [(logged s ! i, lview s (logged s ! i))]"
    "pinned s' = pinned s1"
proof -
  let ?n = "logged s ! i"
  obtain b where b: "block_at s ?n = Some b" "b_data b = lview s ?n" "?n \<notin> held s" "header_block i s = Ok ?n"
    using commit_ready_block [OF cr i] by metis
  obtain b1 where b1: "block_at s1 ?n = Some b1" "b_data b1 = b_data b" "block_ok b1"
    by (rule ckpt_cached [OF ck b(1)])
  have c: "lru_ok s1" "?n \<notin> held s1" "header s1 = header s" "sblock s1 = sblock s"
    using ck b(3) by (simp_all add: ckpt_def)
  have hb: "header_block i s1 = Ok ?n" using b(4) c(3) by (simp add: header_block_def split: if_splits)
  have sem: "sem_inv (b_lock b1)" using b1(3) by (simp add: block_ok_def)
  obtain s2 b2 where a: "cache_acquire ?n s1 = Ok s2" "block_at s2 = (block_at s1)(?n \<mapsto> b2)"
    "b_acquired b2" "b_data b2 = b_data b1" "b_pinned b2 = b_pinned b1" "sem_inv (b_lock b2)" "lru_ok s2"
    "\<exists>bs cnt. s2 = s1\<lparr>head := bs, cache_cnt := cnt\<rparr>"
    by (rule acquire_cached [OF c(1) b1(1) sem c(2)])
  define s3 where "s3 = device_write ?n (put_data ?n (lview s ?n) s2)"
  have g: "get_data ?n (put_data ?n (lview s ?n) s2) = lview s ?n"
    by (simp add: get_data_def put_data_def cache_simps a(2))
  have b3: "block_at s3 = (block_at s1)(?n \<mapsto> b2\<lparr>b_data := lview s ?n\<rparr>)"
    by (rule ext) (simp add: s3_def device_write_def put_data_def cache_simps a(2))
  have f: "header s3 = header s1" "log s3 = log s1" "sblock s3 = sblock s1" "swap_bitmap s3 = swap_bitmap s1"
    "disk s3 = (disk s1)(?n := lview s ?n)" "trace s3 = trace s1 @ [(?n, lview s ?n)]"
    using a(8) g by (auto simp: s3_def device_write_def)
  have lru3: "lru_ok s3"
    using a(7) by (simp add: s3_def device_write_def put_data_def lru_ok_def map_b_no_upd)
  obtain s4 where r: "cache_release ?n s3 = Ok s4" "ckpt s s4"
    "pinned s4 = (if b_pinned b1 then insert ?n (pinned s1) else pinned s1 - {?n})"
    "disk s4 = disk s3" "trace s4 = trace s3"
    using ckpt_step [OF ck b(1) b(3) b3 _ _ lru3 f(1-4)] a(5,6) b(2) by auto
  have "log_start s1 = log_start s" using c(4) by auto
  then have eq: "persist_one_block i s1 = Ok s4"
    using a(1) hb d r(1) by (simp add: persist_one_block_def Let_def s3_def)
  have "pinned s4 = pinned s1" using r(3) b1(1) by (auto simp: pinned_def)
  then show thesis using that [OF eq r(2)] r f by simp
qed

lemma log_loop:
  assumes cr: "commit_ready s"
  shows "k \<le> length (logged s) \<Longrightarrow> \<exists>s'. mfold log_one_block [0..<k] s = Ok s' \<and> ckpt s s' \<and>
    disk s' = apply_writes (log_writes s k) (disk s) \<and> trace s' = trace s @ log_writes s k \<and>
    pinned s' = pinned s - set (take k (logged s))"
proof (induction k)
  case 0
  then show ?case using cr
    by (simp add: log_writes_def ckpt_def commit_ready_def cache_inv_def blocks_ok_def)
next
  case (Suc k)
  then have k: "k < length (logged s)" "k \<le> length (logged s)" by simp_all
  obtain s1 where s1: "mfold log_one_block [0..<k] s = Ok s1" "ckpt s s1"
    "disk s1 = apply_writes (log_writes s k) (disk s)" "trace s1 = trace s @ log_writes s k"
    "pinned s1 = pinned s - set (take k (logged s))"
    using Suc.IH k(2) by blast
  obtain s2 where s2: "log_one_block k s1 = Ok s2" "ckpt s s2"
    "disk s2 = (disk s1)(log_start s + 1 + k := lview s (logged s ! k))"
    "trace s2 = trace s1 @ [(log_start s + 1 + k, lview s (logged s ! k))]"
    "pinned s2 = pinned s1 - {logged s ! k}"
    by (rule log_one_block_step [OF cr k(1) s1(2)])
  have "mfold log_one_block [0..<Suc k] s = Ok s2" using s1(1) s2(1) by (simp add: mfold_append)
  moreover have "pinned s2 = pinned s - set (take (Suc k) (logged s))"
    unfolding s2(5) s1(5) take_Suc_conv_app_nth [OF k(1)] by auto
  ultimately show ?case using s1(3,4) s2(2-4) by (simp add: log_writes_def del: fun_upd_apply)
qed

lemma log_writes_disk:
  "i < k \<Longrightarrow> apply_writes (log_writes s k) d (log_start s + 1 + i) = lview s (logged s ! i)"
  "n \<notin> {log_start s + 1..log_start s + k} \<Longrightarrow> apply_writes (log_writes s k) d n = d n"
  by (induction k) (auto simp: log_writes_def less_Suc_eq)

lemma home_writes_disk:
  "n \<notin> set (take k (logged s)) \<Longrightarrow> k \<le> length (logged s) \<Longrightarrow> apply_writes (home_writes s k) d n = d n"
  "n \<in> set (take k (logged s)) \<Longrightarrow> k \<le> length (logged s) \<Longrightarrow>
   apply_writes (home_writes s k) d n = lview s n"
  by (induction k) (auto simp: home_writes_def take_Suc_conv_app_nth)

lemma persist_loop:
  assumes cr: "commit_ready s" and s0: "ckpt s s0"
    and d: "\<forall>i<length (logged s). disk s0 (log_start s + 1 + i) = lview s (logged s ! i)"
  shows "k \<le> length (logged s) \<Longrightarrow> \<exists>s'. mfold persist_one_block [0..<k] s0 = Ok s' \<and> ckpt s s' \<and>
    disk s' = apply_writes (home_writes s k) (disk s0) \<and> trace s' = trace s0 @ home_writes s k \<and>
    pinned s' = pinned s0"
proof (induction k)
  case 0
  then show ?case using s0 by (simp add: home_writes_def)
next
  case (Suc k)
  then have k: "k < length (logged s)" "k \<le> length (logged s)" by simp_all
  obtain s1 where s1: "mfold persist_one_block [0..<k] s0 = Ok s1" "ckpt s s1"
    "disk s1 = apply_writes (home_writes s k) (disk s0)" "trace s1 = trace s0 @ home_writes s k"
    "pinned s1 = pinned s0"
    using Suc.IH k(2) by blast
  have "log_start s + 1 + k \<notin> set (take k (logged s))"
  proof
    assume "log_start s + 1 + k \<in> set (take k (logged s))"
    then have "log_start s + 1 + k \<in> set (logged s)" by (rule in_set_takeD)
    then obtain j where j: "j < length (logged s)" "log_start s + 1 + k = logged s ! j" by (metis in_set_conv_nth)
    show False
      using commit_ready_block [OF cr j(1)] commit_ready_block [OF cr k(1)] log_area_mem(1) j(2) by metis
  qed
  then have "disk s1 (log_start s + 1 + k) = lview s (logged s ! k)"
    using s1(3) home_writes_disk(1) k d by simp
  from persist_one_block_step [OF cr k(1) s1(2) this]
  obtain s2 where s2: "persist_one_block k s1 = Ok s2" "ckpt s s2"
    "disk s2 = (disk s1)(logged s ! k := lview s (logged s ! k))"
    "trace s2 = trace s1 @ [(logged s ! k, lview s (logged s ! k))]" "pinned s2 = pinned s1" .
  have "mfold persist_one_block [0..<Suc k] s0 = Ok s2" using s1(1) s2(1) by (simp add: mfold_append)
  then show ?case using s1(3-5) s2(2-5) by (simp add: home_writes_def del: fun_upd_apply)
qed

definition commit_writes :: "cache \<Rightarrow> (nat \<times> u8 list) list" where
  "commit_writes s =
     (if logged s = [] then []
      else log_writes s (length (logged s)) @ [(log_start s, enc_header (header s))] @
        home_writes s (length (logged s)) @ [(log_start s, clear_header (header s))])"

lemma length_logged: "log_ok s \<Longrightarrow> length (logged s) = lh_num_blocks (header s)"
  by (simp add: log_ok_def logged_def)

lemma ckpt_lview: "ckpt s s' \<Longrightarrow> block_at s n = Some b \<Longrightarrow> lview s' n = lview s n"
  by (erule (1) ckpt_cached) (simp add: lview_def)

lemma ckpt_none: "ckpt s s' \<Longrightarrow> block_at s' n = None \<longleftrightarrow> block_at s n = None"
  by (metis ckpt_def option.map_disc_iff)

text \<open>The disk at the end of a commit.\<close>

lemma commit_disk:
  assumes cr: "commit_ready s" and ne: "logged s \<noteq> []"
  shows "n \<in> set (logged s) \<Longrightarrow> apply_writes (commit_writes s) d n = lview s n"
    "n \<notin> log_area (log_start s) (log_blocks s) \<Longrightarrow> n \<notin> set (logged s) \<Longrightarrow> apply_writes (commit_writes s) d n = d n"
    "apply_writes (commit_writes s) d (log_start s) = clear_header (header s)"
proof -
  let ?ls = "log_start s" let ?nl = "log_blocks s" let ?k = "length (logged s)"
  have k: "?k \<le> ?nl - 1" using cr by (simp add: commit_ready_def)
  have nl: "m \<notin> log_area ?ls ?nl" if "m \<in> set (logged s)" for m
    using that commit_ready_block [OF cr] by (metis in_set_conv_nth)
  have la: "?ls \<in> log_area ?ls ?nl" by (rule log_area_mem)
  show "n \<in> set (logged s) \<Longrightarrow> apply_writes (commit_writes s) d n = lview s n"
    using ne nl [of n] la by (auto simp: commit_writes_def home_writes_disk)
  show "n \<notin> log_area ?ls ?nl \<Longrightarrow> n \<notin> set (logged s) \<Longrightarrow> apply_writes (commit_writes s) d n = d n"
    using ne la k log_writes_disk(2) [of n s ?k d] by (auto simp: commit_writes_def home_writes_disk log_area_def)
  show "apply_writes (commit_writes s) d ?ls = clear_header (header s)"
    using ne by (simp add: commit_writes_def)
qed

lemma apply_writes_length:
  "\<forall>n. length (d n) = BLOCK_SIZE \<Longrightarrow> \<forall>w\<in>set ws. length (snd w) = BLOCK_SIZE \<Longrightarrow>
   length (apply_writes ws d n) = BLOCK_SIZE"
  by (induction ws arbitrary: d) auto

lemma commit_writes_length:
  assumes "cache_inv s" "wf_header (header s)"
  shows "\<forall>w\<in>set (commit_writes s). length (snd w) = BLOCK_SIZE"
proof -
  have "wf_header ((header s)\<lparr>lh_num_blocks := 0\<rparr>)" using assms(2) by (simp add: wf_header_def)
  then show ?thesis
    using bc.length_view [OF assms(1)] hdr.enc_length assms(2)
    by (auto simp: commit_writes_def log_writes_def home_writes_def clear_header_def)
qed

lemma checkpoint_run:
  assumes cr: "commit_ready s" and ne: "logged s \<noteq> []"
  obtains s' where "checkpoint s = Ok s'" "trace s' = trace s @ commit_writes s"
    "disk s' = apply_writes (commit_writes s) (disk s)" "header s' = (header s)\<lparr>lh_num_blocks := 0\<rparr>"
    "pinned s' = {}" "ckpt s (s'\<lparr>header := header s\<rparr>)"
proof -
  let ?k = "length (logged s)"
  have inv: "cache_inv s" using cr by (simp add: commit_ready_def)
  have k: "lh_num_blocks (header s) = ?k" using length_logged cache_invD(4) [OF inv] by simp
  obtain s1 where s1: "mfold log_one_block [0..<?k] s = Ok s1" "ckpt s s1"
    "disk s1 = apply_writes (log_writes s ?k) (disk s)" "trace s1 = trace s @ log_writes s ?k"
    "pinned s1 = pinned s - set (logged s)"
    using log_loop [OF cr, of ?k] by auto
  define s2 where "s2 = write_header s1"
  have h2: "header s2 = header s" "log_start s1 = log_start s"
    using s1(2) by (simp_all add: s2_def write_header_def ckpt_def)
  have ck2: "ckpt s s2"
    using s1(2) by (simp add: s2_def write_header_def ckpt_def held_def lru_ok_def)
  have d2: "disk s2 = (disk s1)(log_start s := enc_header (header s))"
    "trace s2 = trace s1 @ [(log_start s, enc_header (header s))]" "pinned s2 = pinned s1"
    using s1(2) h2 by (simp_all add: s2_def write_header_def ckpt_def pinned_def)
  have "\<forall>i<?k. disk s2 (log_start s + 1 + i) = lview s (logged s ! i)"
    using d2(1) s1(3) log_writes_disk(1) by simp
  from persist_loop [OF cr ck2 this, of ?k]
  obtain s3 where s3: "mfold persist_one_block [0..<?k] s2 = Ok s3" "ckpt s s3"
    "disk s3 = apply_writes (home_writes s ?k) (disk s2)" "trace s3 = trace s2 @ home_writes s ?k"
    "pinned s3 = pinned s2"
    by auto
  define s' where "s' = write_header (s3\<lparr>header := (header s3)\<lparr>lh_num_blocks := 0\<rparr>\<rparr>)"
  have f3: "header s3 = header s" "sblock s3 = sblock s" using s3(2) by (simp_all add: ckpt_def)
  show thesis
  proof (rule that [of s'])
    show "checkpoint s = Ok s'"
      using ne s1(1) s3(1) k h2 s1(2)
      by (simp add: checkpoint_def write_block_to_log_def persist_from_log_def s2_def s'_def ckpt_def)
    show "trace s' = trace s @ commit_writes s" "disk s' = apply_writes (commit_writes s) (disk s)"
      using ne s3 d2 s1 f3 by (simp_all add: s'_def write_header_def commit_writes_def clear_header_def)
    show "header s' = (header s)\<lparr>lh_num_blocks := 0\<rparr>" by (simp add: s'_def write_header_def f3)
    have "pinned s' = pinned s3" by (simp add: s'_def write_header_def pinned_def)
    then show "pinned s' = {}" using s3(5) d2(3) s1(5) cache_invD(4) [OF inv] by (simp add: log_ok_def)
    show "ckpt s (s'\<lparr>header := header s\<rparr>)"
      using s3(2) by (simp add: s'_def write_header_def ckpt_def held_def lru_ok_def)
  qed
qed

text \<open>
  A commit succeeds, makes the disk agree with the logical content outside the log, and
  leaves an empty log and a cache in order.
\<close>

lemma checkpoint_ok:
  assumes cr: "commit_ready s" and wf: "wf_header (header s)"
  obtains s' where "checkpoint s = Ok s'" "trace s' = trace s @ commit_writes s"
    "disk s' = apply_writes (commit_writes s) (disk s)" "commit_ready s'" "logged s' = []"
    "held s' = held s" "log s' = log s" "sblock s' = sblock s" "wf_header (header s')"
    "\<And>n. n \<notin> log_area (log_start s) (log_blocks s) \<Longrightarrow> lview s' n = lview s n"
proof (cases "logged s = []")
  case True
  have "lh_num_blocks (header s) = 0"
    using True cr length_logged [of s] by (simp add: commit_ready_def cache_inv_def)
  then show thesis using that [of s] True cr wf by (simp add: checkpoint_def commit_writes_def)
next
  case False
  have inv: "cache_inv s" using cr by (simp add: commit_ready_def)
  obtain s' where r: "checkpoint s = Ok s'" "trace s' = trace s @ commit_writes s"
    "disk s' = apply_writes (commit_writes s) (disk s)" "header s' = (header s)\<lparr>lh_num_blocks := 0\<rparr>"
    "pinned s' = {}" and ck: "ckpt s (s'\<lparr>header := header s\<rparr>)"
    by (rule checkpoint_run [OF cr False])
  have f: "sblock s' = sblock s" "log s' = log s" "held s' = held s" "lru_ok s'"
    "\<forall>n b. block_at s' n = Some b \<longrightarrow> block_ok b"
    using ck by (simp_all add: ckpt_def held_def lru_ok_def)
  have none: "block_at s' n = None \<longleftrightarrow> block_at s n = None" for n using ckpt_none [OF ck, of n] by simp
  have dat: "b_data b' = lview s n" if "block_at s' n = Some b'" for n b'
    using that none [of n] ckpt_lview [OF ck, of n] by (auto simp: lview_def)
  note cd = commit_disk [OF cr False]
  have lg: "logged s' = []" by (simp add: logged_def r(4))
  have wf': "wf_header (header s')" using wf by (simp add: r(4) wf_header_def)
  have uncached: "n \<notin> set (logged s)" if "block_at s n = None" for n
    using that cache_invD(4) [OF inv] by (auto simp: log_ok_def pinned_def)
  have lv: "lview s' n = lview s n" if n: "n \<notin> log_area (log_start s) (log_blocks s)" for n
    using n dat [of n] none [of n] cd(2) [of n] uncached [of n]
    by (cases "block_at s' n") (auto simp: lview_def r(3))
  have "length (disk s' n) = BLOCK_SIZE" for n
    unfolding r(3) using cache_invD(2) [OF inv] commit_writes_length [OF inv wf]
    by (intro apply_writes_length) (auto simp: blocks_ok_def)
  then have "blocks_ok s'" using f(5) by (simp add: blocks_ok_def)
  moreover have "coherent s'"
    unfolding coherent_def
  proof (intro allI impI)
    fix n b assume b: "block_at s' n = Some b \<and> \<not> b_pinned b \<and> \<not> b_acquired b"
    then obtain b0 where b0: "block_at s n = Some b0" using none [of n] by force
    then have nl: "n \<notin> log_area (log_start s) (log_blocks s)" using cr by (auto simp: commit_ready_def)
    have "n \<notin> held s'" using b by (auto simp: held_def)
    then have "n \<notin> held s" using f(3) by simp
    then have "n \<in> set (logged s) \<or> lview s n = disk s n"
      using cache_invD(3,4) [OF inv] b0 by (auto simp: coherent_def log_ok_def pinned_def held_def lview_def)
    then show "b_data b = disk s' n"
      using dat [of n b] b cd(1) [of n] cd(2) [OF nl]
      by (cases "n \<in> set (logged s)") (simp_all add: r(3))
  qed
  moreover have "log_ok s'" using wf r(4,5) lg by (simp add: log_ok_def wf_header_def)
  ultimately have "commit_ready s'"
    using f(1,4) lg none cr by (simp add: commit_ready_def cache_inv_def)
  then show thesis using that r lg f wf' lv by blast
qed

section \<open>Crashes\<close>

lemma wf_dec_header: "wf_header (dec_header bs)"
proof -
  have "dec_usize xs < 2 ^ 64" for xs using unsigned_less [of "dec64 xs"] by (simp add: dec_usize_def)
  then show ?thesis by (auto simp: wf_header_def dec_header_def arr_get_def)
qed

lemma dec_clear_header: "wf_header h \<Longrightarrow> dec_header (clear_header h) = h\<lparr>lh_num_blocks := 0\<rparr>"
  unfolding clear_header_def by (rule hdr.dec_enc) (simp add: wf_header_def)

lemma committed_empty:
  assumes "wf_header h" "d ls = clear_header h"
  shows "committed ls d = []" "log_disk_ok ls nl d"
  using dec_clear_header [OF assms(1)] assms(2)
  by (simp_all add: committed_def disk_header_def log_disk_ok_def)

text \<open>What recovery leaves on the home blocks is the recovered view.\<close>

lemma recovered_disk:
  assumes ok: "log_disk_ok ls nl d"
  defines "ws \<equiv> copy_writes ls d (length (committed ls d)) @ [(ls, clear_header (disk_header ls d))]"
  shows "n \<notin> log_area ls nl \<Longrightarrow> apply_writes ws d n = rview ls d n" "committed ls (apply_writes ws d) = []"
    "log_disk_ok ls nl (apply_writes ws d)"
proof -
  let ?k = "length (committed ls d)" let ?d = "apply_writes (copy_writes ls d ?k) d"
  let ?x = "clear_header (disk_header ls d)"
  have wf: "wf_header (disk_header ls d)" by (simp add: disk_header_def wf_dec_header)
  have e: "apply_writes ws d = ?d(ls := ?x)" by (simp add: ws_def)
  note c = copy_writes_disk [OF ok order_refl]
  have dis: "distinct (committed ls d)" using ok by (simp add: log_disk_ok_def)
  show e1: "committed ls (apply_writes ws d) = []" "log_disk_ok ls nl (apply_writes ws d)"
    using committed_empty [OF wf, of "apply_writes ws d" ls] by (simp_all add: e)
  have "?d (ls + 1 + i) = d (ls + 1 + i)" if "i < ?k" for i
    using that c(2) log_area_mem(1) [of i nl ls] length_committed [of ls d] ok by (simp add: log_disk_ok_def)
  then have "n \<notin> log_area ls nl \<Longrightarrow> rview ls (?d(ls := ?x)) n = rview ls ?d n"
    using rview_clear_write(1) [of ?x n ls nl ?d] dec_clear_header [OF wf] dis c(1,4) by simp
  moreover have "rview ls (?d(ls := ?x)) n = (?d(ls := ?x)) n"
    using e1 by (simp only: e) (rule rview_none, simp)
  ultimately show "n \<notin> log_area ls nl \<Longrightarrow> apply_writes ws d n = rview ls d n" using c(3) e by simp
qed

lemma init_bcache_ok:
  assumes ok: "log_disk_ok (unat (sb_log_start sb)) (unat (sb_num_log_blocks sb)) d"
  defines "ls \<equiv> unat (sb_log_start sb)" and "nl \<equiv> unat (sb_num_log_blocks sb)"
  shows "\<exists>r. init_bcache sb (m\<lparr>disk := d\<rparr>) = Ok r \<and> committed ls (disk r) = [] \<and> log_disk_ok ls nl (disk r) \<and>
    head r = [] \<and> cache_cnt r = 0 \<and> sblock r = sb \<and> logged r = [] \<and> length (lh_block_no (header r)) = LOG_MAX_SIZE \<and>
    wf_header (header r) \<and>
    disk r = apply_writes (copy_writes ls d (length (committed ls d)) @ [(ls, clear_header (disk_header ls d))]) d \<and>
    trace r = trace m @ copy_writes ls d (length (committed ls d)) @ [(ls, clear_header (disk_header ls d))] \<and>
    (\<forall>n. n \<notin> log_area ls nl \<longrightarrow> disk r n = rview ls d n)"
proof -
  define s where "s = m\<lparr>disk := d, sblock := sb, head := [], cache_cnt := 0,
    log := (log m)\<lparr>log_sem := init_sem 0, log_commit_sem := init_sem 0,
      max_size := int (min (unat (sb_num_log_blocks sb - 1)) LOG_MAX_SIZE),
      log_used := 0, committing := False, outstanding := 0\<rparr>\<rparr>"
  have s: "log_start s = ls" "log_blocks s = nl" "disk s = d" "head s = []" "cache_cnt s = 0" "sblock s = sb" "trace s = trace m"
    by (simp_all add: s_def ls_def nl_def)
  obtain s' where r: "recover_from_log s = Ok s'" "head s' = []" "cache_cnt s' = 0" "sblock s' = sb"
    "header s' = (disk_header ls d)\<lparr>lh_num_blocks := 0\<rparr>"
    "disk s' = apply_writes (copy_writes ls d (length (committed ls d)) @ [(ls, clear_header (disk_header ls d))]) d"
    "trace s' = trace m @ copy_writes ls d (length (committed ls d)) @ [(ls, clear_header (disk_header ls d))]"
    using recover_from_log_ok [of s] ok s by (auto simp: ls_def nl_def)
  have i: "init_bcache sb (m\<lparr>disk := d\<rparr>) =
      Ok (s'\<lparr>swap_bitmap := memset (swap_bitmap s') 0 ((SWAP_END - SWAP_START) div 8)\<rparr>)"
    using r(1) by (simp add: init_bcache_def Let_def s_def)
  have ok': "log_disk_ok ls nl d" using ok by (simp add: ls_def nl_def)
  have "wf_header (header s')" "length (lh_block_no (header s')) = LOG_MAX_SIZE"
    using wf_dec_header [of "d ls"] by (simp_all add: r(5) disk_header_def wf_header_def)
  then show ?thesis
    using i r recovered_disk [OF ok'] by (simp add: logged_def)
qed

text \<open>The disk seen by a crash in the middle of a commit, in its two phases.\<close>

lemma take_writes:
  "k \<le> m \<Longrightarrow> take k (log_writes s m) = log_writes s k"
  "k \<le> m \<Longrightarrow> take k (home_writes s m) = home_writes s k"
  by (simp_all add: log_writes_def home_writes_def take_map)

lemma length_writes [simp]: "length (log_writes s m) = m" "length (home_writes s m) = m"
  by (simp_all add: log_writes_def home_writes_def)

lemma take_commit_writes:
  assumes "logged s \<noteq> []" "k \<le> length (commit_writes s)"
  defines "m \<equiv> length (logged s)"
  obtains (logging) "k \<le> m" "take k (commit_writes s) = log_writes s k"
    | (copying) j where "j \<le> m" "k = m + 1 + j" "take k (commit_writes s) =
        log_writes s m @ [(log_start s, enc_header (header s))] @ home_writes s j"
    | (complete) "k = 2 * m + 2" "take k (commit_writes s) = commit_writes s"
proof -
  let ?c = "log_writes s m @ [(log_start s, enc_header (header s))] @ home_writes s m @
    [(log_start s, clear_header (header s))]"
  have c: "commit_writes s = ?c" "length (commit_writes s) = 2 * m + 2"
    using assms(1) by (simp_all add: commit_writes_def m_def)
  consider "k \<le> m" | j where "j \<le> m" "k = m + 1 + j" | "k = 2 * m + 2"
    using assms(2) c(2) by atomize_elim presburger
  then show thesis
    by cases (use c in \<open>auto simp: take_writes intro: logging copying complete\<close>)
qed

lemma committed_header:
  assumes "wf_header h" "d ls = enc_header h"
  shows "committed ls d = take (lh_num_blocks h) (lh_block_no h)" "disk_header ls d = h"
  using hdr.dec_enc [OF assms(1)] assms(2) by (simp_all add: committed_def disk_header_def)

definition after_commit :: "cache \<Rightarrow> nat \<Rightarrow> u8 list" where
  "after_commit s n = (if n \<in> set (logged s) then lview s n else disk s n)"

lemma crash_view:
  assumes cr: "commit_ready s" and wf: "wf_header (header s)" and e: "committed (log_start s) (disk s) = []"
    and k: "k \<le> length (commit_writes s)" and ne: "logged s \<noteq> []"
  defines "d \<equiv> apply_writes (take k (commit_writes s)) (disk s)" and "ls \<equiv> log_start s" and "nl \<equiv> log_blocks s"
  shows "log_disk_ok ls nl d \<and> (\<forall>n. n \<notin> log_area ls nl \<longrightarrow>
    rview ls d n = (if k \<le> length (logged s) then disk s n else after_commit s n))"
proof -
  let ?m = "length (logged s)"
  have lo: "log_ok s" using cr by (simp add: commit_ready_def cache_inv_def)
  have m: "?m \<le> nl - 1" "?m \<le> LOG_MAX_SIZE" using length_logged [OF lo] lo cr by (simp_all add: log_ok_def commit_ready_def nl_def)
  have nl: "set (logged s) \<inter> log_area ls nl = {}"
    using commit_ready_block [OF cr] by (force simp: in_set_conv_nth ls_def nl_def)
  have lsm: "ls \<in> log_area ls nl" by (rule log_area_mem)
  show ?thesis using ne k
  proof (cases rule: take_commit_writes)
    case logging
    have "d ls = disk s ls" using logging by (simp add: d_def ls_def log_writes_disk(2))
    then have c: "committed ls d = []" "lh_num_blocks (disk_header ls d) = lh_num_blocks (disk_header ls (disk s))"
      using e by (simp_all add: committed_def disk_header_def ls_def)
    have z: "lh_num_blocks (disk_header ls (disk s)) = 0"
      using e by (auto simp: committed_def disk_header_def ls_def dec_header_def)
    have "d n = disk s n" if "n \<notin> log_area ls nl" for n
      using that logging m log_writes_disk(2) [of n s k "disk s"] by (auto simp: d_def ls_def log_area_def)
    then show ?thesis using c z logging by (simp add: log_disk_ok_def rview_none)
  next
    case (copying j)
    let ?d0 = "(apply_writes (log_writes s ?m) (disk s))(ls := enc_header (header s))"
    have d: "d = apply_writes (home_writes s j) ?d0" using copying by (simp add: d_def ls_def)
    have sub: "set (take j (logged s)) \<subseteq> set (logged s)" by (rule set_take_subset)
    have la: "d n = ?d0 n" if "n \<in> log_area ls nl" for n
    proof -
      have "n \<notin> set (take j (logged s))" using that sub nl by blast
      then show ?thesis unfolding d by (rule home_writes_disk(1) [OF _ copying(1)])
    qed
    have c: "committed ls d = logged s" "disk_header ls d = header s"
      using committed_header [OF wf, of d ls] la [OF lsm] by (simp_all add: logged_def)
    have ok: "log_disk_ok ls nl d" using c lo nl m(1) length_logged [OF lo] by (simp add: log_disk_ok_def log_ok_def)
    have "rview ls d n = after_commit s n" if n: "n \<notin> log_area ls nl" for n
    proof (cases "n \<in> set (logged s)")
      case True
      then obtain i where i: "i < ?m" "n = logged s ! i" by (metis in_set_conv_nth)
      have "d (ls + 1 + i) = lview s n"
        using la [OF log_area_mem(1)] log_writes_disk(1) [of i ?m s] i m by (simp add: ls_def)
      then show ?thesis
        using rview_committed [of ls d i] c i lo True by (simp add: log_ok_def after_commit_def)
    next
      case False
      then have "n \<notin> set (take j (logged s))" using sub by blast
      then have "d n = ?d0 n" unfolding d by (rule home_writes_disk(1) [OF _ copying(1)])
      moreover have "?d0 n = disk s n"
        using n lsm m log_writes_disk(2) [of n s ?m "disk s"] by (auto simp: log_area_def ls_def)
      ultimately have "d n = disk s n" by simp
      then show ?thesis using False c by (simp add: rview_none after_commit_def)
    qed
    then show ?thesis using ok copying(2) by simp
  next
    case complete
    have "d ls = clear_header (header s)" using complete(2) commit_disk(3) [OF cr ne] by (simp add: d_def ls_def)
    note c = committed_empty [of "header s" d ls, OF wf this]
    have "d n = after_commit s n" if "n \<notin> log_area ls nl" for n
      using that commit_disk(1,2) [OF cr ne] complete(2) by (simp add: d_def ls_def nl_def after_commit_def)
    then show ?thesis using c complete by (simp add: rview_none)
  qed
qed

section \<open>The end of an operation\<close>

lemma lview_log [simp]: "lview (s\<lparr>log := l\<rparr>) = lview s" "lview (s\<lparr>activated := a\<rparr>) = lview s"
  by (simp_all add: lview_def fun_eq_iff split: option.split)

lemma logged_log [simp]:
  "logged (s\<lparr>log := l\<rparr>) = logged s" "logged (s\<lparr>activated := a\<rparr>) = logged s"
  "held (s\<lparr>log := l\<rparr>) = held s" "pinned (s\<lparr>log := l\<rparr>) = pinned s"
  by (simp_all add: logged_def held_def pinned_def)

lemma commit_log [simp]:
  "commit_ready (s\<lparr>log := l\<rparr>) = commit_ready s" "commit_writes (s\<lparr>log := l\<rparr>) = commit_writes s"
  by (simp_all add: commit_ready_def commit_writes_def log_writes_def home_writes_def
      cache_inv_def lru_ok_def blocks_ok_def coherent_def log_ok_def)

lemma cache_end_op_last:
  assumes cr: "commit_ready s" and wf: "wf_header (header s)" and o: "outstanding (log s) = 1"
    and sems: "sem_inv (log_sem (log s))" "sem_inv (log_commit_sem (log s))"
  obtains s' where "cache_end_op t c s = Ok (True, s')" "trace s' = trace s @ commit_writes s"
    "disk s' = apply_writes (commit_writes s) (disk s)" "logged s' = []" "sblock s' = sblock s"
    "\<And>n. n \<notin> log_area (log_start s) (log_blocks s) \<Longrightarrow> lview s' n = lview s n"
proof -
  define l where "l = (log s)\<lparr>outstanding := 0, log_used := log_used (log s) - int (rm c), committing := True\<rparr>"
  obtain s1 where s1: "checkpoint (s\<lparr>log := l\<rparr>) = Ok s1" "trace s1 = trace s @ commit_writes s"
    "disk s1 = apply_writes (commit_writes s) (disk s)" "logged s1 = []" "log s1 = l" "sblock s1 = sblock s"
    "\<And>n. n \<notin> log_area (log_start s) (log_blocks s) \<Longrightarrow> lview s1 n = lview s n"
    by (rule checkpoint_ok [of "s\<lparr>log := l\<rparr>"]) (use cr wf in simp_all)
  have "\<exists>l' a. cache_end_op t c s = Ok (True, s1\<lparr>log := l', activated := a\<rparr>)"
    using s1(1,5) sems o
    by (simp add: cache_end_op_def Let_def l_def post_all_log_commit_sem_def post_all_log_sem_def post_all_sem_ok)
      (intro exI, rule refl)
  then show thesis using that s1 by force
qed

section \<open>Admission of operations\<close>

text \<open>
  Threads that run atomic operations against one cache. Every step is a critical section of
  the source: a pass of \<open>cache_begin_op\<close>, an access to a block, a \<open>cache_sync\<close> or a \<open>cache_end_op\<close>
  of a running operation. The \<open>cache_end_op\<close> of the last running operation releases the log lock before it commits, so it is
  two steps, \<^term>\<open>end_op_start\<close> and \<^term>\<open>end_op_commit\<close>, between which other threads run.
\<close>

definition end_op_start :: "OpContext \<Rightarrow> cache \<Rightarrow> cache" where
  "end_op_start ctx s = s\<lparr>log := (log s)\<lparr>outstanding := outstanding (log s) - 1,
     log_used := log_used (log s) - int (rm ctx), committing := True\<rparr>\<rparr>"

definition end_op_commit :: "cache \<Rightarrow> cache res" where
  "end_op_commit s =
     bnd (checkpoint s) (\<lambda>s.
     let s = s\<lparr>log := (log s)\<lparr>committing := False\<rparr>\<rparr> in
     bnd (post_all_log_commit_sem s) (\<lambda>s. post_all_log_sem s))"

text \<open>Run without a pause, the two steps are \<open>cache_end_op\<close>.\<close>

lemma cache_end_op_steps:
  "outstanding (log s) = 1 \<Longrightarrow> cache_end_op t ctx s = bnd (end_op_commit (end_op_start ctx s)) (\<lambda>s. Ok (True, s))"
  by (simp add: cache_end_op_def end_op_commit_def end_op_start_def Let_def bnd_assoc)

record op_sys =
  op_cache :: cache
  running :: "(nat \<times> OpContext) list"

inductive op_step :: "op_sys \<Rightarrow> op_sys \<Rightarrow> bool" where
  op_begin: "cache_begin_op t c (op_cache s) = (True, c', x) \<Longrightarrow> t \<notin> fst ` set (running s) \<Longrightarrow>
    op_step s \<lparr>op_cache = x, running = (t, c') # running s\<rparr>"
| op_wait: "cache_begin_op t c (op_cache s) = (False, c', x) \<Longrightarrow> op_step s (s\<lparr>op_cache := x\<rparr>)"
| op_acquire: "cache_acquire n (op_cache s) = Ok x \<Longrightarrow> op_step s (s\<lparr>op_cache := x\<rparr>)"
| op_write: "op_step s (s\<lparr>op_cache := put_data n d (op_cache s)\<rparr>)"
| op_release: "cache_release n (op_cache s) = Ok x \<Longrightarrow> op_step s (s\<lparr>op_cache := x\<rparr>)"
| op_sync: "running s = as @ (t, c) # bs \<Longrightarrow> cache_sync (Some c) n (op_cache s) = Ok (Some c', x) \<Longrightarrow>
    op_step s \<lparr>op_cache = x, running = as @ (t, c') # bs\<rparr>"
| op_end: "running s = as @ (t, c) # bs \<Longrightarrow> outstanding (log (op_cache s)) \<noteq> 1 \<Longrightarrow>
    cache_end_op t c (op_cache s) = Ok (r, x) \<Longrightarrow> op_step s \<lparr>op_cache = x, running = as @ bs\<rparr>"
| op_commit: "running s = as @ (t, c) # bs \<Longrightarrow> outstanding (log (op_cache s)) = 1 \<Longrightarrow>
    op_step s \<lparr>op_cache = end_op_start c (op_cache s), running = as @ bs\<rparr>"
| op_commit_end: "committing (log (op_cache s)) \<Longrightarrow> end_op_commit (op_cache s) = Ok x \<Longrightarrow>
    op_step s (s\<lparr>op_cache := x\<rparr>)"

inductive op_reachable :: "op_sys \<Rightarrow> bool" where
  op_init: "init_bcache sb m = Ok x \<Longrightarrow> op_reachable \<lparr>op_cache = x, running = []\<rparr>"
| op_next: "op_reachable s \<Longrightarrow> op_step s s' \<Longrightarrow> op_reachable s'"

definition quota :: "op_sys \<Rightarrow> int" where
  "quota s = (\<Sum>(t, c)\<leftarrow>running s. int (rm c))"

definition op_inv :: "op_sys \<Rightarrow> bool" where
  "op_inv s \<longleftrightarrow> (let x = op_cache s; l = log x in
     (committing l \<longrightarrow> running s = []) \<and> outstanding l = int (length (running s)) \<and> log_used l = quota s \<and>
     int (lh_num_blocks (header x)) + quota s \<le> max_size l \<and>
     max_size l = int (min (unat (sb_num_log_blocks (sblock x) - 1)) LOG_MAX_SIZE) \<and>
     (running s = [] \<and> \<not> committing l \<longrightarrow> lh_num_blocks (header x) = 0))"

lemma LRU_shrink_fields [simp]: "header (LRU_shrink s) = header s" "log (LRU_shrink s) = log s" "sblock (LRU_shrink s) = sblock s"
  by (simp_all add: LRU_shrink_def split: prod.split)

lemma acquire_keeps: "cache_acquire n s = Ok s' \<Longrightarrow> header s' = header s \<and> log s' = log s \<and> sblock s' = sblock s"
  by (auto simp: cache_acquire_def cache_acquire_try_def Let_def split: option.splits if_splits)

lemma release_keeps: "cache_release n s = Ok s' \<Longrightarrow> header s' = header s \<and> log s' = log s \<and> sblock s' = sblock s"
  by (auto simp: cache_release_def Let_def bnd_eq_Ok split: option.splits)

lemma log_one_keeps: "log_one_block i s = Ok s' \<Longrightarrow> header s' = header s \<and> log s' = log s \<and> sblock s' = sblock s"
  by (auto simp: log_one_block_def Let_def bnd_eq_Ok dest!: acquire_keeps release_keeps)

lemma persist_one_keeps: "persist_one_block i s = Ok s' \<Longrightarrow> header s' = header s \<and> log s' = log s \<and> sblock s' = sblock s"
  by (auto simp: persist_one_block_def device_write_def Let_def bnd_eq_Ok dest!: acquire_keeps release_keeps)

lemma loop_keeps:
  assumes "f = log_one_block \<or> f = persist_one_block \<or> f = recover_step" "mfold f is s = Ok s'"
  shows "header s' = header s \<and> log s' = log s \<and> sblock s' = sblock s"
proof -
  have "(header s', log s', sblock s') = (header s, log s, sblock s)" if "f i s = Ok s'" for i s s'
    using assms(1) that log_one_keeps [of i s s'] persist_one_keeps [of i s s']
    by (auto simp: recover_step_def Let_def bnd_eq_Ok)
  from mfold_preserves [of f "\<lambda>s. (header s, log s, sblock s)", OF this assms(2)] show ?thesis by simp
qed

lemma checkpoint_keeps: "checkpoint s = Ok s' \<Longrightarrow> lh_num_blocks (header s') = 0 \<and> log s' = log s \<and> sblock s' = sblock s"
proof (cases "lh_num_blocks (header s) \<le> 0")
  case False
  assume "checkpoint s = Ok s'"
  then obtain s1 s2 where "mfold log_one_block [0..<lh_num_blocks (header s)] s = Ok s1"
    "mfold persist_one_block [0..<lh_num_blocks (header s1)] (write_header s1) = Ok s2"
    and s': "s' = write_header (s2\<lparr>header := (header s2)\<lparr>lh_num_blocks := 0\<rparr>\<rparr>)"
    using False
    by (auto simp: checkpoint_def write_block_to_log_def persist_from_log_def write_header_def bnd_eq_Ok)
  then show ?thesis using loop_keeps [of log_one_block] loop_keeps [of persist_one_block]
    by (auto simp: write_header_def)
qed (simp add: checkpoint_def)

lemma recover_keeps:
  assumes "recover_from_log s = Ok s'" shows "lh_num_blocks (header s') = 0 \<and> log s' = log s \<and> sblock s' = sblock s"
proof -
  obtain s1 where "mfold recover_step [0..<lh_num_blocks (header (read_header s))] (read_header s) = Ok s1"
    and s': "s' = write_header (s1\<lparr>header := (header s1)\<lparr>lh_num_blocks := 0\<rparr>\<rparr>)"
    using assms by (auto simp: recover_from_log_def Let_def bnd_eq_Ok)
  then show ?thesis using loop_keeps [of recover_step]
    by (auto simp: write_header_def) (simp_all add: read_header_def)
qed

lemma post_all_keeps:
  "post_all_log_sem s = Ok s' \<Longrightarrow> \<exists>sem. header s' = header s \<and> sblock s' = sblock s \<and> log s' = (log s)\<lparr>log_sem := sem\<rparr>"
  "post_all_log_commit_sem s = Ok s' \<Longrightarrow> \<exists>sem. header s' = header s \<and> sblock s' = sblock s \<and> log s' = (log s)\<lparr>log_commit_sem := sem\<rparr>"
  by (auto simp: post_all_log_sem_def post_all_log_commit_sem_def bnd_eq_Ok)

lemma sync_effect:
  assumes "cache_sync (Some c) n s = Ok (Some c', s')"
  shows "max_size (log s') = max_size (log s) \<and> outstanding (log s') = outstanding (log s) \<and> sblock s' = sblock s \<and>
    committing (log s') = committing (log s) \<and>
    (header s' = header s \<and> log_used (log s') = log_used (log s) \<and> rm c' = rm c \<or>
     lh_num_blocks (header s') = lh_num_blocks (header s) + 1 \<and> log_used (log s') = log_used (log s) - 1 \<and>
     int (rm c') = int (rm c) - 1)"
  using assms by (auto simp: cache_sync_def Let_def split: if_splits)

lemma end_effect:
  assumes "cache_end_op t c s = Ok (r, s')"
  shows "max_size (log s') = max_size (log s) \<and> outstanding (log s') = outstanding (log s) - 1 \<and> sblock s' = sblock s \<and>
    log_used (log s') = log_used (log s) - int (rm c) \<and>
    (committing (log s) \<or> \<not> committing (log s')) \<and>
    (if outstanding (log s) = 1 then lh_num_blocks (header s') = 0 else header s' = header s)"
proof (cases "outstanding (log s) = 1")
  case True
  then show ?thesis using assms
    by (auto simp: cache_end_op_def Let_def bnd_eq_Ok dest!: checkpoint_keeps post_all_keeps)
next
  case False
  then show ?thesis using assms
    by (auto simp: cache_end_op_def Let_def split_def bnd_eq_Ok dest!: post_all_keeps)
qed

lemma commit_effect:
  assumes "end_op_commit s = Ok s'"
  shows "max_size (log s') = max_size (log s) \<and> outstanding (log s') = outstanding (log s) \<and> sblock s' = sblock s \<and>
    log_used (log s') = log_used (log s) \<and> \<not> committing (log s') \<and> lh_num_blocks (header s') = 0"
  using assms by (auto simp: end_op_commit_def Let_def bnd_eq_Ok dest!: checkpoint_keeps post_all_keeps)

lemma op_inv_init: "init_bcache sb m = Ok x \<Longrightarrow> op_inv \<lparr>op_cache = x, running = []\<rparr>"
  by (auto simp: init_bcache_def Let_def bnd_eq_Ok op_inv_def quota_def dest!: recover_keeps)

lemma op_inv_step: "op_step s s' \<Longrightarrow> op_inv s \<Longrightarrow> op_inv s'"
proof (induction rule: op_step.induct)
  case (op_begin t c s c' x)
  then show ?case
    by (auto simp: op_inv_def quota_def Let_def cache_begin_op_def split: if_splits)
next
  case (op_wait t c s c' x)
  then show ?case
    by (auto simp: op_inv_def quota_def Let_def cache_begin_op_def split: if_splits)
next
  case (op_sync s as t c bs n c' x)
  then show ?case
    using sync_effect [OF op_sync(2)] by (auto simp: op_inv_def quota_def Let_def)
next
  case (op_end s as t c bs r x)
  have "outstanding (log (op_cache s)) = int (length as + 1 + length bs)"
    using op_end by (simp add: op_inv_def Let_def)
  then have "running s \<noteq> []" "as @ bs \<noteq> []" using op_end(1,2) by (cases as; cases bs; simp)+
  then show ?case
    using op_end end_effect [OF op_end(3)] by (auto simp: op_inv_def quota_def Let_def split: if_splits)
next
  case (op_commit s as t c bs)
  have "outstanding (log (op_cache s)) = int (length as + 1 + length bs)"
    using op_commit by (simp add: op_inv_def Let_def)
  then have "as = []" "bs = []" using op_commit(2) by (cases as; cases bs; simp)+
  then show ?case using op_commit by (auto simp: op_inv_def quota_def Let_def end_op_start_def)
next
  case (op_commit_end s x)
  then show ?case using commit_effect [OF op_commit_end(2)] by (auto simp: op_inv_def quota_def Let_def)
qed (auto simp: op_inv_def quota_def Let_def dest!: acquire_keeps release_keeps)

lemma op_reachable_inv: "op_reachable s \<Longrightarrow> op_inv s"
  by (induction rule: op_reachable.induct) (simp_all add: op_inv_init op_inv_step)

section \<open>Properties\<close>

text \<open>
  C11: the commit of the last outstanding operation is atomic with respect to crashes. The
  operation returns with every logged block on disk; and if the machine stops after any number
  of the commit's device writes, the next \<open>init_bcache\<close> succeeds, whatever the memory holds, and
  outside the log area the disk is then as it was before the commit or as it is after it.
\<close>

theorem commit_crash_atomic:
  assumes "commit_ready s" and "wf_header (header s)" and "committed (log_start s) (disk s) = []"
    and "outstanding (log s) = 1" and "sem_inv (log_sem (log s))" and "sem_inv (log_commit_sem (log s))"
  shows "\<exists>s' ws. cache_end_op t c s = Ok (True, s') \<and> trace s' = trace s @ ws \<and>
    disk s' = apply_writes ws (disk s) \<and> (\<forall>n\<in>set (logged s). disk s' n = lview s n) \<and>
    (\<forall>k\<le>length ws. \<forall>m. \<exists>r. init_bcache (sblock s) (m\<lparr>disk := apply_writes (take k ws) (disk s)\<rparr>) = Ok r \<and>
       ((\<forall>n. n \<notin> log_area (log_start s) (log_blocks s) \<longrightarrow> disk r n = disk s n) \<or>
        (\<forall>n. n \<notin> log_area (log_start s) (log_blocks s) \<longrightarrow> disk r n = disk s' n)))"
proof (cases "logged s = []")
  case True
  let ?ls = "log_start s" let ?nl = "log_blocks s"
  obtain s' where e: "cache_end_op t c s = Ok (True, s')" "trace s' = trace s @ commit_writes s"
    "disk s' = apply_writes (commit_writes s) (disk s)"
    by (rule cache_end_op_last [OF assms(1,2,4-6)])
  have "lh_num_blocks (disk_header ?ls (disk s)) = 0"
    using assms(3) by (auto simp: committed_def disk_header_def dec_header_def)
  then have "log_disk_ok ?ls ?nl (disk s)" using assms(3) by (simp add: log_disk_ok_def)
  moreover have "rview ?ls (disk s) n = disk s n" for n using assms(3) by (simp add: rview_none)
  ultimately have "\<exists>r. init_bcache (sblock s) (m\<lparr>disk := disk s\<rparr>) = Ok r \<and>
      (\<forall>n. n \<notin> log_area ?ls ?nl \<longrightarrow> disk r n = disk s n)" for m
    using init_bcache_ok [of "sblock s" "disk s" m] by auto
  then show ?thesis using e True by (intro exI [of _ s'] exI [of _ "[]"]) (auto simp: commit_writes_def)
next
  case False
  let ?ls = "log_start s" let ?nl = "log_blocks s" let ?ws = "commit_writes s"
  obtain s' where e: "cache_end_op t c s = Ok (True, s')" "trace s' = trace s @ ?ws"
    "disk s' = apply_writes ?ws (disk s)"
    by (rule cache_end_op_last [OF assms(1,2,4-6)])
  note cd = commit_disk [OF assms(1) False]
  have dur: "\<forall>n\<in>set (logged s). disk s' n = lview s n" by (simp add: e(3) cd(1))
  have new: "disk s' n = after_commit s n" if "n \<notin> log_area ?ls ?nl" for n
    using that cd(1,2) by (simp add: e(3) after_commit_def)
  have "\<exists>r. init_bcache (sblock s) (m\<lparr>disk := apply_writes (take k ?ws) (disk s)\<rparr>) = Ok r \<and>
       ((\<forall>n. n \<notin> log_area ?ls ?nl \<longrightarrow> disk r n = disk s n) \<or>
        (\<forall>n. n \<notin> log_area ?ls ?nl \<longrightarrow> disk r n = disk s' n))" if k: "k \<le> length ?ws" for k m
  proof -
    let ?d = "apply_writes (take k ?ws) (disk s)"
    note cv = crash_view [OF assms(1-3) k False]
    obtain r where r: "init_bcache (sblock s) (m\<lparr>disk := ?d\<rparr>) = Ok r"
      "\<forall>n. n \<notin> log_area ?ls ?nl \<longrightarrow> disk r n = rview ?ls ?d n"
      using init_bcache_ok [of "sblock s" ?d m] cv by blast
    then show ?thesis using cv new by (cases "k \<le> length (logged s)") simp_all
  qed
  then show ?thesis using e dur by blast
qed

text \<open>
  C12: recovery is idempotent. If the machine stops after any number of the device writes of
  \<open>init_bcache\<close> on a disk with a sound log, the next \<open>init_bcache\<close> leaves the same contents outside the
  log area as an undisturbed one, and an empty log.
\<close>

theorem recovery_idempotent:
  assumes "log_disk_ok (unat (sb_log_start sb)) (unat (sb_num_log_blocks sb)) d"
  shows "\<exists>r ws. init_bcache sb (m\<lparr>disk := d\<rparr>) = Ok r \<and> trace r = trace m @ ws \<and> disk r = apply_writes ws d \<and>
    (\<forall>k\<le>length ws. \<forall>m'. \<exists>r'. init_bcache sb (m'\<lparr>disk := apply_writes (take k ws) d\<rparr>) = Ok r' \<and>
       committed (unat (sb_log_start sb)) (disk r') = [] \<and>
       (\<forall>n. n \<notin> log_area (unat (sb_log_start sb)) (unat (sb_num_log_blocks sb)) \<longrightarrow> disk r' n = disk r n))"
proof -
  let ?ls = "unat (sb_log_start sb)" let ?nl = "unat (sb_num_log_blocks sb)" let ?n = "length (committed ?ls d)"
  let ?ws = "copy_writes ?ls d ?n @ [(?ls, clear_header (disk_header ?ls d))]"
  obtain r where r: "init_bcache sb (m\<lparr>disk := d\<rparr>) = Ok r" "disk r = apply_writes ?ws d" "trace r = trace m @ ?ws"
    "\<forall>n. n \<notin> log_area ?ls ?nl \<longrightarrow> disk r n = rview ?ls d n"
    using init_bcache_ok [OF assms, of m] by auto
  have "\<exists>r'. init_bcache sb (m'\<lparr>disk := apply_writes (take k ?ws) d\<rparr>) = Ok r' \<and>
       committed ?ls (disk r') = [] \<and> (\<forall>n. n \<notin> log_area ?ls ?nl \<longrightarrow> disk r' n = disk r n)"
    if k: "k \<le> length ?ws" for k m'
  proof -
    let ?d = "apply_writes (take k ?ws) d"
    have "log_disk_ok ?ls ?nl ?d \<and> (\<forall>n. n \<notin> log_area ?ls ?nl \<longrightarrow> rview ?ls ?d n = rview ?ls d n)"
    proof (cases "k \<le> ?n")
      case True
      then have "take k ?ws = copy_writes ?ls d k" by (simp add: copy_writes_def take_map)
      then show ?thesis
        using copy_writes_disk(2-4) [OF assms True] assms log_area_mem(2) [of ?ls ?nl]
        by (simp add: log_disk_ok_def disk_header_def)
    next
      case False
      then have "take k ?ws = ?ws" using k by (simp add: copy_writes_def)
      then show ?thesis using recovered_disk [OF assms] by (simp add: rview_none)
    qed
    then show ?thesis using init_bcache_ok [of sb ?d m'] r(4) by auto
  qed
  then show ?thesis using r by blast
qed

text \<open>
  C13: in every interleaving of atomic operations, the blocks in the log and the quotas still
  held by running operations fit together both into the log that the super block describes and into its header; the log
  counters describe exactly the running operations, no operation runs while a commit is under way, outside of a commit
  the log is empty when no operation runs, and a
  running operation that has quota left, or whose block is already logged, can synchronise it.
\<close>

theorem log_admission_safe:
  assumes "op_reachable s"
  shows "int (lh_num_blocks (header (op_cache s))) + quota s \<le> max_size (log (op_cache s)) \<and>
    max_size (log (op_cache s)) = int (min (unat (sb_num_log_blocks (sblock (op_cache s)) - 1)) LOG_MAX_SIZE) \<and>
    outstanding (log (op_cache s)) = int (length (running s)) \<and> log_used (log (op_cache s)) = quota s \<and>
    (committing (log (op_cache s)) \<longrightarrow> running s = []) \<and>
    (running s = [] \<and> \<not> committing (log (op_cache s)) \<longrightarrow> lh_num_blocks (header (op_cache s)) = 0) \<and>
    (\<forall>(t, c)\<in>set (running s). \<forall>n.
       rm c > 0 \<or> n \<in> set (logged (op_cache s)) \<longleftrightarrow> cache_sync (Some c) n (op_cache s) \<noteq> Panic)"
  using op_reachable_inv [OF assms] by (auto simp: op_inv_def Let_def cache_sync_def)

section \<open>Witnesses\<close>

text \<open>The super block that \<open>mkfs\<close> writes, with the log in the blocks 2 to 64 and the inodes from block 65 on.\<close>

abbreviation mkfs_sb :: SuperBlock where
  "mkfs_sb \<equiv> \<lparr>sb_num_blocks = 1000, sb_num_data_blocks = 908, sb_num_inodes = 200, sb_num_log_blocks = 63,
    sb_log_start = 2, sb_inode_start = 65, sb_bitmap_start = 91\<rparr>"

text \<open>A commit that changes the block of the root inode, block 65, and the first data block, block 92.\<close>

definition demo_header :: LogHeader where
  "demo_header = \<lparr>lh_num_blocks = 2, lh_block_no = 65 # 92 # replicate 61 0\<rparr>"

definition demo_block :: "nat \<Rightarrow> Block" where
  "demo_block n = \<lparr>b_no = n, b_acquired = False, b_pinned = True, b_lock = init_sleeplock,
     b_valid = True, b_data = replicate 512 1\<rparr>"

definition demo_commit :: cache where
  "demo_commit = (fresh_cache mkfs_sb (\<lambda>_. replicate 512 0))
     \<lparr>head := [demo_block 65, demo_block 92], cache_cnt := 2, header := demo_header,
      log := \<lparr>max_size = 62, outstanding = 1, log_used = 8, committing = False,
        log_sem = init_sem 0, log_commit_sem = init_sem 0\<rparr>\<rparr>"

lemma demo_commit_blocks:
  "block_at demo_commit n = (if n = 65 \<or> n = 92 then Some (demo_block n) else None)"
  "logged demo_commit = [65, 92]" "disk demo_commit = (\<lambda>_. replicate 512 0)" "sblock demo_commit = mkfs_sb"
  by (simp_all add: demo_commit_def demo_block_def block_at_def logged_def demo_header_def)

lemma demo_commit_ready: "commit_ready demo_commit" "wf_header (header demo_commit)"
proof -
  have "block_ok (demo_block n)" for n by (simp add: block_ok_def demo_block_def sem_inv_init)
  moreover have "lru_ok demo_commit" by (simp add: lru_ok_def demo_commit_def demo_block_def)
  moreover have "pinned demo_commit = {65, 92}" "held demo_commit = {}"
    by (auto simp: pinned_def held_def demo_commit_blocks demo_block_def split: if_splits)
  moreover have "header demo_commit = demo_header" by (simp add: demo_commit_def)
  ultimately show "commit_ready demo_commit" "wf_header (header demo_commit)"
    by (auto simp: commit_ready_def cache_inv_def blocks_ok_def coherent_def log_ok_def wf_header_def
        demo_commit_blocks log_area_def demo_header_def demo_block_def split: if_splits)
qed

lemma zero_block_log: "committed ls (\<lambda>_. replicate 512 0) = []"
  by (simp add: committed_def disk_header_def dec_header_def dec_usize_def)

theorem commit_crash_atomic_witness:
  "\<exists>s' ws. cache_end_op 0 \<lparr>rm = 8, ts = 0\<rparr> demo_commit = Ok (True, s') \<and>
     disk s' = apply_writes ws (disk demo_commit) \<and> disk s' 65 = replicate 512 1 \<and> disk s' 92 = replicate 512 1 \<and>
     (\<forall>k\<le>length ws. \<forall>m. \<exists>r. init_bcache mkfs_sb (m\<lparr>disk := apply_writes (take k ws) (disk demo_commit)\<rparr>) = Ok r \<and>
        (disk r 65 = replicate 512 0 \<and> disk r 92 = replicate 512 0 \<or>
         disk r 65 = replicate 512 1 \<and> disk r 92 = replicate 512 1))"
proof -
  have l: "lview demo_commit 65 = replicate 512 1" "lview demo_commit 92 = replicate 512 1"
    "65 \<notin> log_area 2 63" "92 \<notin> log_area 2 63"
    by (simp_all add: lview_def demo_commit_blocks demo_block_def log_area_def)
  have "committed (log_start demo_commit) (disk demo_commit) = []"
    by (simp add: demo_commit_blocks zero_block_log)
  moreover have "outstanding (log demo_commit) = 1" "sem_inv (log_sem (log demo_commit))"
    "sem_inv (log_commit_sem (log demo_commit))"
    by (simp_all add: demo_commit_def sem_inv_init)
  ultimately obtain s' ws where e: "cache_end_op 0 \<lparr>rm = 8, ts = 0\<rparr> demo_commit = Ok (True, s')"
    "disk s' = apply_writes ws (disk demo_commit)" "\<forall>n\<in>set (logged demo_commit). disk s' n = lview demo_commit n"
    "\<forall>k\<le>length ws. \<forall>m. \<exists>r. init_bcache (sblock demo_commit) (m\<lparr>disk := apply_writes (take k ws) (disk demo_commit)\<rparr>) = Ok r \<and>
       ((\<forall>n. n \<notin> log_area (log_start demo_commit) (log_blocks demo_commit) \<longrightarrow> disk r n = disk demo_commit n) \<or>
        (\<forall>n. n \<notin> log_area (log_start demo_commit) (log_blocks demo_commit) \<longrightarrow> disk r n = disk s' n))"
    using commit_crash_atomic [OF demo_commit_ready, of 0 "\<lparr>rm = 8, ts = 0\<rparr>"] by blast
  have d: "disk s' 65 = replicate 512 1" "disk s' 92 = replicate 512 1" using e(3) l by (simp_all add: demo_commit_blocks)
  have "\<exists>r. init_bcache mkfs_sb (m\<lparr>disk := apply_writes (take k ws) (disk demo_commit)\<rparr>) = Ok r \<and>
      (disk r 65 = replicate 512 0 \<and> disk r 92 = replicate 512 0 \<or> disk r 65 = replicate 512 1 \<and> disk r 92 = replicate 512 1)"
    if k: "k \<le> length ws" for k m
  proof -
    obtain r where r: "init_bcache mkfs_sb (m\<lparr>disk := apply_writes (take k ws) (disk demo_commit)\<rparr>) = Ok r"
      "(\<forall>n. n \<notin> log_area 2 63 \<longrightarrow> disk r n = replicate 512 0) \<or> (\<forall>n. n \<notin> log_area 2 63 \<longrightarrow> disk r n = disk s' n)"
      using e(4) [rule_format, OF k, of m] by (auto simp: demo_commit_blocks)
    from r(2) have "disk r 65 = replicate 512 0 \<and> disk r 92 = replicate 512 0 \<or> disk r 65 = replicate 512 1 \<and> disk r 92 = replicate 512 1"
      using l(3,4) d by metis
    with r(1) show ?thesis by blast
  qed
  then show ?thesis using e(1,2) d by blast
qed

text \<open>A disk with a committed log whose blocks, among them that of the root inode, have not reached their homes.\<close>

definition demo_crash_disk :: "nat \<Rightarrow> u8 list" where
  "demo_crash_disk = (\<lambda>_. replicate 512 0)(2 := enc_header demo_header, 3 := replicate 512 7, 4 := replicate 512 8)"

lemma demo_crash_log: "log_disk_ok 2 63 demo_crash_disk" "rview 2 demo_crash_disk 65 = replicate 512 7"
  "committed 2 demo_crash_disk = [65, 92]"
proof -
  have "wf_header demo_header" by (simp add: wf_header_def demo_header_def)
  note c = committed_header [OF this, of demo_crash_disk 2]
  show c': "committed 2 demo_crash_disk = [65, 92]" using c(1) by (simp add: demo_crash_disk_def demo_header_def)
  moreover have "disk_header 2 demo_crash_disk = demo_header" using c(2) by (simp add: demo_crash_disk_def)
  ultimately show "log_disk_ok 2 63 demo_crash_disk" by (simp add: log_disk_ok_def log_area_def demo_header_def)
  show "rview 2 demo_crash_disk 65 = replicate 512 7"
    using rview_committed [of 2 demo_crash_disk 0] c' by (simp add: demo_crash_disk_def)
qed

theorem recovery_idempotent_witness:
  "committed 2 demo_crash_disk = [65, 92] \<and> (\<exists>r ws. init_bcache mkfs_sb (demo_commit\<lparr>disk := demo_crash_disk\<rparr>) = Ok r \<and>
     disk r = apply_writes ws demo_crash_disk \<and>
     (\<forall>k\<le>length ws. \<exists>r'. init_bcache mkfs_sb (demo_commit\<lparr>disk := apply_writes (take k ws) demo_crash_disk\<rparr>) = Ok r' \<and>
        committed 2 (disk r') = [] \<and> disk r' 65 = disk r 65 \<and> disk r' 92 = disk r 92))"
proof -
  have s: "unat (sb_log_start mkfs_sb) = 2" "unat (sb_num_log_blocks mkfs_sb) = 63" by simp_all
  have l: "(65::nat) \<notin> log_area 2 63" "(92::nat) \<notin> log_area 2 63" by (simp_all add: log_area_def)
  obtain r ws where "init_bcache mkfs_sb (demo_commit\<lparr>disk := demo_crash_disk\<rparr>) = Ok r" "disk r = apply_writes ws demo_crash_disk"
    "\<forall>k\<le>length ws. \<forall>m'. \<exists>r'. init_bcache mkfs_sb (m'\<lparr>disk := apply_writes (take k ws) demo_crash_disk\<rparr>) = Ok r' \<and>
       committed 2 (disk r') = [] \<and> (\<forall>n. n \<notin> log_area 2 63 \<longrightarrow> disk r' n = disk r n)"
    using recovery_idempotent [of mkfs_sb demo_crash_disk demo_commit] demo_crash_log(1) unfolding s by blast
  then show ?thesis using l demo_crash_log(3) by blast
qed

text \<open>A cache that has been initialised, has admitted one operation and then commits it.\<close>

theorem log_admission_safe_witness:
  "\<exists>s s'. op_reachable s \<and> length (running s) = 1 \<and> quota s = 10 \<and> outstanding (log (op_cache s)) = 1 \<and>
     op_reachable s' \<and> committing (log (op_cache s')) \<and> running s' = []"
proof -
  obtain x where x: "init_bcache mkfs_sb (demo_commit\<lparr>disk := demo_crash_disk\<rparr>) = Ok x"
    using init_bcache_ok [of mkfs_sb demo_crash_disk demo_commit] demo_crash_log by auto
  define s0 where "s0 = \<lparr>op_cache = x, running = []\<rparr>"
  have r0: "op_reachable s0" unfolding s0_def using x by (rule op_init)
  have l: "log_used (log x) = 0" "lh_num_blocks (header x) = 0" "\<not> committing (log x)" "max_size (log x) = 62"
    using x by (auto simp: init_bcache_def Let_def bnd_eq_Ok dest!: recover_keeps)
  obtain c y where b: "cache_begin_op 5 \<lparr>rm = 0, ts = 0\<rparr> x = (True, c, y)" "rm c = 10"
    using l by (simp add: cache_begin_op_def Let_def)
  define s1 where "s1 = \<lparr>op_cache = y, running = [(5, c)]\<rparr>"
  have "op_step s0 s1"
    using op_begin [of 5 "\<lparr>rm = 0, ts = 0\<rparr>" s0 c y] b(1) by (simp add: s0_def s1_def)
  then have r1: "op_reachable s1" by (rule op_next [OF r0])
  have o: "length (running s1) = 1" "quota s1 = 10" "outstanding (log (op_cache s1)) = 1"
    using log_admission_safe [OF r1] b(2) by (simp_all add: s1_def quota_def)
  define s2 where "s2 = \<lparr>op_cache = end_op_start c y, running = []\<rparr>"
  have "op_step s1 s2"
    using op_commit [of s1 "[]" 5 c "[]"] o(3) by (simp add: s1_def s2_def)
  then have r2: "op_reachable s2" by (rule op_next [OF r1])
  have "committing (log (op_cache s2))" by (simp add: s2_def end_op_start_def)
  then show ?thesis using r1 o r2 log_admission_safe [OF r2] by blast
qed

end
