(* ===== verification/Inode_Base.thy ===== *)
theory Inode_Base
  imports Fs_Defs Sync
begin

text \<open>
  The in-memory inode (\<open>fs/inode.h\<close>) and the operations on its sleep lock, which the inode
  layer and the console share.
\<close>

record Inode =
  i_lock :: Semaphore
  i_rc :: RefCount
  i_no :: nat
  i_valid :: bool
  i_entry :: InodeEntry

text \<open>An entry of zero bytes, as \<open>memset\<close> leaves it.\<close>

definition zero_entry :: InodeEntry where
  "zero_entry = \<lparr>i_type = 0, i_major = 0, i_minor = 0, i_num_links = 0, i_num_bytes = 0,
     i_addrs = replicate INODE_NUM_DIRECT 0, i_indirect = 0\<rparr>"

text \<open>\<open>kalloc\<close> does not clear memory, so \<open>init_inode\<close> keeps the old entry.\<close>

definition init_inode :: "InodeEntry \<Rightarrow> Inode" where
  "init_inode e = \<lparr>i_lock = init_sleeplock, i_rc = init_rc, i_no = 0, i_valid = False, i_entry = e\<rparr>"

definition inode_lock :: "nat \<Rightarrow> Inode \<Rightarrow> Inode res" where
  "inode_lock t ip =
     bnd (assert (i_rc ip > 0)) (\<lambda>_.
       let (passed, sem) = wait_sem t (i_lock ip)
       in if passed then Ok (ip\<lparr>i_lock := sem\<rparr>) else Blocked)"

text \<open>The thread handed to \<open>activate_proc\<close>, if any, is returned with the inode.\<close>

definition inode_unlock :: "Inode \<Rightarrow> (nat option \<times> Inode) res" where
  "inode_unlock ip =
     bnd (assert (i_rc ip > 0)) (\<lambda>_.
     bnd (post_sem (i_lock ip)) (\<lambda>(woken, sem). Ok (woken, ip\<lparr>i_lock := sem\<rparr>)))"

text \<open>A thread that holds the lock of a referenced inode, with no other thread waiting.\<close>

definition locked_alone :: "Inode \<Rightarrow> bool" where
  "locked_alone ip \<longleftrightarrow> i_rc ip > 0 \<and> i_lock ip = \<lparr>val = 0, sleeplist = []\<rparr>"

lemma unlock_lock:
  assumes "locked_alone ip"
  shows "inode_unlock ip = Ok (None, ip\<lparr>i_lock := init_sleeplock\<rparr>)"
    "inode_lock t (ip\<lparr>i_lock := init_sleeplock\<rparr>) = Ok ip"
  using assms
  by (cases ip, simp_all add: locked_alone_def inode_unlock_def inode_lock_def post_sem_def wait_sem_def
      init_sem_def Let_def)+

end
