(* ===== verification/Console.thy ===== *)
theory Console
  imports Inode_Base
begin

text \<open>
  The console line discipline (\<open>kernel/console.c\<close>). The ring buffer indices are 64-bit words, so
  that the decrements below zero wrap as in the source. Characters sent to
  the UART are appended to \<^term>\<open>uart_out\<close> (\<open>uart_put_char\<close> adds a carriage return after a newline).
\<close>

section \<open>State\<close>

abbreviation INPUT_BUF :: u64 where "INPUT_BUF \<equiv> 128"
abbreviation BACKSPACE :: u8 where "BACKSPACE \<equiv> 127"

definition Ctrl :: "u8 \<Rightarrow> u8" where
  "Ctrl x = x - 64"

abbreviation chr_D :: u8 where "chr_D \<equiv> 68"
abbreviation chr_U :: u8 where "chr_U \<equiv> 85"
abbreviation chr_C :: u8 where "chr_C \<equiv> 67"
abbreviation newline :: u8 where "newline \<equiv> 10"

record console =
  buf :: "u8 list"
  rd :: u64
  wr :: u64
  ed :: u64
  can_read_sem :: Semaphore
  uart_out :: "u8 list"
  con_woken :: "nat list"
  killed :: "int list"

definition init_console :: "console \<Rightarrow> console" where
  "init_console c = c\<lparr>can_read_sem := init_sem 0\<rparr>"

definition uart_put_char :: "u8 \<Rightarrow> console \<Rightarrow> console" where
  "uart_put_char ch c = c\<lparr>uart_out := uart_out c @ (if ch = newline then [newline, 13] else [ch])\<rparr>"

definition buf_at :: "u64 \<Rightarrow> console \<Rightarrow> u8" where
  "buf_at i c = buf c ! unat i"

section \<open>Output\<close>

definition console_write :: "nat \<Rightarrow> Inode \<Rightarrow> u8 list \<Rightarrow> console \<Rightarrow> (nat \<times> Inode \<times> console) res" where
  "console_write t ip src c =
     bnd (inode_unlock ip) (\<lambda>(w, ip).
     let c = c\<lparr>con_woken := con_woken c @ (case w of None \<Rightarrow> [] | Some u \<Rightarrow> [u])\<rparr>;
         c = fold (\<lambda>ch c. uart_put_char (ch AND 0xff) c) src c
     in bnd (inode_lock t ip) (\<lambda>ip. Ok (length src, ip, c)))"

section \<open>Input\<close>

text \<open>
  The loop of \<open>console_read\<close>: \<open>n\<close> characters are still wanted of \<open>target\<close>. \<open>CAsleep\<close> is a thread
  that has gone to sleep on \<open>can_read_sem\<close>; when it is woken it continues in \<open>console_take\<close>.
\<close>

datatype con_result = CDone "u8 list" console | CAsleep nat "u8 list" console

fun console_take :: "nat \<Rightarrow> nat \<Rightarrow> nat \<Rightarrow> u8 list \<Rightarrow> console \<Rightarrow> con_result"
  and console_loop :: "nat \<Rightarrow> nat \<Rightarrow> nat \<Rightarrow> u8 list \<Rightarrow> console \<Rightarrow> con_result" where
  "console_loop t target 0 dst c = CDone dst c"
| "console_loop t target (Suc n) dst c =
     (if rd c = wr c
      then let (passed, sem) = wait_sem t (can_read_sem c);
               c = c\<lparr>can_read_sem := sem\<rparr>
           in if passed then console_take t target (Suc n) dst c else CAsleep (Suc n) dst c
      else console_take t target (Suc n) dst c)"
| "console_take t target 0 dst c = CDone dst c"
| "console_take t target (Suc n) dst c =
     (let c = c\<lparr>rd := (rd c + 1) mod INPUT_BUF\<rparr>;
          ch = buf_at (rd c) c
      in if ch = Ctrl chr_D
         then CDone dst (if Suc n < target then c\<lparr>rd := rd c - 1\<rparr> else c)
         else if ch = newline then CDone (dst @ [ch]) c
         else console_loop t target n (dst @ [ch]) c)"

definition console_read :: "nat \<Rightarrow> Inode \<Rightarrow> nat \<Rightarrow> console \<Rightarrow> (u8 list \<times> Inode \<times> console) res" where
  "console_read t ip n c =
     bnd (inode_unlock ip) (\<lambda>(w, ip).
     let c = c\<lparr>con_woken := con_woken c @ (case w of None \<Rightarrow> [] | Some u \<Rightarrow> [u])\<rparr> in
     case console_loop t n n [] c of
       CAsleep _ _ _ \<Rightarrow> Blocked
     | CDone dst c \<Rightarrow> bnd (inode_lock t ip) (\<lambda>ip. Ok (dst, ip, c)))"

section \<open>Interrupt\<close>

definition erase_one :: "console \<Rightarrow> console" where
  "erase_one c =
     uart_put_char 8 (uart_put_char 32 (uart_put_char 8 (c\<lparr>ed := (ed c - 1) mod INPUT_BUF\<rparr>)))"

text \<open>The loop of \<open>^U\<close>: at most one turn of the ring, so 128 steps are enough fuel.\<close>

fun kill_line :: "nat \<Rightarrow> console \<Rightarrow> console" where
  "kill_line 0 c = c"
| "kill_line (Suc fuel) c =
     (if ed c \<noteq> wr c \<and> buf_at ((ed c - 1) mod INPUT_BUF) c \<noteq> newline
      then kill_line fuel (erase_one c) else c)"

definition store_char :: "u8 \<Rightarrow> console \<Rightarrow> console" where
  "store_char ch c =
     (let c = c\<lparr>ed := (ed c + 1) mod INPUT_BUF\<rparr>;
          c = c\<lparr>buf := (buf c)[unat (ed c) := ch]\<rparr>
      in uart_put_char ch c)"

definition commit_line :: "console \<Rightarrow> console res" where
  "commit_line c =
     (let c = c\<lparr>wr := ed c\<rparr> in
      bnd (post_sem (can_read_sem c)) (\<lambda>(w, sem).
        Ok (c\<lparr>can_read_sem := sem, con_woken := con_woken c @ (case w of None \<Rightarrow> [] | Some u \<Rightarrow> [u])\<rparr>)))"

text \<open>
  One character of \<open>console_intr\<close>; \<open>pid\<close> is the process that was interrupted and \<open>kill\<close> gives the value that the
  function of this name in \<open>kernel/proc.c\<close> returns; the processes that were killed are recorded in \<^term>\<open>killed\<close>.
\<close>

definition kill_message :: "u8 list" where
  "kill_message = map of_char ('' cannot kill idle or root or shell'' @ [CHR 0x0A])"

definition console_char :: "(int \<Rightarrow> int) \<Rightarrow> int \<Rightarrow> u8 \<Rightarrow> console \<Rightarrow> console res" where
  "console_char kill pid ch c =
     (let ch = (if ch = 13 then newline else ch) in
      if ch = BACKSPACE then Ok (if ed c \<noteq> wr c then erase_one c else c)
      else if ch = Ctrl chr_U then Ok (kill_line 128 c)
      else if ch = Ctrl chr_D then
        (if (ed c + 1) mod INPUT_BUF = rd c then Ok c else commit_line (store_char ch c))
      else if ch = Ctrl chr_C then
        (let c = uart_put_char chr_C (uart_put_char 94 c) in
         if pid = -1 \<or> pid = 0 \<or> pid = 1 then Ok (fold uart_put_char kill_message c)
         else bnd (assert (kill pid \<noteq> -1)) (\<lambda>_. Ok (c\<lparr>killed := killed c @ [pid]\<rparr>)))
      else
        (if (ed c + 1) mod INPUT_BUF = rd c then Ok c
         else let c = store_char ch c in
              if ch = newline \<or> (ed c + 1) mod INPUT_BUF = rd c then commit_line c else Ok c))"

text \<open>\<open>console_intr\<close>: characters until \<open>getc\<close> returns \<open>0xff\<close>.\<close>

fun console_intr :: "(int \<Rightarrow> int) \<Rightarrow> int \<Rightarrow> u8 list \<Rightarrow> console \<Rightarrow> console res" where
  "console_intr kill pid [] c = Ok c"
| "console_intr kill pid (ch # chs) c =
     (if ch = 0xff then Ok c else bnd (console_char kill pid ch c) (console_intr kill pid chs))"

section \<open>The ring buffer as a list\<close>

declare Ctrl_def [simp]

definition ring :: "u8 list \<Rightarrow> nat \<Rightarrow> nat \<Rightarrow> u8 list" where
  "ring b a n = map (\<lambda>i. b ! ((a + 1 + i) mod 128)) [0..<n]"

definition dist :: "nat \<Rightarrow> nat \<Rightarrow> nat" where
  "dist a b = (b + 128 - a) mod 128"

text \<open>The characters typed and not yet read, of which the first \<open>ready\<close> are visible to readers.\<close>

definition pending :: "console \<Rightarrow> u8 list" where
  "pending c = ring (buf c) (unat (rd c)) (dist (unat (rd c)) (unat (ed c)))"

definition ready :: "console \<Rightarrow> nat" where
  "ready c = dist (unat (rd c)) (unat (wr c))"

definition con_ok :: "console \<Rightarrow> bool" where
  "con_ok c \<longleftrightarrow> length (buf c) = 128 \<and> rd c < INPUT_BUF \<and> wr c < INPUT_BUF \<and> ed c < INPUT_BUF \<and>
     ready c \<le> dist (unat (rd c)) (unat (ed c)) \<and> sem_inv (can_read_sem c)"

lemma dist_less: "dist a b < 128"
  by (simp add: dist_def)

lemma dist_if: "a < 128 \<Longrightarrow> b < 128 \<Longrightarrow> dist a b = (if a \<le> b then b - a else b + 128 - a)"
  by (simp add: dist_def mod_if)

lemma succ_if: "b < 128 \<Longrightarrow> Suc b mod 128 = (if b = 127 then 0 else Suc b)"
  "b < 128 \<Longrightarrow> (b + 127) mod 128 = (if b = 0 then 127 else b - 1 :: nat)"
  by (simp_all add: mod_if)

lemma dist_shift:
  assumes "a < 128" "b < 128"
  shows "(a + dist a b) mod 128 = b" "dist a b = 0 \<longleftrightarrow> a = b"
    "dist a b < 127 \<Longrightarrow> dist a ((b + 1) mod 128) = dist a b + 1"
    "(b + 1) mod 128 = a \<longleftrightarrow> dist a b = 127"
    "a \<noteq> b \<Longrightarrow> dist ((a + 1) mod 128) b = dist a b - 1"
    "a \<noteq> b \<Longrightarrow> dist a ((b + 127) mod 128) = dist a b - 1"
proof -
  show "(a + dist a b) mod 128 = b" using assms by (simp add: dist_if mod_if)
  show "dist a b = 0 \<longleftrightarrow> a = b" using assms by (auto simp: dist_if)
  show "dist a b < 127 \<Longrightarrow> dist a ((b + 1) mod 128) = dist a b + 1"
    using assms by (auto simp: succ_if dist_if split: if_splits)
  show "(b + 1) mod 128 = a \<longleftrightarrow> dist a b = 127" using assms by (simp add: succ_if dist_if) arith
  show "a \<noteq> b \<Longrightarrow> dist ((a + 1) mod 128) b = dist a b - 1"
    using assms by (simp add: succ_if dist_if)
  show "a \<noteq> b \<Longrightarrow> dist a ((b + 127) mod 128) = dist a b - 1"
    using assms by (simp add: succ_if dist_if)
qed

lemma length_ring [simp]: "length (ring b a n) = n"
  by (simp add: ring_def)

lemma ring_take: "m \<le> n \<Longrightarrow> take m (ring b a n) = ring b a m"
  by (simp add: ring_def take_map)

lemma ring_Cons: "ring b a (Suc n) = b ! ((a + 1) mod 128) # ring b ((a + 1) mod 128) n"
proof -
  have "(a + 1 + Suc i) mod 128 = ((a + 1) mod 128 + 1 + i) mod 128" for i
    by (simp only: add.assoc mod_add_left_eq) simp
  then have "map (\<lambda>i. b ! ((a + 1 + i) mod 128)) [1..<Suc n] = ring b ((a + 1) mod 128) n"
    unfolding ring_def by (simp only: map_Suc_upt [symmetric] map_map comp_def One_nat_def)
  then show ?thesis by (simp add: ring_def upt_conv_Cons del: upt_Suc)
qed

lemma ring_update:
  assumes "n < 128" "length b = 128" "k = (a + 1 + n) mod 128"
  shows "ring (b[k := ch]) a (Suc n) = ring b a n @ [ch]"
proof -
  have "k \<noteq> (a + 1 + i) mod 128" if "i < n" for i
  proof
    assume "k = (a + 1 + i) mod 128"
    then have "(a + 1 + i) mod 128 = (a + 1 + n) mod 128" using assms(3) by simp
    then have "128 dvd (n - i)" using that by (metis add_diff_cancel_left less_imp_le mod_eq_dvd_iff_nat
      nat_add_left_cancel_le)
    then show False using that assms(1) by (auto dest: dvd_imp_le)
  qed
  then have "ring (b[k := ch]) a n = ring b a n" unfolding ring_def by (intro map_cong refl) simp
  then show ?thesis using assms by (simp add: ring_def)
qed

lemma u64_index:
  assumes "(x :: u64) < INPUT_BUF"
  shows "unat ((x + 1) mod INPUT_BUF) = (unat x + 1) mod 128" "(x + 1) mod INPUT_BUF < INPUT_BUF"
    "unat ((x - 1) mod INPUT_BUF) = (unat x + 127) mod 128" "(x - 1) mod INPUT_BUF < INPUT_BUF" "unat x < 128"
proof -
  show x: "unat x < 128" using assms by (simp add: word_less_nat_alt)
  show "unat ((x + 1) mod INPUT_BUF) = (unat x + 1) mod 128"
    using x by (simp add: unat_mod unat_word_ariths(1))
  show "unat ((x - 1) mod INPUT_BUF) = (unat x + 127) mod 128"
    using x by (cases "x = 0") (simp_all add: unat_mod unat_sub_if' mod_if unat_gt_0 Suc_le_eq)
  show "(x + 1) mod INPUT_BUF < INPUT_BUF" "(x - 1) mod INPUT_BUF < INPUT_BUF"
    by (simp_all add: word_less_nat_alt unat_mod)
qed

section \<open>Refinement\<close>

text \<open>The line discipline on the list of unread characters and the number of readable ones.\<close>

text \<open>
  What \<open>^U\<close> leaves of the line \<open>xs\<close> that is being edited behind the character \<open>prev\<close>: the loop looks at the character before the
  one it would erase, so a character right after a newline stays.
\<close>

fun clear_line :: "u8 \<Rightarrow> u8 list \<Rightarrow> u8 list" where
  "clear_line prev [] = []"
| "clear_line prev (x # xs) =
     (let ys = clear_line x xs in if ys = [] \<and> prev \<noteq> newline then [] else x # ys)"

definition type_char :: "u8 \<Rightarrow> u8 \<Rightarrow> u8 list \<times> nat \<Rightarrow> u8 list \<times> nat" where
  "type_char prev ch0 = (\<lambda>(p, k). let ch = (if ch0 = 13 then newline else ch0) in
     if ch = BACKSPACE then (if k < length p then (butlast p, k) else (p, k))
     else if ch = Ctrl chr_U then (take k p @ clear_line prev (drop k p), k)
     else if ch = Ctrl chr_C \<or> length p = 127 then (p, k)
     else (p @ [ch], if ch = Ctrl chr_D \<or> ch = newline \<or> length p = 126 then length p + 1 else k))"

lemma clear_line_snoc:
  "clear_line prev (xs @ [x]) = (if last (prev # xs) = newline then xs @ [x] else clear_line prev xs)"
  by (induction xs arbitrary: prev) (auto simp: Let_def)

lemma clear_line_one: "newline \<notin> set xs \<Longrightarrow> clear_line prev xs = (if prev = newline then take 1 xs else [])"
proof (induction xs arbitrary: prev)
  case (Cons x xs)
  then have "clear_line x xs = []" by auto
  then show ?case by simp
qed simp

lemma uart_put_char_keeps [simp]:
  "buf (uart_put_char ch c) = buf c" "rd (uart_put_char ch c) = rd c" "wr (uart_put_char ch c) = wr c"
  "ed (uart_put_char ch c) = ed c" "can_read_sem (uart_put_char ch c) = can_read_sem c"
  "pending (uart_put_char ch c) = pending c" "ready (uart_put_char ch c) = ready c"
  "con_ok (uart_put_char ch c) = con_ok c" "killed (uart_put_char ch c) = killed c"
  by (simp_all add: uart_put_char_def pending_def ready_def con_ok_def)

lemma uart_put_string_keeps [simp]:
  "pending (fold uart_put_char cs c) = pending c" "ready (fold uart_put_char cs c) = ready c"
  "con_ok (fold uart_put_char cs c) = con_ok c" "killed (fold uart_put_char cs c) = killed c"
  by (induction cs arbitrary: c) simp_all

lemma length_pending: "length (pending c) = dist (unat (rd c)) (unat (ed c))"
  by (simp add: pending_def)

lemma con_okD:
  assumes "con_ok c"
  shows "length (buf c) = 128" "unat (rd c) < 128" "unat (wr c) < 128" "unat (ed c) < 128"
    "ready c \<le> length (pending c)" "sem_inv (can_read_sem c)" "length (pending c) \<le> 127"
  using assms u64_index(5) dist_less [of "unat (rd c)" "unat (ed c)"]
  by (auto simp: con_ok_def length_pending less_Suc_eq_le [symmetric])

lemma con_full:
  assumes "con_ok c" shows "(ed c + 1) mod INPUT_BUF = rd c \<longleftrightarrow> length (pending c) = 127"
proof -
  have "ed c < INPUT_BUF" using assms by (simp add: con_ok_def)
  note u = u64_index(1) [OF this]
  have "(ed c + 1) mod INPUT_BUF = rd c \<longleftrightarrow> (unat (ed c) + 1) mod 128 = unat (rd c)"
    by (metis u word_unat_eq_iff)
  then show ?thesis
    using dist_shift(4) [of "unat (rd c)" "unat (ed c)"] con_okD [OF assms] by (simp add: length_pending)
qed

lemma store_char_ok:
  assumes ok: "con_ok c" and room: "length (pending c) < 127"
  shows "pending (store_char ch c) = pending c @ [ch]" "ready (store_char ch c) = ready c"
    "con_ok (store_char ch c)" "killed (store_char ch c) = killed c"
proof -
  note d = con_okD [OF ok]
  have e: "ed c < INPUT_BUF" using ok by (simp add: con_ok_def)
  define k where "k = (unat (ed c) + 1) mod 128"
  have k: "unat ((ed c + 1) mod INPUT_BUF) = k" by (simp add: u64_index(1) [OF e] k_def)
  let ?n = "dist (unat (rd c)) (unat (ed c))"
  have n: "?n < 127" using room by (simp add: length_pending)
  have dk: "dist (unat (rd c)) k = Suc ?n" using dist_shift(3) [OF d(2,4) n] by (simp add: k_def)
  have "unat (ed c) = (unat (rd c) + ?n) mod 128" by (rule dist_shift(1) [OF d(2,4), symmetric])
  then have "k = (unat (rd c) + 1 + ?n) mod 128"
    unfolding k_def using mod_add_left_eq [of "unat (rd c) + ?n" 128 1] by simp
  then have "ring ((buf c)[k := ch]) (unat (rd c)) (Suc ?n) = ring (buf c) (unat (rd c)) ?n @ [ch]"
    using ring_update [of ?n "buf c" k "unat (rd c)" ch] n d(1) by simp
  then show p: "pending (store_char ch c) = pending c @ [ch]"
    by (simp add: pending_def store_char_def Let_def k dk)
  show "killed (store_char ch c) = killed c" by (simp add: store_char_def Let_def)
  show r: "ready (store_char ch c) = ready c" by (simp add: ready_def store_char_def Let_def)
  have "length (pending (store_char ch c)) = length (pending c) + 1" using p by simp
  then show "con_ok (store_char ch c)"
    using ok r d(5) u64_index(2) [OF e]
    by (simp add: con_ok_def length_pending) (simp add: store_char_def Let_def)
qed

lemma commit_line_ok:
  assumes ok: "con_ok c"
  obtains c' where "commit_line c = Ok c'" "pending c' = pending c" "ready c' = length (pending c)" "con_ok c'"
    "rd c' = rd c" "killed c' = killed c"
proof -
  obtain w sem where p: "post_sem (can_read_sem c) = Ok (w, sem)" "sem_inv sem"
    using post_sem_ok [OF con_okD(6) [OF ok]] by blast
  then show thesis using that ok
    by (simp add: commit_line_def Let_def pending_def ready_def con_ok_def)
qed

lemma erase_one_ok:
  assumes ok: "con_ok c" and ne: "ed c \<noteq> wr c"
  shows "pending (erase_one c) = butlast (pending c)" "ready (erase_one c) = ready c" "con_ok (erase_one c)"
    "ready c < length (pending c)"
proof -
  note d = con_okD [OF ok]
  have e: "ed c < INPUT_BUF" "wr c < INPUT_BUF" "rd c < INPUT_BUF" using ok by (simp_all add: con_ok_def)
  have neu: "unat (ed c) \<noteq> unat (wr c)" using ne by (simp add: word_unat_eq_iff)
  have dw: "ready c \<noteq> dist (unat (rd c)) (unat (ed c))"
    using neu dist_shift(1) [OF d(2,3)] dist_shift(1) [OF d(2,4)] by (metis ready_def)
  then show lt: "ready c < length (pending c)" using d(5) by (simp add: length_pending)
  then have re: "unat (rd c) \<noteq> unat (ed c)" using dist_shift(2) [OF d(2,4)] by (simp add: length_pending)
  have l: "dist (unat (rd c)) (unat ((ed c - 1) mod INPUT_BUF)) = dist (unat (rd c)) (unat (ed c)) - 1"
    using dist_shift(6) [OF d(2,4) re] u64_index(3) [OF e(1)] by simp
  show p: "pending (erase_one c) = butlast (pending c)"
    by (simp add: pending_def erase_one_def l butlast_conv_take ring_take)
  show r: "ready (erase_one c) = ready c" by (simp add: erase_one_def ready_def)
  show "con_ok (erase_one c)"
    using ok r lt l u64_index(4) [OF e(1)]
    by (simp add: con_ok_def length_pending) (simp add: erase_one_def)
qed

lemma editing_iff: "con_ok c \<Longrightarrow> ed c \<noteq> wr c \<longleftrightarrow> ready c < length (pending c)"
  using erase_one_ok(4) [of c] by (auto simp: ready_def length_pending)

text \<open>The characters of the ring from the last readable one on.\<close>

lemma ring_char:
  assumes ok: "con_ok c" and j: "ready c \<le> j" "j \<le> length (pending c)"
  shows "buf c ! ((unat (rd c) + j) mod 128) = (if j = ready c then buf_at (wr c) c else pending c ! (j - 1))"
proof (cases "j = ready c")
  case True
  then show ?thesis using dist_shift(1) [OF con_okD(2,3) [OF ok]] by (simp add: buf_at_def ready_def)
next
  case False
  then obtain i where i: "j = Suc i" using j by (cases j) auto
  then have "i < dist (unat (rd c)) (unat (ed c))" using j by (simp add: length_pending)
  then show ?thesis using False by (simp add: i pending_def ring_def)
qed

lemma before_last:
  assumes ok: "con_ok c" and ne: "ed c \<noteq> wr c"
  shows "buf_at ((ed c - 1) mod INPUT_BUF) c = last (buf_at (wr c) c # butlast (drop (ready c) (pending c)))"
proof -
  let ?n = "length (pending c)" let ?k = "ready c"
  have k: "?k < ?n" using erase_one_ok(4) [OF ok ne] .
  have e: "ed c < INPUT_BUF" using ok by (simp add: con_ok_def)
  have "unat (ed c) = (unat (rd c) + ?n) mod 128" using dist_shift(1) [OF con_okD(2,4) [OF ok]] by (simp add: length_pending)
  then have "unat ((ed c - 1) mod INPUT_BUF) = ((unat (rd c) + ?n) mod 128 + 127) mod 128" using u64_index(3) [OF e] by simp
  also have "\<dots> = (unat (rd c) + ?n + 127) mod 128" by (rule mod_add_left_eq)
  also have "unat (rd c) + ?n + 127 = (unat (rd c) + (?n - 1)) + 128" using k by simp
  finally have "unat ((ed c - 1) mod INPUT_BUF) = (unat (rd c) + (?n - 1)) mod 128" by simp
  then have "buf_at ((ed c - 1) mod INPUT_BUF) c = (if ?n - 1 = ?k then buf_at (wr c) c else pending c ! (?n - 1 - 1))"
    using ring_char [OF ok, of "?n - 1"] k by (simp add: buf_at_def)
  moreover have "butlast (drop ?k (pending c)) = [] \<longleftrightarrow> ?n - 1 = ?k" using k by (auto simp: butlast_conv_take)
  moreover have "?n - 1 \<noteq> ?k \<Longrightarrow> last (butlast (drop ?k (pending c))) = pending c ! (?n - 1 - 1)"
    using k by (simp add: last_conv_nth butlast_conv_take numeral_2_eq_2)
  ultimately show ?thesis by simp
qed

lemma erase_one_fields [simp]: "buf (erase_one c) = buf c" "wr (erase_one c) = wr c" "killed (erase_one c) = killed c"
  by (simp_all add: erase_one_def)

lemma kill_line_ok:
  "con_ok c \<Longrightarrow> length (pending c) - ready c \<le> fuel \<Longrightarrow>
   pending (kill_line fuel c) = take (ready c) (pending c) @ clear_line (buf_at (wr c) c) (drop (ready c) (pending c)) \<and>
   ready (kill_line fuel c) = ready c \<and> con_ok (kill_line fuel c) \<and> killed (kill_line fuel c) = killed c"
proof (induction fuel arbitrary: c)
  case 0
  then show ?case by simp
next
  case (Suc fuel)
  let ?k = "ready c" let ?xs = "drop ?k (pending c)" let ?w = "buf_at (wr c) c"
  show ?case
  proof (cases "ed c = wr c")
    case True
    then have "length (pending c) \<le> ?k" using editing_iff [OF Suc.prems(1)] by simp
    then show ?thesis using True Suc.prems(1) by simp
  next
    case False
    note e = erase_one_ok [OF Suc.prems(1) False] and bl = before_last [OF Suc.prems(1) False]
    have ne: "?xs \<noteq> []" using e(4) by simp
    have sn: "clear_line ?w ?xs = (if last (?w # butlast ?xs) = newline then ?xs else clear_line ?w (butlast ?xs))"
      using clear_line_snoc [of ?w "butlast ?xs" "last ?xs"] append_butlast_last_id [OF ne] by simp
    show ?thesis
    proof (cases "last (?w # butlast ?xs) = newline")
      case True
      then show ?thesis using bl sn Suc.prems(1) by simp
    next
      case False2: False
      have f: "kill_line (Suc fuel) c = kill_line fuel (erase_one c)" using False False2 bl by simp
      have w: "buf_at (wr (erase_one c)) (erase_one c) = ?w" by (simp add: buf_at_def)
      have "pending (kill_line fuel (erase_one c)) = take ?k (butlast (pending c)) @ clear_line ?w (drop ?k (butlast (pending c))) \<and>
          ready (kill_line fuel (erase_one c)) = ?k \<and> con_ok (kill_line fuel (erase_one c)) \<and>
          killed (kill_line fuel (erase_one c)) = killed c"
        using Suc.IH [OF e(3)] Suc.prems(2) unfolding e(1,2) w by simp
      moreover have "take ?k (butlast (pending c)) = take ?k (pending c)" using e(4) by (simp add: take_butlast)
      ultimately show ?thesis unfolding f using sn False2 by (simp add: drop_butlast)
    qed
  qed
qed

lemma console_char_refines_aux:
  assumes ok: "con_ok c" and ch: "ch \<noteq> Ctrl chr_U" and kill: "ch = Ctrl chr_C \<and> pid \<notin> {-1, 0, 1} \<Longrightarrow> kill pid \<noteq> -1"
  shows "\<exists>c'. console_char kill pid ch c = Ok c' \<and> con_ok c' \<and>
    (pending c', ready c') = type_char prev ch (pending c, ready c) \<and>
    killed c' = killed c @ (if ch = Ctrl chr_C \<and> pid \<notin> {-1, 0, 1} then [pid] else [])"
proof -
  note full = con_full [OF ok] and ed = editing_iff [OF ok]
  define x where "x = (if ch = 13 then newline else ch)"
  have xU: "x \<noteq> Ctrl chr_U" using ch by (auto simp: x_def Ctrl_def)
  have xC: "ch = Ctrl chr_C \<longleftrightarrow> x = Ctrl chr_C" by (auto simp: x_def Ctrl_def)
  consider (bs) "x = BACKSPACE" | (cC) "x = Ctrl chr_C" | (store) "x \<noteq> BACKSPACE" "x \<noteq> Ctrl chr_C" by blast
  then show ?thesis
  proof cases
    case bs
    then show ?thesis using ok ed erase_one_ok [OF ok] xC
      by (simp add: console_char_def type_char_def Let_def flip: x_def)
  next
    case cC
    then have "x \<noteq> BACKSPACE" "x \<noteq> Ctrl chr_D" "x \<noteq> Ctrl chr_U" by (simp_all add: Ctrl_def)
    moreover have k: "con_ok (c\<lparr>killed := ks\<rparr>) = con_ok c" "pending (c\<lparr>killed := ks\<rparr>) = pending c"
      "ready (c\<lparr>killed := ks\<rparr>) = ready c" for c ks
      by (simp_all add: con_ok_def pending_def ready_def)
    ultimately show ?thesis using cC ok kill xC by (auto simp: console_char_def type_char_def Let_def simp flip: x_def)
  next
    case store
    show ?thesis
    proof (cases "length (pending c) = 127")
      case True
      then show ?thesis using store xU xC full ok by (simp add: console_char_def type_char_def Let_def flip: x_def)
    next
      case False
      then have room: "length (pending c) < 127" using con_okD(7) [OF ok] by simp
      note st = store_char_ok [OF ok room, of x]
      have full': "(ed (store_char x c) + 1) mod INPUT_BUF = rd (store_char x c) \<longleftrightarrow> length (pending c) = 126"
        using con_full [OF st(3)] st(1) by simp
      have nf: "(ed c + 1) mod INPUT_BUF \<noteq> rd c" using full False by simp
      obtain c' where c': "commit_line (store_char x c) = Ok c'" "pending c' = pending c @ [x]"
        "ready c' = length (pending c) + 1" "con_ok c'" "killed c' = killed c"
        using commit_line_ok [OF st(3)] st(1,4) by (metis length_append_singleton Suc_eq_plus1)
      have r: "console_char kill pid ch c =
          (if x = Ctrl chr_D \<or> x = newline \<or> length (pending c) = 126 then commit_line (store_char x c)
           else Ok (store_char x c))"
        using store xU nf full' by (simp add: console_char_def Let_def flip: x_def)
      have t: "type_char prev ch (pending c, ready c) =
          (pending c @ [x], if x = Ctrl chr_D \<or> x = newline \<or> length (pending c) = 126
             then length (pending c) + 1 else ready c)"
        using store xU False by (simp add: type_char_def Let_def flip: x_def)
      show ?thesis using r t c' st store xC by auto
    qed
  qed
qed

section \<open>Reading\<close>

lemma take_one:
  assumes ok: "con_ok c" and k: "ready c > 0"
  defines "c' \<equiv> c\<lparr>rd := (rd c + 1) mod INPUT_BUF\<rparr>"
  shows "buf_at (rd c') c' = hd (pending c)" "pending c' = tl (pending c)" "ready c' = ready c - 1" "con_ok c'"
    "pending c \<noteq> []" "rd c \<noteq> wr c"
proof -
  note d = con_okD [OF ok]
  have r: "rd c < INPUT_BUF" using ok by (simp add: con_ok_def)
  note u = u64_index(1) [OF r]
  show pn: "pending c \<noteq> []" using k d(5) by auto
  show "rd c \<noteq> wr c" using k dist_shift(2) [OF d(2,3)] by (auto simp: ready_def)
  have ne: "unat (rd c) \<noteq> unat (ed c)" "unat (rd c) \<noteq> unat (wr c)"
    using k d(5) dist_shift(2) [OF d(2,4)] dist_shift(2) [OF d(2,3)]
    by (auto simp: ready_def length_pending)
  have de: "dist ((unat (rd c) + 1) mod 128) (unat (ed c)) = dist (unat (rd c)) (unat (ed c)) - 1"
    and dw: "dist ((unat (rd c) + 1) mod 128) (unat (wr c)) = dist (unat (rd c)) (unat (wr c)) - 1"
    using dist_shift(5) [OF d(2,4) ne(1)] dist_shift(5) [OF d(2,3) ne(2)] by simp_all
  obtain n where n: "dist (unat (rd c)) (unat (ed c)) = Suc n"
    using pn length_pending [of c] by (cases "dist (unat (rd c)) (unat (ed c))") auto
  have p: "pending c = buf c ! ((unat (rd c) + 1) mod 128) # ring (buf c) ((unat (rd c) + 1) mod 128) n"
    by (simp only: pending_def n ring_Cons)
  show "buf_at (rd c') c' = hd (pending c)" using p u by (simp add: c'_def buf_at_def)
  show p': "pending c' = tl (pending c)" using p u de n by (simp add: c'_def pending_def)
  show r': "ready c' = ready c - 1" using u dw by (simp add: c'_def ready_def)
  have "ready c' \<le> length (pending c')" using r' p' d(5) by simp
  then show "con_ok c'" using ok u64_index(2) [OF r] by (simp add: con_ok_def length_pending c'_def)
qed

lemma console_loop_line:
  assumes "con_ok c" "pending c = xs @ newline # ys" "length xs < ready c" "length xs < n"
    and "newline \<notin> set xs" "Ctrl chr_D \<notin> set xs"
  shows "\<exists>c'. console_loop t target n dst c = CDone (dst @ xs @ [newline]) c' \<and> con_ok c' \<and>
    pending c' = ys \<and> ready c' = ready c - length xs - 1"
  using assms
proof (induction xs arbitrary: c n dst)
  case Nil
  define c' where "c' = c\<lparr>rd := (rd c + 1) mod INPUT_BUF\<rparr>"
  note t = take_one [OF Nil.prems(1), folded c'_def]
  obtain m where "n = Suc m" using Nil.prems(4) by (cases n) auto
  moreover have "newline \<noteq> Ctrl chr_D" by (simp add: Ctrl_def)
  ultimately show ?case using t Nil.prems(2,3) by (simp add: Let_def flip: c'_def)
next
  case (Cons x xs)
  define c' where "c' = c\<lparr>rd := (rd c + 1) mod INPUT_BUF\<rparr>"
  have "ready c > 0" using Cons.prems(3) by simp
  note t = take_one [OF Cons.prems(1) this, folded c'_def]
  obtain m where m: "n = Suc m" using Cons.prems(4) by (cases n) auto
  have x: "buf_at (rd c') c' = x" using t(1) Cons.prems(2) by simp
  have "console_loop t target n dst c = console_loop t target m (dst @ [x]) c'"
    using x t(6) Cons.prems(5,6) m by (simp add: Let_def flip: c'_def)
  moreover have "\<exists>c''. console_loop t target m (dst @ [x]) c' = CDone ((dst @ [x]) @ xs @ [newline]) c'' \<and>
      con_ok c'' \<and> pending c'' = ys \<and> ready c'' = ready c' - length xs - 1"
    by (rule Cons.IH) (use t Cons.prems m in auto)
  ultimately show ?case using t(3) by auto
qed

section \<open>Properties\<close>

text \<open>
  C17: the interrupt handler refines the line discipline on lists. A character is appended to
  the unread ones unless 127 of them are waiting, backspace removes the last character of the
  line being edited and never one that readers can already see, and a newline, an end-of-file
  character or a full buffer makes everything typed readable. \<open>^U\<close> erases the line being edited from its end, but
  because it looks at the character in front of the one it would erase, the first character of a line that follows a newline
  stays. \<open>^C\<close> kills the interrupted process, unless it is the idle process, the root process or the shell, and nothing else does;
  the assertion that \<open>kill\<close> found the process is the only one that can fail.
\<close>

theorem console_refines_line_discipline:
  assumes "con_ok c"
  shows "(if ch = Ctrl chr_C \<and> pid \<notin> {-1, 0, 1} \<and> kill pid = -1 then console_char kill pid ch c = Panic
    else \<exists>c'. console_char kill pid ch c = Ok c' \<and> con_ok c' \<and>
      (pending c', ready c') = type_char (buf_at (wr c) c) ch (pending c, ready c) \<and>
      killed c' = killed c @ (if ch = Ctrl chr_C \<and> pid \<notin> {-1, 0, 1} then [pid] else []) \<and>
      (ch = Ctrl chr_U \<and> newline \<notin> set (drop (ready c) (pending c)) \<longrightarrow>
        pending c' = take (ready c + (if buf_at (wr c) c = newline then 1 else 0)) (pending c)))"
proof (cases "ch = Ctrl chr_C \<and> pid \<notin> {-1, 0, 1} \<and> kill pid = -1")
  case True
  then show ?thesis by (simp add: console_char_def Let_def)
next
  case False
  show ?thesis
  proof (cases "ch = Ctrl chr_U")
    case True
    have "length (pending c) - ready c \<le> 128" using con_okD(7) [OF assms] by simp
    note k = kill_line_ok [OF assms this]
    have "take (ready c) (pending c) @ take n (drop (ready c) (pending c)) = take (ready c + n) (pending c)" for n
      by (simp add: take_add)
    then show ?thesis using True k
      by (simp add: console_char_def type_char_def Let_def clear_line_one)
  next
    case no_U: False
    then show ?thesis using False console_char_refines_aux [OF assms no_U, of pid kill "buf_at (wr c) c"] by auto
  qed
qed

definition empty_console :: console where
  "empty_console = \<lparr>buf = replicate 128 0, rd = 0, wr = 0, ed = 0, can_read_sem = init_sem 0,
     uart_out = [], con_woken = [], killed = []\<rparr>"

lemma empty_console_ok: "con_ok empty_console" "pending empty_console = []" "ready empty_console = 0"
  by (simp_all add: con_ok_def pending_def ready_def empty_console_def ring_def dist_def sem_inv_init)

text \<open>A console on which a line has been read and "ab" is being typed: \<open>^U\<close> leaves the "a".\<close>

definition typing_console :: console where
  "typing_console = empty_console\<lparr>buf := 0 # newline # 97 # 98 # replicate 124 0, rd := 1, wr := 1, ed := 3\<rparr>"

lemma typing_console_ok: "con_ok typing_console" "pending typing_console = [97, 98]" "ready typing_console = 0"
  "buf_at (wr typing_console) typing_console = newline"
  by (simp_all add: con_ok_def pending_def ready_def typing_console_def empty_console_def ring_def dist_def sem_inv_init buf_at_def upt_rec)

theorem console_refines_line_discipline_witness:
  "(\<exists>c'. console_char (\<lambda>_. 0) 7 65 empty_console = Ok c' \<and> pending c' = [65] \<and> ready c' = 0) \<and>
   (\<exists>c'. console_char (\<lambda>_. 0) 7 (Ctrl chr_U) typing_console = Ok c' \<and> pending c' = [97] \<and> ready c' = 0) \<and>
   (\<exists>c'. console_char (\<lambda>_. 0) 7 (Ctrl chr_C) typing_console = Ok c' \<and> killed c' = [7])"
proof (intro conjI)
  show "\<exists>c'. console_char (\<lambda>_. 0) 7 65 empty_console = Ok c' \<and> pending c' = [65] \<and> ready c' = 0"
    using console_refines_line_discipline [OF empty_console_ok(1), of 65 7 "\<lambda>_. 0"]
    by (auto simp: empty_console_ok type_char_def Let_def)
  show "\<exists>c'. console_char (\<lambda>_. 0) 7 (Ctrl chr_U) typing_console = Ok c' \<and> pending c' = [97] \<and> ready c' = 0"
    using console_refines_line_discipline [OF typing_console_ok(1), of "Ctrl chr_U" 7 "\<lambda>_. 0"]
    by (auto simp: typing_console_ok type_char_def Let_def)
  show "\<exists>c'. console_char (\<lambda>_. 0) 7 (Ctrl chr_C) typing_console = Ok c' \<and> killed c' = [7]"
    using console_refines_line_discipline [OF typing_console_ok(1), of "Ctrl chr_C" 7 "\<lambda>_. 0"]
    by (auto simp: typing_console_def empty_console_def)
qed

definition ordinary :: "u8 \<Rightarrow> bool" where
  "ordinary ch \<longleftrightarrow> ch \<notin> {3, 4, 10, 13, 21, 127, 0xff}"

lemma type_line:
  assumes "con_ok c" "\<forall>x\<in>set xs. ordinary x" "length (pending c) + length xs < 127"
  shows "\<exists>c'. console_intr kill pid xs c = Ok c' \<and> con_ok c' \<and> pending c' = pending c @ xs \<and> ready c' \<ge> ready c"
  using assms
proof (induction xs arbitrary: c)
  case (Cons x xs)
  have x: "ordinary x" using Cons.prems(2) by simp
  obtain c1 where c1: "console_char kill pid x c = Ok c1" "con_ok c1"
    "(pending c1, ready c1) = type_char 0 x (pending c, ready c)"
    using console_char_refines_aux [OF Cons.prems(1), of x pid kill 0] x by (auto simp: ordinary_def)
  have p: "pending c1 = pending c @ [x]" "ready c1 \<ge> ready c"
    using c1(3) x Cons.prems(3) con_okD(5) [OF Cons.prems(1)]
    by (auto simp: type_char_def Let_def ordinary_def split: if_splits)
  obtain c' where "console_intr kill pid xs c1 = Ok c'" "con_ok c'" "pending c' = pending c1 @ xs" "ready c' \<ge> ready c1"
    using Cons.IH [OF c1(2)] Cons.prems p by auto
  then show ?case using c1(1) p x by (intro exI [of _ c']) (auto simp: ordinary_def)
qed simp

lemma console_intr_append:
  "0xff \<notin> set xs \<Longrightarrow> console_intr kill pid (xs @ ys) c = bnd (console_intr kill pid xs c) (console_intr kill pid ys)"
proof (induction xs arbitrary: c)
  case (Cons x xs)
  then have "console_intr kill pid (xs @ ys) = (\<lambda>c. bnd (console_intr kill pid xs c) (console_intr kill pid ys))" by auto
  then show ?case using Cons.prems by (simp add: bnd_assoc)
qed simp

text \<open>
  C18: a line of ordinary characters typed at a console with nothing pending, ended by return, is
  what the next read returns, newline included, and nothing is left pending; the reader gives up
  the inode lock while it reads and holds it again afterwards.
\<close>

theorem console_line_roundtrip:
  assumes "con_ok c" and "pending c = []" and "\<forall>x\<in>set xs. ordinary x" and "length xs < 126"
    and "locked_alone ip" and "length xs < n"
  shows "\<exists>c1 c2. console_intr kill pid (xs @ [13]) c = Ok c1 \<and>
    console_read t ip n c1 = Ok (xs @ [newline], ip, c2) \<and> con_ok c2 \<and> pending c2 = []"
proof -
  obtain c0 where c0: "console_intr kill pid xs c = Ok c0" "con_ok c0" "pending c0 = xs"
    using type_line [of c xs kill pid] assms(1-4) by auto
  obtain c1 where c1: "console_char kill pid 13 c0 = Ok c1" "con_ok c1"
    "(pending c1, ready c1) = type_char 0 13 (pending c0, ready c0)"
    using console_char_refines_aux [OF c0(2), of 13 pid kill 0] by auto
  have p1: "pending c1 = xs @ newline # []" "ready c1 = length xs + 1"
    using c1(3) c0(3) assms(4) by (auto simp: type_char_def)
  have "0xff \<notin> set xs" using assms(3) by (auto simp: ordinary_def)
  then have i: "console_intr kill pid (xs @ [13]) c = Ok c1"
    using console_intr_append [of xs kill pid "[13]" c] c0(1) c1(1) by simp
  have nl: "newline \<notin> set xs" "Ctrl chr_D \<notin> set xs" using assms(3) by (auto simp: ordinary_def)
  define c1' where "c1' = c1\<lparr>con_woken := con_woken c1 @ []\<rparr>"
  have same: "con_ok c1'" "pending c1' = pending c1" "ready c1' = ready c1"
    using c1(2) by (simp_all add: c1'_def con_ok_def pending_def ready_def)
  obtain c2 where c2: "console_loop t n n [] c1' = CDone ([] @ xs @ [newline]) c2" "con_ok c2" "pending c2 = []"
    using console_loop_line [of c1' xs "[]" n t n "[]"] same p1 assms(6) nl by auto
  have "console_read t ip n c1 = Ok (xs @ [newline], ip, c2)"
    using c2(1) unlock_lock [OF assms(5)] by (simp add: console_read_def Let_def c1'_def)
  then show ?thesis using i c2 by blast
qed

theorem console_line_roundtrip_witness:
  "\<exists>c1 c2. console_intr (\<lambda>_. 0) 7 ([104, 105] @ [13]) empty_console = Ok c1 \<and>
     console_read 3 (init_inode zero_entry\<lparr>i_rc := 1, i_lock := \<lparr>val = 0, sleeplist = []\<rparr>\<rparr>) 100 c1 =
       Ok ([104, 105, 10], init_inode zero_entry\<lparr>i_rc := 1, i_lock := \<lparr>val = 0, sleeplist = []\<rparr>\<rparr>, c2)"
  using console_line_roundtrip [OF empty_console_ok(1,2), of "[104, 105]"
      "init_inode zero_entry\<lparr>i_rc := 1, i_lock := \<lparr>val = 0, sleeplist = []\<rparr>\<rparr>" 100 "\<lambda>_. 0" 7 3]
  by (auto simp: ordinary_def locked_alone_def)

end
