(* ===== verification/Inode.thy ===== *)
theory Inode
  imports Block_Cache Console
begin

text \<open>
  Inodes and file contents (\<open>fs/inode.c\<close>, first part): allocation and synchronisation of
  on-disk inodes, the block map, reading and writing, truncation and directories. An operation
  takes the in-memory inode it works on and returns it updated; \<open>ctx\<close> is \<open>None\<close> where the source
  passes \<open>NULL\<close>.
\<close>

section \<open>On-disk inodes\<close>

definition to_block_no :: "cache \<Rightarrow> nat \<Rightarrow> nat" where
  "to_block_no s inode_no = unat (sb_inode_start (sblock s)) + inode_no div INODE_PER_BLOCK"

definition get_entry :: "u8 list \<Rightarrow> nat \<Rightarrow> InodeEntry" where
  "get_entry d inode_no = arr_get 64 dec_inode (inode_no mod INODE_PER_BLOCK) d"

definition set_entry :: "u8 list \<Rightarrow> nat \<Rightarrow> InodeEntry \<Rightarrow> u8 list" where
  "set_entry d inode_no e = arr_put 64 enc_inode (inode_no mod INODE_PER_BLOCK) e d"

definition num_inodes :: "cache \<Rightarrow> nat" where
  "num_inodes s = unat (sb_num_inodes (sblock s))"

text \<open>The loop of \<open>inode_alloc\<close> over the inode numbers that are left.\<close>

fun inode_alloc_loop ::
  "nat list \<Rightarrow> OpContext option \<Rightarrow> u16 \<Rightarrow> cache \<Rightarrow> (nat \<times> OpContext option \<times> cache) res" where
  "inode_alloc_loop [] ctx ty s = Panic"
| "inode_alloc_loop (i # is) ctx ty s =
     (let n = to_block_no s i in
      bnd (cache_acquire n s) (\<lambda>s.
      if i_type (get_entry (get_data n s) i) = INODE_INVALID
      then
        let s = put_data n (set_entry (get_data n s) i (zero_entry\<lparr>i_type := ty\<rparr>)) s in
        bnd (cache_sync ctx n s) (\<lambda>(ctx, s).
        bnd (cache_release n s) (\<lambda>s. Ok (i, ctx, s)))
      else bnd (cache_release n s) (inode_alloc_loop is ctx ty)))"

definition inode_alloc :: "OpContext option \<Rightarrow> u16 \<Rightarrow> cache \<Rightarrow> (nat \<times> OpContext option \<times> cache) res" where
  "inode_alloc ctx ty s =
     bnd (assert (ty \<noteq> INODE_INVALID)) (\<lambda>_. inode_alloc_loop [1..<num_inodes s] ctx ty s)"

definition inode_sync ::
  "OpContext option \<Rightarrow> Inode \<Rightarrow> bool \<Rightarrow> cache \<Rightarrow> (OpContext option \<times> Inode \<times> cache) res" where
  "inode_sync ctx ip do_write s =
     (let n = to_block_no s (i_no ip) in
      bnd (cache_acquire n s) (\<lambda>s.
      if i_valid ip \<and> do_write
      then
        let s = put_data n (set_entry (get_data n s) (i_no ip) (i_entry ip)) s in
        bnd (cache_sync ctx n s) (\<lambda>(ctx, s).
        bnd (cache_release n s) (\<lambda>s. Ok (ctx, ip, s)))
      else
        let ip = (if \<not> i_valid ip
                  then ip\<lparr>i_valid := True, i_entry := get_entry (get_data n s) (i_no ip)\<rparr> else ip)
        in bnd (cache_release n s) (\<lambda>s. Ok (ctx, ip, s))))"

section \<open>The block map\<close>

definition get_addr :: "u8 list \<Rightarrow> nat \<Rightarrow> u32" where
  "get_addr d k = arr_get 4 dec32 k d"

definition set_addr :: "u8 list \<Rightarrow> nat \<Rightarrow> u32 \<Rightarrow> u8 list" where
  "set_addr d k a = arr_put 4 enc32 k a d"

text \<open>Entry \<open>k\<close> of the indirect block \<open>ind\<close>, allocated where it is zero.\<close>

definition indirect_map ::
  "OpContext option \<Rightarrow> nat \<Rightarrow> nat \<Rightarrow> bool \<Rightarrow> cache \<Rightarrow> (nat \<times> bool \<times> OpContext option \<times> cache) res" where
  "indirect_map ctx ind k modified s =
     bnd (cache_acquire ind s) (\<lambda>s.
     let bno = unat (get_addr (get_data ind s) k) in
     if bno = 0 then
       bnd (cache_alloc ctx s) (\<lambda>(bno, ctx, s).
       let s = put_data ind (set_addr (get_data ind s) k (word_of_nat bno)) s in
       bnd (cache_sync ctx ind s) (\<lambda>(ctx, s).
       bnd (cache_release ind s) (\<lambda>s. Ok (bno, True, ctx, s))))
     else bnd (cache_release ind s) (\<lambda>s. Ok (bno, modified, ctx, s)))"

text \<open>Result: block number, \<open>*modified\<close>, context, inode and cache.\<close>

definition inode_map ::
  "OpContext option \<Rightarrow> Inode \<Rightarrow> nat \<Rightarrow> cache \<Rightarrow> (nat \<times> bool \<times> OpContext option \<times> Inode \<times> cache) res" where
  "inode_map ctx ip offset s =
     (let e = i_entry ip in
      if offset < INODE_NUM_DIRECT then
        (let bno = unat (i_addrs e ! offset) in
         if bno = 0 then
           bnd (cache_alloc ctx s) (\<lambda>(bno, ctx, s).
             Ok (bno, True, ctx, ip\<lparr>i_entry := e\<lparr>i_addrs := (i_addrs e)[offset := word_of_nat bno]\<rparr>\<rparr>, s))
         else Ok (bno, False, ctx, ip, s))
      else if offset - INODE_NUM_DIRECT < INODE_NUM_INDIRECT then
        (let offset = offset - INODE_NUM_DIRECT;
             bno = unat (i_indirect e)
         in bnd (if bno = 0
                 then bnd (cache_alloc ctx s) (\<lambda>(bno, ctx, s).
                        Ok (bno, True, ctx, ip\<lparr>i_entry := e\<lparr>i_indirect := word_of_nat bno\<rparr>\<rparr>, s))
                 else Ok (bno, False, ctx, ip, s)) (\<lambda>(bno, modified, ctx, ip, s).
            bnd (indirect_map ctx bno offset modified s) (\<lambda>(bno, modified, ctx, s).
              Ok (bno, modified, ctx, ip, s))))
      else Panic)"

section \<open>Reading and writing\<close>

text \<open>The bytes of one turn of either loop.\<close>

definition chunk :: "nat \<Rightarrow> nat \<Rightarrow> nat" where
  "chunk offset left =
     (if left < BLOCK_SIZE - offset mod BLOCK_SIZE then left else BLOCK_SIZE - offset mod BLOCK_SIZE)"

lemma chunk_pos: "left > 0 \<Longrightarrow> 0 < chunk offset left" "chunk offset left \<le> left"
  by (auto simp: chunk_def)

function read_loop ::
  "Inode \<Rightarrow> nat \<Rightarrow> nat \<Rightarrow> bool \<Rightarrow> u8 list \<Rightarrow> cache \<Rightarrow> (bool \<times> u8 list \<times> Inode \<times> cache) res" where
  "read_loop ip offset left modified dest s =
     (if left = 0 then Ok (modified, dest, ip, s)
      else
        bnd (inode_map None ip (offset div BLOCK_SIZE) s) (\<lambda>(bno, modified, ctx, ip, s).
        bnd (cache_acquire bno s) (\<lambda>s.
        let sz = chunk offset left;
            dest = dest @ range_get (offset mod BLOCK_SIZE) sz (get_data bno s)
        in bnd (cache_release bno s) (\<lambda>s.
             read_loop ip (offset + sz) (left - sz) modified dest s))))"
  by pat_completeness auto
termination
  by (relation "measure (\<lambda>(ip, offset, left, m, dest, s). left)") (use chunk_pos in auto)

declare read_loop.simps [simp del]

text \<open>
  Regular files and directories; the sums are of 64-bit integers. Where \<open>num_bytes - offset\<close>
  would be negative the first assertion fails.
\<close>

definition file_read :: "Inode \<Rightarrow> nat \<Rightarrow> nat \<Rightarrow> cache \<Rightarrow> (u8 list \<times> Inode \<times> cache) res" where
  "file_read ip offset count s =
     (let num_bytes = unat (i_num_bytes (i_entry ip));
          count = (if (count + offset) mod 2 ^ 64 > num_bytes then num_bytes - offset else count);
          end = (offset + count) mod 2 ^ 64
      in bnd (assert (offset \<le> num_bytes)) (\<lambda>_.
         bnd (assert (end \<le> num_bytes)) (\<lambda>_.
         bnd (assert (offset \<le> end)) (\<lambda>_.
         bnd (read_loop ip offset count False [] s) (\<lambda>(modified, dest, ip, s).
         bnd (assert (\<not> modified)) (\<lambda>_. Ok (dest, ip, s)))))))"

function write_loop ::
  "OpContext option \<Rightarrow> Inode \<Rightarrow> nat \<Rightarrow> u8 list \<Rightarrow> bool \<Rightarrow> cache \<Rightarrow> (bool \<times> OpContext option \<times> Inode \<times> cache) res" where
  "write_loop ctx ip offset src modified s =
     (if src = [] then Ok (modified, ctx, ip, s)
      else
        bnd (inode_map ctx ip (offset div BLOCK_SIZE) s) (\<lambda>(bno, this_modified, ctx, ip, s).
        bnd (cache_acquire bno s) (\<lambda>s.
        let sz = chunk offset (length src);
            s = put_data bno (range_put (offset mod BLOCK_SIZE) (take sz src) (get_data bno s)) s
        in bnd (cache_sync ctx bno s) (\<lambda>(ctx, s).
           bnd (cache_release bno s) (\<lambda>s.
             write_loop ctx ip (offset + sz) (drop sz src) (this_modified \<or> modified) s)))))"
  by pat_completeness auto
termination
  by (relation "measure (\<lambda>(ctx, ip, offset, src, m, s). length src)") (use chunk_pos in auto)

declare write_loop.simps [simp del]

text \<open>\<open>num_bytes\<close> is stored in 32 bits.\<close>

definition file_write ::
  "OpContext option \<Rightarrow> Inode \<Rightarrow> u8 list \<Rightarrow> nat \<Rightarrow> cache \<Rightarrow> (nat \<times> OpContext option \<times> Inode \<times> cache) res" where
  "file_write ctx ip src offset s =
     (let end = (offset + length src) mod 2 ^ 64 in
      bnd (assert (offset \<le> unat (i_num_bytes (i_entry ip)))) (\<lambda>_.
      bnd (assert (end \<le> INODE_MAX_BYTES)) (\<lambda>_.
      bnd (assert (offset \<le> end)) (\<lambda>_.
      bnd (write_loop ctx ip offset src False s) (\<lambda>(modified, ctx, ip, s).
      if modified \<or> end > unat (i_num_bytes (i_entry ip))
      then
        let ip = ip\<lparr>i_entry := (i_entry ip)\<lparr>i_num_bytes := word_of_nat end\<rparr>\<rparr> in
        bnd (inode_sync ctx ip True s) (\<lambda>(ctx, ip, s). Ok (length src, ctx, ip, s))
      else Ok (length src, ctx, ip, s))))))"

text \<open>
  Device inodes go to the console. \<^term>\<open>uninit\<close> is the content of an uninitialised
  directory entry on the stack.
\<close>

record fsys =
  bcache :: cache
  con :: console
  uninit :: "u8 list"

definition inode_read :: "nat \<Rightarrow> Inode \<Rightarrow> nat \<Rightarrow> nat \<Rightarrow> fsys \<Rightarrow> (u8 list \<times> Inode \<times> fsys) res" where
  "inode_read t ip offset count f =
     (if i_type (i_entry ip) = INODE_DEVICE
      then
        bnd (assert (i_major (i_entry ip) = 1)) (\<lambda>_.
        bnd (console_read t ip count (con f)) (\<lambda>(dest, ip, c). Ok (dest, ip, f\<lparr>con := c\<rparr>)))
      else bnd (file_read ip offset count (bcache f)) (\<lambda>(dest, ip, s). Ok (dest, ip, f\<lparr>bcache := s\<rparr>)))"

definition inode_write ::
  "nat \<Rightarrow> OpContext option \<Rightarrow> Inode \<Rightarrow> u8 list \<Rightarrow> nat \<Rightarrow> fsys \<Rightarrow> (nat \<times> OpContext option \<times> Inode \<times> fsys) res" where
  "inode_write t ctx ip src offset f =
     (if i_type (i_entry ip) = INODE_DEVICE
      then
        bnd (assert (i_major (i_entry ip) = 1)) (\<lambda>_.
        bnd (console_write t ip src (con f)) (\<lambda>(n, ip, c). Ok (n, ctx, ip, f\<lparr>con := c\<rparr>)))
      else bnd (file_write ctx ip src offset (bcache f)) (\<lambda>(n, ctx, ip, s). Ok (n, ctx, ip, f\<lparr>bcache := s\<rparr>)))"

section \<open>Truncation\<close>

definition free_if_used :: "u32 \<Rightarrow> OpContext option \<times> cache \<Rightarrow> (OpContext option \<times> cache) res" where
  "free_if_used a = (\<lambda>(ctx, s). if a \<noteq> 0 then cache_free ctx (unat a) s else Ok (ctx, s))"

definition inode_clear :: "OpContext option \<Rightarrow> Inode \<Rightarrow> cache \<Rightarrow> (OpContext option \<times> Inode \<times> cache) res" where
  "inode_clear ctx ip s =
     (let e = i_entry ip in
      bnd (mfold free_if_used (map (\<lambda>i. i_addrs e ! i) [0..<INODE_NUM_DIRECT]) (ctx, s)) (\<lambda>(ctx, s).
      let e = e\<lparr>i_addrs := replicate INODE_NUM_DIRECT 0\<rparr> in
      bnd (if i_indirect e \<noteq> 0
           then
             let ind = unat (i_indirect e) in
             bnd (cache_acquire ind s) (\<lambda>s.
             bnd (mfold free_if_used (map (get_addr (get_data ind s)) [0..<INODE_NUM_INDIRECT]) (ctx, s)) (\<lambda>(ctx, s).
             bnd (cache_release ind s) (\<lambda>s.
             bnd (cache_free ctx ind s) (\<lambda>(ctx, s). Ok (ctx, e\<lparr>i_indirect := 0\<rparr>, s)))))
           else Ok (ctx, e, s)) (\<lambda>(ctx, e, s).
      inode_sync ctx (ip\<lparr>i_entry := e\<lparr>i_num_bytes := 0\<rparr>\<rparr>) True s)))"

section \<open>Directories\<close>

text \<open>The offsets of the entries: \<open>for (i = 0; i < num_bytes; i += sizeof(DirEntry))\<close>.\<close>

definition dir_offsets :: "Inode \<Rightarrow> nat list" where
  "dir_offsets ip = map (\<lambda>k. k * 16) [0..<(unat (i_num_bytes (i_entry ip)) + 15) div 16]"

text \<open>\<open>inode_read\<close> into a directory entry that holds the bytes \<open>u\<close>.\<close>

definition read_dirent :: "nat \<Rightarrow> Inode \<Rightarrow> nat \<Rightarrow> u8 list \<Rightarrow> fsys \<Rightarrow> (u8 list \<times> Inode \<times> fsys) res" where
  "read_dirent t ip i u f =
     bnd (inode_read t ip i 16 f) (\<lambda>(d, ip, f). Ok (d @ drop (length d) u, ip, f))"

fun lookup_loop ::
  "nat \<Rightarrow> nat list \<Rightarrow> u8 list \<Rightarrow> Inode \<Rightarrow> fsys \<Rightarrow> (nat \<times> nat option \<times> Inode \<times> fsys) res" where
  "lookup_loop t [] name ip f = Ok (0, None, ip, f)"
| "lookup_loop t (i # is) name ip f =
     bnd (read_dirent t ip i (uninit f) f) (\<lambda>(d, ip, f).
     let dir_entry = dec_dirent d in
     if d_inode_no dir_entry \<noteq> 0 then
       (case strncmp (d_name dir_entry) name FILE_NAME_MAX_LENGTH of
          None \<Rightarrow> Panic
        | Some r \<Rightarrow>
            if r = 0 then Ok (unat (d_inode_no dir_entry), Some i, ip, f)
            else lookup_loop t is name ip f)
     else lookup_loop t is name ip f)"

text \<open>Result: the inode number (0 when there is no such entry) and \<open>*index\<close> where it is set.\<close>

definition inode_lookup ::
  "nat \<Rightarrow> Inode \<Rightarrow> u8 list \<Rightarrow> fsys \<Rightarrow> (nat \<times> nat option \<times> Inode \<times> fsys) res" where
  "inode_lookup t ip name f =
     bnd (assert (i_type (i_entry ip) = INODE_DIRECTORY)) (\<lambda>_.
       lookup_loop t (dir_offsets ip) name ip f)"

text \<open>The search of \<open>inode_insert\<close> for a free entry; \<open>past\<close> is the offset behind the last one.\<close>

fun free_slot_loop ::
  "nat \<Rightarrow> nat list \<Rightarrow> nat \<Rightarrow> u8 list \<Rightarrow> Inode \<Rightarrow> fsys \<Rightarrow> (nat \<times> u8 list \<times> Inode \<times> fsys) res" where
  "free_slot_loop t [] past u ip f = Ok (past, u, ip, f)"
| "free_slot_loop t (i # is) past u ip f =
     bnd (read_dirent t ip i u f) (\<lambda>(d, ip, f).
     if d_inode_no (dec_dirent d) = 0 then Ok (i, d, ip, f)
     else free_slot_loop t is past d ip f)"

definition inode_insert ::
  "nat \<Rightarrow> OpContext option \<Rightarrow> Inode \<Rightarrow> u8 list \<Rightarrow> nat \<Rightarrow> fsys \<Rightarrow>
   (int \<times> OpContext option \<times> Inode \<times> fsys) res" where
  "inode_insert t ctx ip name inode_no f =
     bnd (assert (i_type (i_entry ip) = INODE_DIRECTORY)) (\<lambda>_.
     bnd (inode_lookup t ip name f) (\<lambda>(found, _, ip, f).
     if found \<noteq> 0 then Ok (-1, ctx, ip, f)
     else
       bnd (free_slot_loop t (dir_offsets ip) (16 * length (dir_offsets ip)) (uninit f) ip f)
         (\<lambda>(i, d, ip, f).
       case strncpy (d_name (dec_dirent d)) name FILE_NAME_MAX_LENGTH of
         None \<Rightarrow> Panic
       | Some nm \<Rightarrow>
           bnd (inode_write t ctx ip (enc_dirent \<lparr>d_inode_no = word_of_nat inode_no, d_name = nm\<rparr>) i f)
             (\<lambda>(_, ctx, ip, f). Ok (int i, ctx, ip, f)))))"

definition inode_remove ::
  "nat \<Rightarrow> OpContext option \<Rightarrow> Inode \<Rightarrow> nat \<Rightarrow> fsys \<Rightarrow> (OpContext option \<times> Inode \<times> fsys) res" where
  "inode_remove t ctx ip index f =
     bnd (assert (i_type (i_entry ip) = INODE_DIRECTORY)) (\<lambda>_.
     bnd (inode_write t ctx ip (enc_dirent \<lparr>d_inode_no = 0, d_name = replicate 14 0\<rparr>) index f)
       (\<lambda>(_, ctx, ip, f). Ok (ctx, ip, f)))"

section \<open>Status\<close>

text \<open>The fields of \<open>struct stat\<close> that \<open>stati\<close> sets.\<close>

record stat =
  st_dev :: nat
  st_ino :: nat
  st_mode :: nat
  st_nlink :: nat
  st_size :: nat

abbreviation S_IFREG :: nat where "S_IFREG \<equiv> 0x8000"
abbreviation S_IFDIR :: nat where "S_IFDIR \<equiv> 0x4000"

definition stati :: "Inode \<Rightarrow> stat res" where
  "stati ip =
     (let e = i_entry ip;
          st = (\<lambda>m. \<lparr>st_dev = 1, st_ino = i_no ip, st_mode = m,
                      st_nlink = unat (i_num_links e), st_size = unat (i_num_bytes e)\<rparr>)
      in if i_type e = INODE_REGULAR then Ok (st S_IFREG)
         else if i_type e = INODE_DIRECTORY then Ok (st S_IFDIR)
         else if i_type e = INODE_DEVICE then Ok (st 0)
         else Panic)"

end
