(* ===== verification/File_Content.thy ===== *)
theory File_Content
  imports Inode
begin

text \<open>
  Contents of files: the invariant that ties the block map of an inode to the allocation bitmap,
  and the effect of \<open>inode_map\<close>, \<open>inode_read\<close>, \<open>inode_write\<close> and \<open>inode_sync\<close> under it.
\<close>

section \<open>Blocks of a file\<close>

definition bmap :: "(nat \<Rightarrow> u8 list) \<Rightarrow> InodeEntry \<Rightarrow> nat \<Rightarrow> nat" where
  "bmap V e k =
     (if k < INODE_NUM_DIRECT then unat (i_addrs e ! k)
      else if k < INODE_MAX_BLOCKS \<and> i_indirect e \<noteq> 0
      then unat (get_addr (V (unat (i_indirect e))) (k - INODE_NUM_DIRECT))
      else 0)"

definition fbyte :: "(nat \<Rightarrow> u8 list) \<Rightarrow> InodeEntry \<Rightarrow> nat \<Rightarrow> u8" where
  "fbyte V e i = V (bmap V e (i div BLOCK_SIZE)) ! (i mod BLOCK_SIZE)"

definition content :: "(nat \<Rightarrow> u8 list) \<Rightarrow> InodeEntry \<Rightarrow> u8 list" where
  "content V e = map (fbyte V e) [0..<unat (i_num_bytes e)]"

definition fblocks :: "(nat \<Rightarrow> u8 list) \<Rightarrow> InodeEntry \<Rightarrow> nat set" where
  "fblocks V e = ({unat (i_indirect e)} \<union> bmap V e ` {..<INODE_MAX_BLOCKS}) - {0}"

text \<open>Blocks that can belong to a file: behind the single bitmap block, before the swap area.\<close>

definition data_block :: "cache \<Rightarrow> nat \<Rightarrow> bool" where
  "data_block s b \<longleftrightarrow> bitmap_start s < b \<and> b < alloc_limit s"

text \<open>
  The file system as a whole: at most one bitmap block (the image has 1000 blocks), the inode area
  in front of it, everything up to it marked used, and no thread inside the bitmap.
\<close>

definition fs_ok :: "cache \<Rightarrow> bool" where
  "fs_ok s \<longleftrightarrow> cache_inv s \<and> alloc_limit s \<le> BIT_PER_BLOCK \<and> bitmap_start s < alloc_limit s \<and>
     (\<forall>i<num_inodes s. 0 < to_block_no s i \<and> to_block_no s i < bitmap_start s) \<and>
     (\<forall>m\<le>bitmap_start s. block_used s m) \<and>
     (\<forall>m\<in>held s. m < alloc_limit s \<longrightarrow> block_used s m) \<and> bitmap_start s \<notin> held s"

definition file_ok :: "cache \<Rightarrow> InodeEntry \<Rightarrow> bool" where
  "file_ok s e \<longleftrightarrow> wf_inode_entry e \<and> unat (i_num_bytes e) \<le> INODE_MAX_BYTES \<and>
     (\<forall>b\<in>fblocks (lview s) e. data_block s b \<and> block_used s b \<and> b \<notin> held s) \<and>
     (\<forall>j k. j < INODE_MAX_BLOCKS \<longrightarrow> k < INODE_MAX_BLOCKS \<longrightarrow> bmap (lview s) e j \<noteq> 0 \<longrightarrow>
        bmap (lview s) e j = bmap (lview s) e k \<longrightarrow> j = k) \<and>
     (\<forall>k<INODE_MAX_BLOCKS. bmap (lview s) e k \<noteq> 0 \<longrightarrow> bmap (lview s) e k \<noteq> unat (i_indirect e)) \<and>
     (\<forall>k. k * BLOCK_SIZE < unat (i_num_bytes e) \<longrightarrow> bmap (lview s) e k \<noteq> 0)"

definition free_blocks :: "cache \<Rightarrow> nat set" where
  "free_blocks s = {m. m < alloc_limit s \<and> \<not> block_used s m}"

lemma finite_free [simp]: "finite (free_blocks s)"
  by (simp add: free_blocks_def)

lemma fs_okD:
  assumes "fs_ok s"
  shows "cache_inv s" "alloc_limit s \<le> BIT_PER_BLOCK" "bitmap_start s < alloc_limit s"
    "m \<le> bitmap_start s \<Longrightarrow> block_used s m" "m \<in> held s \<Longrightarrow> m < alloc_limit s \<Longrightarrow> block_used s m"
    "bitmap_start s \<notin> held s" "i < num_inodes s \<Longrightarrow> to_block_no s i < bitmap_start s"
    "i < num_inodes s \<Longrightarrow> 0 < to_block_no s i"
  using assms by (auto simp: fs_ok_def)

lemma file_okD:
  assumes "file_ok s e"
  shows "wf_inode_entry e" "unat (i_num_bytes e) \<le> INODE_MAX_BYTES"
    "b \<in> fblocks (lview s) e \<Longrightarrow> data_block s b" "b \<in> fblocks (lview s) e \<Longrightarrow> block_used s b"
    "b \<in> fblocks (lview s) e \<Longrightarrow> b \<notin> held s"
    "j < INODE_MAX_BLOCKS \<Longrightarrow> k < INODE_MAX_BLOCKS \<Longrightarrow> bmap (lview s) e j \<noteq> 0 \<Longrightarrow>
       bmap (lview s) e j = bmap (lview s) e k \<Longrightarrow> j = k"
    "k < INODE_MAX_BLOCKS \<Longrightarrow> bmap (lview s) e k \<noteq> 0 \<Longrightarrow> bmap (lview s) e k \<noteq> unat (i_indirect e)"
    "k * BLOCK_SIZE < unat (i_num_bytes e) \<Longrightarrow> bmap (lview s) e k \<noteq> 0"
  using assms by (simp_all add: file_ok_def)

lemma bitmap_block_single: "n < BIT_PER_BLOCK \<Longrightarrow> bitmap_block s n = bitmap_start s"
  by (simp add: bitmap_block_def)

lemma stores_geometry:
  assumes "stores s c B V s' c'"
  shows "bitmap_start s' = bitmap_start s" "alloc_limit s' = alloc_limit s"
    "to_block_no s' = to_block_no s" "num_inodes s' = num_inodes s" "data_block s' = data_block s"
proof -
  have sb: "sblock s' = sblock s" using storesD(6) [OF assms] .
  show g: "bitmap_start s' = bitmap_start s" "alloc_limit s' = alloc_limit s"
    "to_block_no s' = to_block_no s" "num_inodes s' = num_inodes s"
    by (simp_all add: bitmap_start_def alloc_limit_def to_block_no_def num_inodes_def fun_eq_iff sb)
  show "data_block s' = data_block s" by (simp add: data_block_def fun_eq_iff g)
qed

lemma block_used_view:
  assumes "stores s c B V s' c'" "V (bitmap_block s m) = lview s (bitmap_block s m)"
  shows "block_used s' m = block_used s m"
  using assms storesD(3,6) [OF assms(1)] by (simp add: block_used_def bitmap_block_def bitmap_start_def)

lemma fs_ok_stores:
  assumes "fs_ok s" "stores s c B V s' c'" "\<And>m. m < alloc_limit s \<Longrightarrow> block_used s m \<Longrightarrow> block_used s' m"
  shows "fs_ok s'"
proof -
  note g = stores_geometry [OF assms(2)] and d = storesD [OF assms(2)]
  have "block_used s' m" if "m \<le> bitmap_start s" for m
    using assms(3) [of m] fs_okD(3,4) [OF assms(1)] that by fastforce
  then show ?thesis using assms(1,3) d(1) by (simp add: fs_ok_def g d(2))
qed

section \<open>Allocation\<close>

lemma alloc_data_block:
  assumes ok: "fs_ok s" and q: "rm c \<ge> 2" "budget c s \<le> LOG_MAX_SIZE" and free: "free_blocks s \<noteq> {}"
  obtains n c' s' where "cache_alloc (Some c) s = Ok (n, Some c', s')" "data_block s n" "\<not> block_used s n"
    "n \<notin> held s" "stores s c {bitmap_start s, n} (lview s') s' c'" "fs_ok s'"
    "\<And>b. b \<noteq> n \<Longrightarrow> b \<noteq> bitmap_start s \<Longrightarrow> lview s' b = lview s b" "lview s' n = replicate BLOCK_SIZE 0"
    "\<And>m. m < alloc_limit s \<Longrightarrow> block_used s' m \<longleftrightarrow> m = n \<or> block_used s m"
    "card (free_blocks s) = card (free_blocks s') + 1"
proof -
  define P where "P = (\<lambda>m. m < alloc_limit s \<and> \<not> block_used s m)"
  define n where "n = (LEAST m. P m)"
  have "P n" using free LeastI_ex [of P] by (auto simp: free_blocks_def n_def P_def)
  then have n: "n < alloc_limit s" "\<not> block_used s n" by (simp_all add: P_def)
  have least: "\<forall>m<n. block_used s m"
  proof (intro allI impI)
    fix m assume "m < n"
    then have "\<not> P m" using not_less_Least [of m P] by (simp add: n_def)
    then show "block_used s m" using \<open>m < n\<close> n(1) by (simp add: P_def)
  qed
  note o = fs_okD [OF ok]
  have db: "data_block s n" using n o(4) by (metis data_block_def linorder_not_le)
  have bb: "bitmap_block s m = bitmap_start s" if "m < alloc_limit s" for m
    using that o(2) by (intro bitmap_block_single) linarith
  have nh: "n \<notin> held s" using o(5) n by blast
  obtain c' s' where a: "cache_alloc (Some c) s = Ok (n, Some c', s')"
    and st: "stores s c {bitmap_block s n, n}
      ((lview s)(bitmap_block s n := mark_used s n, n := replicate BLOCK_SIZE 0)) s' c'"
  proof (rule cache_alloc_ok [OF o(1) nh _ _ q n least])
    show "\<forall>m\<le>n. bitmap_block s m \<notin> held s" using bb o(6) n(1) by simp
    show "n \<noteq> bitmap_block s n" using bb [OF n(1)] db by (simp add: data_block_def)
  qed
  note d = storesD [OF st]
  have bn: "bitmap_block s n = bitmap_start s" "bitmap_start s \<noteq> n"
    using bb [OF n(1)] db by (auto simp: data_block_def)
  have V: "lview s' b = (if b = n then replicate BLOCK_SIZE 0 else if b = bitmap_start s then mark_used s n
      else lview s b)" for b
    by (simp add: d(3) bn(1))
  have used: "block_used s' m \<longleftrightarrow> m = n \<or> block_used s m" if m: "m < alloc_limit s" for m
  proof (rule block_used_update [OF o(1) d(6), of m n bitmap_set])
    show "lview s' (bitmap_block s m) = (if bitmap_block s m = bitmap_block s n
        then bytes_of (bitmap_set (cells_of (lview s (bitmap_block s n))) (n mod BIT_PER_BLOCK))
        else lview s (bitmap_block s m))"
      using bn by (simp add: V bb [OF m] mark_used_def)
  qed simp
  have st': "stores s c {bitmap_start s, n} (lview s') s' c'" using st by (simp add: bn(1) d(3))
  have fs: "fs_ok s'" by (rule fs_ok_stores [OF ok st']) (simp add: used)
  have "free_blocks s = insert n (free_blocks s')" "n \<notin> free_blocks s'"
    using used n stores_geometry(2) [OF st] by (auto simp: free_blocks_def)
  then have card: "card (free_blocks s) = card (free_blocks s') + 1" by simp
  show thesis
    by (rule that [OF a db n(2) nh st' fs _ _ used card]) (simp_all add: V)
qed

section \<open>Growing a file\<close>

text \<open>
  \<open>grows s c e K s' c' e'\<close>: an operation has, within its quota, allocated and logged blocks of the
  file at the indices \<open>K\<close>. What was mapped stays mapped, and no block that was in use by another
  file or by the file system itself changes, the bitmap apart.
\<close>

definition same_meta :: "InodeEntry \<Rightarrow> InodeEntry \<Rightarrow> bool" where
  "same_meta e e' \<longleftrightarrow> e' = e\<lparr>i_addrs := i_addrs e', i_indirect := i_indirect e'\<rparr>"

definition touched :: "cache \<Rightarrow> InodeEntry \<Rightarrow> nat set \<Rightarrow> nat set" where
  "touched s e K = ({unat (i_indirect e)} \<union> bmap (lview s) e ` K) - {0}"

definition grows ::
  "cache \<Rightarrow> OpContext \<Rightarrow> InodeEntry \<Rightarrow> nat set \<Rightarrow> cache \<Rightarrow> OpContext \<Rightarrow> InodeEntry \<Rightarrow> bool" where
  "grows s c e K s' c' e' \<longleftrightarrow>
     (\<exists>B. stores s c B (lview s') s' c' \<and> B \<subseteq> insert (bitmap_start s) (touched s' e' K)) \<and>
     fs_ok s' \<and> file_ok s' e' \<and> same_meta e e' \<and>
     (\<forall>k<INODE_MAX_BLOCKS. k \<notin> K \<or> bmap (lview s) e k \<noteq> 0 \<longrightarrow> bmap (lview s') e' k = bmap (lview s) e k) \<and>
     (i_indirect e \<noteq> 0 \<longrightarrow> i_indirect e' = i_indirect e) \<and>
     (\<forall>m<alloc_limit s. block_used s' m \<longrightarrow> block_used s m \<or> m \<in> touched s' e' K) \<and>
     (\<forall>m<alloc_limit s. block_used s m \<longrightarrow> block_used s' m) \<and>
     (\<forall>b. b \<ge> alloc_limit s \<or> block_used s b \<and> b \<notin> fblocks (lview s) e \<longrightarrow> b \<noteq> bitmap_start s \<longrightarrow>
        lview s' b = lview s b) \<and>
     (\<forall>k<INODE_MAX_BLOCKS. k \<notin> K \<longrightarrow> bmap (lview s) e k \<noteq> 0 \<longrightarrow>
        lview s' (bmap (lview s) e k) = lview s (bmap (lview s) e k)) \<and>
     fblocks (lview s') e' - fblocks (lview s) e \<subseteq> - Collect (block_used s)"

lemma growsD:
  assumes "grows s c e K s' c' e'"
  shows "fs_ok s'" "file_ok s' e'" "same_meta e e'"
    "k < INODE_MAX_BLOCKS \<Longrightarrow> k \<notin> K \<Longrightarrow> bmap (lview s') e' k = bmap (lview s) e k"
    "k < INODE_MAX_BLOCKS \<Longrightarrow> bmap (lview s) e k \<noteq> 0 \<Longrightarrow> bmap (lview s') e' k = bmap (lview s) e k"
    "i_indirect e \<noteq> 0 \<Longrightarrow> i_indirect e' = i_indirect e"
    "m < alloc_limit s \<Longrightarrow> block_used s' m \<Longrightarrow> block_used s m \<or> m \<in> touched s' e' K"
    "m < alloc_limit s \<Longrightarrow> block_used s m \<Longrightarrow> block_used s' m"
    "b \<ge> alloc_limit s \<Longrightarrow> b \<noteq> bitmap_start s \<Longrightarrow> lview s' b = lview s b"
    "block_used s b \<Longrightarrow> b \<notin> fblocks (lview s) e \<Longrightarrow> b \<noteq> bitmap_start s \<Longrightarrow> lview s' b = lview s b"
    "k < INODE_MAX_BLOCKS \<Longrightarrow> k \<notin> K \<Longrightarrow> bmap (lview s) e k \<noteq> 0 \<Longrightarrow>
       lview s' (bmap (lview s) e k) = lview s (bmap (lview s) e k)"
    "b \<in> fblocks (lview s') e' \<Longrightarrow> b \<notin> fblocks (lview s) e \<Longrightarrow> \<not> block_used s b"
  using assms unfolding grows_def by blast+

lemma growsE:
  assumes "grows s c e K s' c' e'"
  obtains B where "stores s c B (lview s') s' c'" "B \<subseteq> insert (bitmap_start s) (touched s' e' K)"
  using assms unfolding grows_def by blast

lemma bmap_fblocks: "k < INODE_MAX_BLOCKS \<Longrightarrow> bmap V e k \<noteq> 0 \<Longrightarrow> bmap V e k \<in> fblocks V e"
  by (simp add: fblocks_def)

lemma indirect_fblocks: "i_indirect e \<noteq> 0 \<Longrightarrow> unat (i_indirect e) \<in> fblocks V e"
  by (simp add: fblocks_def unat_eq_zero)

lemma fblocks_cases:
  assumes "b \<in> fblocks V e"
  obtains "b = unat (i_indirect e)" "i_indirect e \<noteq> 0" "b \<noteq> 0"
  | k where "b = bmap V e k" "k < INODE_MAX_BLOCKS" "b \<noteq> 0"
  using assms unfolding fblocks_def by (cases "i_indirect e = 0") auto

lemma fblocks_mono:
  assumes "grows s c e K s' c' e'" shows "fblocks (lview s) e \<subseteq> fblocks (lview s') e'"
proof
  fix b assume "b \<in> fblocks (lview s) e"
  then show "b \<in> fblocks (lview s') e'"
  proof (cases rule: fblocks_cases)
    case 1
    then show ?thesis using indirect_fblocks [of e'] growsD(6) [OF assms] by simp
  next
    case (2 k)
    then show ?thesis using bmap_fblocks [of k "lview s'" e'] growsD(5) [OF assms, of k] by simp
  qed
qed

lemma touched_mono:
  assumes "grows s c e K s' c' e'" "K' \<subseteq> {..<INODE_MAX_BLOCKS}"
  shows "touched s e K' \<subseteq> touched s' e' K'"
  using assms growsD(5,6) [OF assms(1)]
  by (fastforce simp: touched_def unat_eq_zero image_iff)

lemma grows_trans:
  assumes g1: "grows s c e K s1 c1 e1" and g2: "grows s1 c1 e1 K' s2 c2 e2"
    and K: "K \<subseteq> {..<INODE_MAX_BLOCKS}"
  shows "grows s c e (K \<union> K') s2 c2 e2"
proof -
  obtain B where B: "stores s c B (lview s1) s1 c1" "B \<subseteq> insert (bitmap_start s) (touched s1 e1 K)"
    by (rule growsE [OF g1])
  obtain B' where B': "stores s1 c1 B' (lview s2) s2 c2"
    "B' \<subseteq> insert (bitmap_start s1) (touched s2 e2 K')"
    by (rule growsE [OF g2])
  note geo = stores_geometry [OF B(1)] and d1 = growsD [OF g1] and d2 = growsD [OF g2]
  have t: "touched s1 e1 K \<subseteq> touched s2 e2 (K \<union> K')" "touched s2 e2 K' \<subseteq> touched s2 e2 (K \<union> K')"
    using touched_mono [OF g2 K] by (auto simp: touched_def)
  have st: "stores s c (B \<union> B') (lview s2) s2 c2" by (rule stores_trans [OF B(1) B'(1)])
  have sub: "B \<union> B' \<subseteq> insert (bitmap_start s) (touched s2 e2 (K \<union> K'))"
    using B(2) B'(2) t unfolding geo by blast
  have meta: "same_meta e e2" using d1(3) d2(3) by (simp add: same_meta_def) (metis InodeEntry.surjective InodeEntry.update_convs(6,7))
  have b1: "bmap (lview s2) e2 k = bmap (lview s) e k"
    if "k < INODE_MAX_BLOCKS" "k \<notin> K \<union> K' \<or> bmap (lview s) e k \<noteq> 0" for k
    using that d1(4,5) [of k] d2(4,5) [of k] by auto
  have frame: "lview s2 b = lview s b"
    if "b \<ge> alloc_limit s \<or> block_used s b \<and> b \<notin> fblocks (lview s) e" "b \<noteq> bitmap_start s" for b
  proof -
    have 1: "lview s1 b = lview s b" using that d1(9,10) by blast
    have 2: "b \<ge> alloc_limit s \<or> block_used s1 b \<and> b \<notin> fblocks (lview s1) e1"
      using that d1(8,12) by (meson not_less)
    then have "lview s2 b = lview s1 b" using d2(9,10) that(2) unfolding geo by blast
    then show ?thesis using 1 by simp
  qed
  have data: "lview s2 (bmap (lview s) e k) = lview s (bmap (lview s) e k)"
    if "k < INODE_MAX_BLOCKS" "k \<notin> K \<union> K'" "bmap (lview s) e k \<noteq> 0" for k
    using that d1(4,11) [of k] d2(11) [of k] by auto
  have new: "fblocks (lview s2) e2 - fblocks (lview s) e \<subseteq> - Collect (block_used s)"
  proof clarsimp
    fix b assume b: "b \<in> fblocks (lview s2) e2" "b \<notin> fblocks (lview s) e" "block_used s b"
    have db: "b < alloc_limit s"
      using file_okD(3) [OF d2(2) b(1)] stores_geometry [OF B'(1)] geo by (simp add: data_block_def)
    then show False using b d1(8,12) d2(12) by blast
  qed
  have used: "block_used s m \<or> m \<in> touched s2 e2 (K \<union> K')" if "m < alloc_limit s" "block_used s2 m" for m
    using that d1(7) d2(7) t unfolding geo by blast
  show ?thesis
    unfolding grows_def
    using st sub d2(1,2) meta b1 d1(6,8) d2(6,8) used frame data new geo by (intro conjI) (blast | metis)+
qed

text \<open>Attaching one fresh block \<open>n\<close>, as a data block or as the indirect block.\<close>

lemma grows_attach:
  assumes fs: "fs_ok s" "fs_ok s'" and fok: "file_ok s e" and meta: "same_meta e e'" "wf_inode_entry e'"
    and st: "stores s c B (lview s') s' c'" "B \<subseteq> insert (bitmap_start s) (touched s' e' K)"
    and n: "data_block s n" "\<not> block_used s n" "n \<notin> held s" "n \<in> touched s' e' K"
    and used: "\<And>m. m < alloc_limit s \<Longrightarrow> block_used s' m \<longleftrightarrow> m = n \<or> block_used s m"
    and bm: "\<And>j. j < INODE_MAX_BLOCKS \<Longrightarrow> bmap (lview s') e' j = bmap (lview s) e j \<or>
        bmap (lview s) e j = 0 \<and> j \<in> K \<and> K = {j} \<and> bmap (lview s') e' j = n \<and> i_indirect e' = i_indirect e"
    and ind: "i_indirect e' = i_indirect e \<or> i_indirect e = 0 \<and> unat (i_indirect e') = n"
    and frame: "\<And>b. b \<noteq> bitmap_start s \<Longrightarrow> b \<noteq> n \<Longrightarrow> b = 0 \<or> b \<noteq> unat (i_indirect e') \<Longrightarrow> lview s' b = lview s b"
  shows "grows s c e K s' c' e'"
proof -
  note f = file_okD [OF fok] and g = stores_geometry [OF st(1)] and d = storesD [OF st(1)]
  have n0: "n \<noteq> 0" "n < alloc_limit s" "n \<noteq> bitmap_start s" using n(1) by (auto simp: data_block_def)
  have nf: "n \<notin> fblocks (lview s) e" using f(4) n(2) by blast
  have nb: "bmap (lview s) e j \<noteq> n" if "j < INODE_MAX_BLOCKS" for j
    using nf bmap_fblocks [OF that] n0(1) by metis
  have ni: "unat (i_indirect e) \<noteq> n" using nf indirect_fblocks n0(1) by (metis unat_0)
  have sub: "fblocks (lview s') e' \<subseteq> insert n (fblocks (lview s) e)"
  proof
    fix b assume "b \<in> fblocks (lview s') e'"
    then show "b \<in> insert n (fblocks (lview s) e)"
    proof (cases rule: fblocks_cases)
      case 1
      then show ?thesis using ind indirect_fblocks [of e] by auto
    next
      case (2 k)
      then show ?thesis using bm [OF 2(2)] bmap_fblocks [OF 2(2)] by auto
    qed
  qed
  have "data_block s b \<and> block_used s' b \<and> b \<notin> held s" if "b \<in> fblocks (lview s') e'" for b
  proof (cases "b = n")
    case True
    then show ?thesis using n(1,3) used n0(2) by blast
  next
    case False
    then have b: "b \<in> fblocks (lview s) e" using sub that by blast
    then have "b < alloc_limit s" using f(3) by (simp add: data_block_def)
    then show ?thesis using b f(3,4,5) used by blast
  qed
  moreover have "j = k" if "j < INODE_MAX_BLOCKS" "k < INODE_MAX_BLOCKS" "bmap (lview s') e' j \<noteq> 0"
    "bmap (lview s') e' j = bmap (lview s') e' k" for j k
    using bm [OF that(1)] bm [OF that(2)] f(6) [OF that(1,2)] nb [OF that(1)] nb [OF that(2)] that(3,4)
    by auto
  moreover have "bmap (lview s') e' k \<noteq> unat (i_indirect e')"
    if "k < INODE_MAX_BLOCKS" "bmap (lview s') e' k \<noteq> 0" for k
    using bm [OF that(1)] f(7) [OF that(1)] ind ni nb [OF that(1)] that(2) by auto
  moreover have nby: "i_num_bytes e' = i_num_bytes e" using meta(1) by (simp add: same_meta_def) (metis InodeEntry.select_convs(5) InodeEntry.surjective InodeEntry.update_convs(6,7))
  moreover have "bmap (lview s') e' k \<noteq> 0" if "k * BLOCK_SIZE < unat (i_num_bytes e)" for k
  proof -
    have "k < INODE_MAX_BLOCKS" using that f(2) by simp
    then show ?thesis using bm f(8) [OF that] n0(1) by metis
  qed
  ultimately have ok: "file_ok s' e'"
    using meta(2) f(2) by (simp add: file_ok_def g d(2))
  have data: "lview s' (bmap (lview s) e k) = lview s (bmap (lview s) e k)"
    if k: "k < INODE_MAX_BLOCKS" "k \<notin> K" "bmap (lview s) e k \<noteq> 0" for k
  proof (rule frame)
    have "data_block s (bmap (lview s) e k)" using f(3) bmap_fblocks k by blast
    then show "bmap (lview s) e k \<noteq> bitmap_start s" by (simp add: data_block_def)
    show "bmap (lview s) e k \<noteq> n" using nb k by blast
    then show "bmap (lview s) e k = 0 \<or> bmap (lview s) e k \<noteq> unat (i_indirect e')" using ind f(7) k by metis
  qed
  have fr: "lview s' b = lview s b"
    if b: "b \<ge> alloc_limit s \<or> block_used s b \<and> b \<notin> fblocks (lview s) e" "b \<noteq> bitmap_start s" for b
  proof (cases "b = unat (i_indirect e') \<and> b \<noteq> 0")
    case True
    then show ?thesis
      using b n0 n(2) ind f(3) [OF indirect_fblocks] indirect_fblocks [of e] unfolding data_block_def
      by (metis linorder_not_le unat_0)
  next
    case False
    then show ?thesis using frame [OF b(2)] b n0(2) n(2) by (cases "b = n") auto
  qed
  have bm': "bmap (lview s') e' k = bmap (lview s) e k"
    if "k < INODE_MAX_BLOCKS" "k \<notin> K \<or> bmap (lview s) e k \<noteq> 0" for k
    using bm [OF that(1)] that(2) by auto
  have ind': "i_indirect e \<noteq> 0 \<longrightarrow> i_indirect e' = i_indirect e" using ind by blast
  have us: "\<forall>m<alloc_limit s. block_used s' m \<longrightarrow> block_used s m \<or> m \<in> touched s' e' K"
    "\<forall>m<alloc_limit s. block_used s m \<longrightarrow> block_used s' m" using used n(4) by auto
  have new: "fblocks (lview s') e' - fblocks (lview s) e \<subseteq> - Collect (block_used s)" using sub n(2) by auto
  show ?thesis
    unfolding grows_def using st fs(2) ok meta(1) bm' ind' us fr data new by (intro conjI) blast+
qed

section \<open>The block map\<close>

lemma set_addr_simps:
  assumes "length d = BLOCK_SIZE" "k < INODE_NUM_INDIRECT"
  shows "length (set_addr d k a) = BLOCK_SIZE"
    "j < INODE_NUM_INDIRECT \<Longrightarrow> get_addr (set_addr d k a) j = (if j = k then a else get_addr d j)"
  using assms by (auto simp: set_addr_def get_addr_def c32.arr_put_length [where n = 128]
      c32.arr_get_put_same [where n = 128] c32.arr_get_put_other [where n = 128])

lemma get_addr_zeros: "k < INODE_NUM_INDIRECT \<Longrightarrow> get_addr (replicate BLOCK_SIZE 0) k = 0"
  by (simp add: get_addr_def arr_get_def range_get_def min_def)

text \<open>A mapped index is returned without any change, with or without a context.\<close>

lemma inode_map_mapped:
  assumes inv: "cache_inv s" and ok: "file_ok s (i_entry ip)"
    and k: "k < INODE_MAX_BLOCKS" "bmap (lview s) (i_entry ip) k \<noteq> 0"
  obtains s' where "inode_map ctx ip k s = Ok (bmap (lview s) (i_entry ip) k, False, ctx, ip, s')"
    "\<And>c. stores s c {} (lview s) s' c"
proof (cases "k < INODE_NUM_DIRECT")
  case True
  then show thesis using that [of s] k stores_refl [OF inv] by (simp add: inode_map_def Let_def bmap_def)
next
  case False
  let ?e = "i_entry ip"
  have i0: "i_indirect ?e \<noteq> 0" using k False by (auto simp: bmap_def)
  have nh: "unat (i_indirect ?e) \<notin> held s" using file_okD(5) [OF ok] indirect_fblocks [OF i0] by blast
  have b: "bmap (lview s) ?e k = unat (get_addr (lview s (unat (i_indirect ?e))) (k - INODE_NUM_DIRECT))"
    using False k i0 by (simp add: bmap_def)
  obtain s1 s2 where r: "cache_acquire (unat (i_indirect ?e)) s = Ok s1"
    "get_data (unat (i_indirect ?e)) s1 = lview s (unat (i_indirect ?e))"
    "cache_release (unat (i_indirect ?e)) s1 = Ok s2" and st: "\<And>c. stores s c {} (lview s) s2 c"
    by (rule read_stores [OF inv nh]) blast
  have "inode_map ctx ip k s = Ok (bmap (lview s) ?e k, False, ctx, ip, s2)"
    using False k i0 r b by (simp add: inode_map_def indirect_map_def Let_def unat_eq_zero)
  then show thesis using that st by blast
qed

lemma unat_of_small: "n < alloc_limit s \<Longrightarrow> unat (word_of_nat n :: u32) = n"
proof -
  assume "n < alloc_limit s"
  also have "alloc_limit s < 2 ^ LENGTH(32)" unfolding alloc_limit_def by (rule unsigned_less)
  finally show ?thesis by (simp add: unat_of_nat take_bit_nat_eq_self)
qed

lemma same_meta_simps [simp]:
  "same_meta e (e\<lparr>i_addrs := a\<rparr>)" "same_meta e (e\<lparr>i_indirect := b\<rparr>)" "same_meta e e"
  by (simp_all add: same_meta_def)

lemma inode_map_direct:
  assumes fs: "fs_ok s" and ok: "file_ok s (i_entry ip)"
    and k: "k < INODE_NUM_DIRECT" "bmap (lview s) (i_entry ip) k = 0"
    and q: "rm c \<ge> 2" "budget c s \<le> LOG_MAX_SIZE" "free_blocks s \<noteq> {}"
  obtains n c' e' s' where "inode_map (Some c) ip k s = Ok (n, True, Some c', ip\<lparr>i_entry := e'\<rparr>, s')"
    "grows s c (i_entry ip) {k} s' c' e'" "bmap (lview s') e' k = n" "n \<noteq> 0"
    "lview s' n = replicate BLOCK_SIZE 0"
proof -
  let ?e = "i_entry ip"
  have wf: "length (i_addrs ?e) = INODE_NUM_DIRECT" using file_okD(1) [OF ok] by (simp add: wf_inode_entry_def)
  obtain n c' s' where a: "cache_alloc (Some c) s = Ok (n, Some c', s')" "data_block s n" "\<not> block_used s n"
    "n \<notin> held s" "stores s c {bitmap_start s, n} (lview s') s' c'" "fs_ok s'"
    "\<And>b. b \<noteq> n \<Longrightarrow> b \<noteq> bitmap_start s \<Longrightarrow> lview s' b = lview s b" "lview s' n = replicate BLOCK_SIZE 0"
    "\<And>m. m < alloc_limit s \<Longrightarrow> block_used s' m \<longleftrightarrow> m = n \<or> block_used s m"
    by (rule alloc_data_block [OF fs q]) blast
  define e' where "e' = ?e\<lparr>i_addrs := (i_addrs ?e)[k := word_of_nat n]\<rparr>"
  have un: "unat (word_of_nat n :: u32) = n" "n \<noteq> 0" using a(2) unat_of_small by (auto simp: data_block_def)
  have ind: "lview s' (unat (i_indirect ?e)) = lview s (unat (i_indirect ?e))" if "i_indirect ?e \<noteq> 0"
  proof -
    have "unat (i_indirect ?e) \<in> fblocks (lview s) ?e" using indirect_fblocks [OF that] .
    then have "data_block s (unat (i_indirect ?e))" "block_used s (unat (i_indirect ?e))"
      using file_okD(3,4) [OF ok] by blast+
    then show ?thesis using a(3) by (intro a(7)) (auto simp: data_block_def)
  qed
  have bm: "bmap (lview s') e' j = (if j = k then n else bmap (lview s) ?e j)" if "j < INODE_MAX_BLOCKS" for j
    using that k ind un wf by (auto simp: bmap_def e'_def)
  have tn: "n \<in> touched s' e' {k}" using bm [of k] k un by (simp add: touched_def)
  have meta: "same_meta ?e e'" "wf_inode_entry e'" using wf by (simp_all add: e'_def wf_inode_entry_def)
  have bm': "bmap (lview s') e' j = bmap (lview s) ?e j \<or>
        bmap (lview s) ?e j = 0 \<and> j \<in> {k} \<and> {k} = {j} \<and> bmap (lview s') e' j = n \<and> i_indirect e' = i_indirect ?e"
    if "j < INODE_MAX_BLOCKS" for j
    using bm [OF that] k by (simp add: e'_def)
  have g: "grows s c ?e {k} s' c' e'"
    by (rule grows_attach [OF fs a(6) ok meta a(5) _ a(2-4) tn a(9) bm'])
      (use tn a(7) in \<open>auto simp: e'_def\<close>)
  have "inode_map (Some c) ip k s = Ok (n, True, Some c', ip\<lparr>i_entry := e'\<rparr>, s')"
    using k a(1) by (simp add: inode_map_def Let_def bmap_def e'_def)
  then show thesis using that g bm [of k] k un(2) a(8) by simp
qed

lemma indirect_map_new:
  assumes fs: "fs_ok s" and i: "data_block s i" "block_used s i" "i \<notin> held s"
    and k: "k < INODE_NUM_INDIRECT" "get_addr (lview s i) k = 0"
    and q: "rm c \<ge> 3" "budget c s \<le> LOG_MAX_SIZE" "free_blocks s \<noteq> {}"
  obtains n c' s' where "indirect_map (Some c) i k md s = Ok (n, True, Some c', s')" "data_block s n"
    "\<not> block_used s n" "n \<notin> held s" "stores s c {bitmap_start s, n, i} (lview s') s' c'" "fs_ok s'"
    "lview s' i = set_addr (lview s i) k (word_of_nat n)" "lview s' n = replicate BLOCK_SIZE 0"
    "\<And>b. b \<noteq> n \<Longrightarrow> b \<noteq> bitmap_start s \<Longrightarrow> b \<noteq> i \<Longrightarrow> lview s' b = lview s b"
    "\<And>m. m < alloc_limit s \<Longrightarrow> block_used s' m \<longleftrightarrow> m = n \<or> block_used s m"
proof -
  note o = fs_okD [OF fs]
  obtain s1 where s1: "cache_acquire i s = Ok s1" "cache_inv s1" "lview s1 = lview s" "held s1 = insert i (held s)"
    "clean i s1" "\<forall>m. clean m s1 = clean m s" "env s1 = env s" "set (logged s1) = set (logged s)"
    "\<forall>c. budget c s1 = budget c s"
    using bc.acquire_ok [OF o(1) i(3)] by auto
  have sb: "sblock s1 = sblock s" using s1(7) by (simp add: env_def)
  have geo: "bitmap_start s1 = bitmap_start s" "alloc_limit s1 = alloc_limit s" "to_block_no s1 = to_block_no s"
    "num_inodes s1 = num_inodes s" "block_used s1 = block_used s" "data_block s1 = data_block s"
    by (simp_all add: bitmap_start_def alloc_limit_def to_block_no_def num_inodes_def block_used_def
        bitmap_block_def data_block_def s1(3) sb fun_eq_iff)
  have fs1: "fs_ok s1" using fs s1(2,4) i(1,2) by (auto simp: fs_ok_def geo) (simp add: data_block_def)
  have fr: "free_blocks s1 = free_blocks s" by (simp add: free_blocks_def geo)
  have q1: "rm c \<ge> 2" "budget c s1 \<le> LOG_MAX_SIZE" "free_blocks s1 \<noteq> {}" using q s1(9) fr by simp_all
  obtain n c2 s2 where a: "cache_alloc (Some c) s1 = Ok (n, Some c2, s2)" "data_block s1 n" "\<not> block_used s1 n"
    "n \<notin> held s1" "stores s1 c {bitmap_start s1, n} (lview s2) s2 c2" "fs_ok s2"
    "\<And>b. b \<noteq> n \<Longrightarrow> b \<noteq> bitmap_start s1 \<Longrightarrow> lview s2 b = lview s1 b" "lview s2 n = replicate BLOCK_SIZE 0"
    "\<And>m. m < alloc_limit s1 \<Longrightarrow> block_used s2 m \<longleftrightarrow> m = n \<or> block_used s1 m"
    by (rule alloc_data_block [OF fs1 q1]) blast
  note d2 = storesD [OF a(5)]
  have ni: "i \<noteq> n" "i \<noteq> bitmap_start s" using i a(3) by (auto simp: geo data_block_def)
  have h2: "i \<in> held s2" using d2(2) s1(4) by simp
  have v2: "lview s2 i = lview s i" using a(7) ni s1(3) by (simp add: geo)
  define D where "D = set_addr (lview s i) k (word_of_nat n)"
  have lD: "length D = BLOCK_SIZE" unfolding D_def using set_addr_simps(1) [OF bc.length_view [OF o(1)] k(1)] .
  have "card {bitmap_start s1, n} < rm c" using q(1) card_insert_le_m1 [of 2 "{n}" "bitmap_start s1"] by simp
  then have rm2: "rm c2 > 0" using stores_rm_pos [OF a(5)] by simp
  obtain c' s3 s4 where u: "cache_sync (Some c2) i (put_data i D s2) = Ok (Some c', s3)"
    "cache_release i s3 = Ok s4" and st: "stores s c (insert i {bitmap_start s1, n}) ((lview s2)(i := D)) s4 c'"
    by (rule update_around [OF a(5) _ s1(4) i(3) _ s1(7,8) _ lD rm2 q(2)]) (use s1(4,6,9) in auto)
  note V = storesD(3) [OF st]
  have st': "stores s c {bitmap_start s, n, i} (lview s4) s4 c'" using st V by (simp add: geo insert_commute)
  have bu: "block_used s4 m \<longleftrightarrow> m = n \<or> block_used s m" if "m < alloc_limit s" for m
  proof -
    have "bitmap_block s m = bitmap_start s" using that o(2) by (intro bitmap_block_single) linarith
    moreover have "sblock s4 = sblock s2" using storesD(6) [OF st] d2(6) sb by simp
    ultimately have "block_used s4 m = block_used s2 m"
      using ni sb d2(6) by (simp add: block_used_def bitmap_block_def bitmap_start_def V)
    then show ?thesis using a(9) that geo by simp
  qed
  have "get_data i s1 = lview s i" "get_data i s2 = lview s i"
    using get_data_held [of i s1] get_data_held [OF h2] s1(3,4) v2 by simp_all
  then have r: "indirect_map (Some c) i k md s = Ok (n, True, Some c', s4)"
    using s1(1) a(1) u k(2) by (simp add: indirect_map_def Let_def D_def)
  have fs4: "fs_ok s4" by (rule fs_ok_stores [OF fs st']) (simp add: bu)
  show thesis
    by (rule that [OF r _ _ _ st' fs4 _ _ _ bu])
      (use a(2-4,7,8) ni s1(3,4) in \<open>auto simp: V geo D_def\<close>)
qed

text \<open>Operations that change no block, or only blocks of the file that are mapped already.\<close>

lemma grows_update:
  assumes fs: "fs_ok s" and fok: "file_ok s e" and st: "stores s c B V s' c'"
    and V: "\<And>b. b \<notin> bmap (lview s) e ` K - {0} \<Longrightarrow> V b = lview s b"
    and B: "B \<subseteq> bmap (lview s) e ` K - {0}" and K: "K \<subseteq> {..<INODE_MAX_BLOCKS}"
  shows "grows s c e K s' c' e" "\<And>k. k < INODE_MAX_BLOCKS \<Longrightarrow> bmap (lview s') e k = bmap (lview s) e k"
    "\<And>m. m < alloc_limit s \<Longrightarrow> block_used s' m = block_used s m"
proof -
  note f = file_okD [OF fok] and d = storesD [OF st] and g = stores_geometry [OF st]
  have sub: "bmap (lview s) e ` K - {0} \<subseteq> fblocks (lview s) e" using K by (auto simp: fblocks_def)
  have other: "V b = lview s b" if "b \<notin> fblocks (lview s) e" for b using V sub that by blast
  have ni: "V (unat (i_indirect e)) = lview s (unat (i_indirect e))"
  proof (rule V, rule notI)
    assume "unat (i_indirect e) \<in> bmap (lview s) e ` K - {0}"
    then obtain k where "unat (i_indirect e) = bmap (lview s) e k" "k \<in> K" "bmap (lview s) e k \<noteq> 0" by auto
    then show False using f(7) [of k] K by auto
  qed
  have bm: "bmap V e k = bmap (lview s) e k" for k by (simp add: bmap_def ni)
  have fb: "fblocks V e = fblocks (lview s) e" by (simp add: fblocks_def bm)
  have notbm: "bitmap_start s \<notin> fblocks (lview s) e" using f(3) by (auto simp: data_block_def)
  have bu: "block_used s' m = block_used s m" if "m < alloc_limit s" for m
    by (rule block_used_view [OF st])
      (use that fs_okD(2) [OF fs] other [OF notbm] bitmap_block_single [of m s] in auto)
  have fs': "fs_ok s'" by (rule fs_ok_stores [OF fs st]) (simp add: bu)
  have used: "block_used s' b = block_used s b" if "b \<in> fblocks (lview s) e" for b
    using bu f(3) [OF that] by (simp add: data_block_def)
  have ok: "file_ok s' e" using fok by (simp add: file_ok_def d(3) g bm fb d(2) used)
  have data: "V (bmap (lview s) e k) = lview s (bmap (lview s) e k)"
    if k: "k < INODE_MAX_BLOCKS" "k \<notin> K" "bmap (lview s) e k \<noteq> 0" for k
  proof (rule V)
    show "bmap (lview s) e k \<notin> bmap (lview s) e ` K - {0}" using f(6) [OF k(1) _ k(3)] k(2) K by blast
  qed
  have t: "bmap (lview s) e ` K - {0} \<subseteq> touched s' e K" by (auto simp: touched_def d(3) bm)
  have lim: "b \<notin> fblocks (lview s) e" if "b \<ge> alloc_limit s" for b using f(3) [of b] that unfolding data_block_def by linarith
  have "\<exists>B. stores s c B V s' c' \<and> B \<subseteq> insert (bitmap_start s) (touched s' e K)" using st B t by blast
  then show "grows s c e K s' c' e"
    unfolding grows_def d(3) bm fb using fs' ok data bu other lim by simp
  show "bmap (lview s') e k = bmap (lview s) e k" for k by (simp add: d(3) bm)
  show "block_used s' m = block_used s m" if "m < alloc_limit s" for m using bu that .
qed

lemma grows_new_indirect:
  assumes fs: "fs_ok s" and ok: "file_ok s e" and i0: "i_indirect e = 0"
    and q: "rm c \<ge> 2" "budget c s \<le> LOG_MAX_SIZE" "free_blocks s \<noteq> {}"
  obtains n c' s' where "cache_alloc (Some c) s = Ok (n, Some c', s')" "n \<noteq> 0"
    "unat (word_of_nat n :: u32) = n" "grows s c e {} s' c' (e\<lparr>i_indirect := word_of_nat n\<rparr>)"
    "card (free_blocks s) = card (free_blocks s') + 1" "stores s c {bitmap_start s, n} (lview s') s' c'"
proof -
  obtain n c' s' where a: "cache_alloc (Some c) s = Ok (n, Some c', s')" "data_block s n" "\<not> block_used s n"
    "n \<notin> held s" "stores s c {bitmap_start s, n} (lview s') s' c'" "fs_ok s'"
    "\<And>b. b \<noteq> n \<Longrightarrow> b \<noteq> bitmap_start s \<Longrightarrow> lview s' b = lview s b" "lview s' n = replicate BLOCK_SIZE 0"
    "\<And>m. m < alloc_limit s \<Longrightarrow> block_used s' m \<longleftrightarrow> m = n \<or> block_used s m"
    "card (free_blocks s) = card (free_blocks s') + 1"
    by (rule alloc_data_block [OF fs q]) blast
  have un: "unat (word_of_nat n :: u32) = n" "n \<noteq> 0" using a(2) unat_of_small by (auto simp: data_block_def)
  let ?e = "e\<lparr>i_indirect := word_of_nat n\<rparr>"
  have bm: "bmap (lview s') ?e j = bmap (lview s) e j" if "j < INODE_MAX_BLOCKS" for j
    using that i0 un a(8) by (simp add: bmap_def get_addr_zeros)
  have t: "n \<in> touched s' ?e {}" using un by (simp add: touched_def)
  have wf: "wf_inode_entry ?e" using file_okD(1) [OF ok] by (simp add: wf_inode_entry_def)
  have "grows s c e {} s' c' ?e"
    by (rule grows_attach [OF fs a(6) ok _ wf a(5) _ a(2-4) t a(9)]) (use bm t i0 un a(7) in auto)
  then show thesis using that a(1,5,10) un by blast
qed

lemma inode_map_indirect:
  assumes fs: "fs_ok s" and ok: "file_ok s e" and i0: "i_indirect e \<noteq> 0"
    and k: "INODE_NUM_DIRECT \<le> k" "k < INODE_MAX_BLOCKS" "bmap (lview s) e k = 0"
    and q: "rm c \<ge> 3" "budget c s \<le> LOG_MAX_SIZE" "free_blocks s \<noteq> {}"
  obtains n c' s' where
    "indirect_map (Some c) (unat (i_indirect e)) (k - INODE_NUM_DIRECT) md s = Ok (n, True, Some c', s')"
    "grows s c e {k} s' c' e" "bmap (lview s') e k = n" "n \<noteq> 0" "lview s' n = replicate BLOCK_SIZE 0"
proof -
  let ?i = "unat (i_indirect e)" let ?k = "k - INODE_NUM_DIRECT"
  note f = file_okD [OF ok] and fi = indirect_fblocks [OF i0, of "lview s"]
  have k': "?k < INODE_NUM_INDIRECT" using k by simp
  have g0: "get_addr (lview s ?i) ?k = 0" using k i0 by (simp add: bmap_def unat_eq_zero)
  obtain n c' s' where r: "indirect_map (Some c) ?i ?k md s = Ok (n, True, Some c', s')" "data_block s n"
    "\<not> block_used s n" "n \<notin> held s" "stores s c {bitmap_start s, n, ?i} (lview s') s' c'" "fs_ok s'"
    "lview s' ?i = set_addr (lview s ?i) ?k (word_of_nat n)" "lview s' n = replicate BLOCK_SIZE 0"
    "\<And>b. b \<noteq> n \<Longrightarrow> b \<noteq> bitmap_start s \<Longrightarrow> b \<noteq> ?i \<Longrightarrow> lview s' b = lview s b"
    "\<And>m. m < alloc_limit s \<Longrightarrow> block_used s' m \<longleftrightarrow> m = n \<or> block_used s m"
    by (rule indirect_map_new [OF fs f(3) [OF fi] f(4) [OF fi] f(5) [OF fi] k' g0 q, where md = md]) blast
  have un: "unat (word_of_nat n :: u32) = n" "n \<noteq> 0" using r(2) unat_of_small by (auto simp: data_block_def)
  have bm: "bmap (lview s') e j = (if j = k then n else bmap (lview s) e j)" if "j < INODE_MAX_BLOCKS" for j
  proof (cases "j < INODE_NUM_DIRECT")
    case False
    then have j: "j - INODE_NUM_DIRECT < INODE_NUM_INDIRECT" using that by simp
    have "j - INODE_NUM_DIRECT = ?k \<longleftrightarrow> j = k" using False k by auto
    then show ?thesis
      using set_addr_simps(2) [OF bc.length_view [OF fs_okD(1) [OF fs]] k' j, of "?i" "word_of_nat n"]
        False that i0 un by (simp add: bmap_def r(7))
  qed (use k in \<open>simp add: bmap_def\<close>)
  have t: "n \<in> touched s' e {k}" "?i \<in> touched s' e {k}"
    using bm [OF k(2)] un i0 by (simp_all add: touched_def unat_eq_zero)
  have "grows s c e {k} s' c' e"
    by (rule grows_attach [OF fs r(6) ok _ f(1) r(5) _ r(2-4) t(1) r(10)]) (use bm t k r(9) i0 in \<open>auto simp: unat_eq_zero\<close>)
  then show thesis using that r(1,8) bm [OF k(2)] un(2) by simp
qed

lemma inode_map_ok:
  assumes fs: "fs_ok s" and ok: "file_ok s (i_entry ip)" and k: "k < INODE_MAX_BLOCKS"
    and q: "rm c \<ge> 5" "budget c s \<le> LOG_MAX_SIZE" "card (free_blocks s) \<ge> 2"
  obtains c' e' s' where
    "inode_map (Some c) ip k s = Ok (bmap (lview s') e' k, bmap (lview s) (i_entry ip) k = 0, Some c',
       ip\<lparr>i_entry := e'\<rparr>, s')"
    "grows s c (i_entry ip) {k} s' c' e'" "bmap (lview s') e' k \<noteq> 0"
    "lview s' (bmap (lview s') e' k) = (if bmap (lview s) (i_entry ip) k = 0 then replicate BLOCK_SIZE 0
       else lview s (bmap (lview s) (i_entry ip) k))"
    "bmap (lview s) (i_entry ip) k \<noteq> 0 \<Longrightarrow> e' = i_entry ip"
proof -
  let ?e = "i_entry ip"
  have free: "free_blocks s \<noteq> {}" using q(3) by auto
  consider (old) "bmap (lview s) ?e k \<noteq> 0" | (direct) "bmap (lview s) ?e k = 0" "k < INODE_NUM_DIRECT"
    | (ind) "bmap (lview s) ?e k = 0" "INODE_NUM_DIRECT \<le> k" "i_indirect ?e \<noteq> 0"
    | (new) "bmap (lview s) ?e k = 0" "INODE_NUM_DIRECT \<le> k" "i_indirect ?e = 0" by linarith
  then show thesis
  proof cases
    case old
    obtain s' where r: "inode_map (Some c) ip k s = Ok (bmap (lview s) ?e k, False, Some c, ip, s')"
      "\<And>c. stores s c {} (lview s) s' c"
      by (rule inode_map_mapped [OF fs_okD(1) [OF fs] ok k old]) blast
    have v: "lview s' = lview s" using storesD(3) [OF r(2)] .
    have "grows s c ?e {k} s' c ?e" by (rule grows_update(1) [OF fs ok r(2)]) (use k in auto)
    then show thesis using that [of s' ?e c] r(1) old v by simp
  next
    case direct
    have q2: "rm c \<ge> 2" using q(1) by simp
    show thesis by (rule inode_map_direct [OF fs ok direct(2,1) q2 q(2) free]) (use that direct(1) in auto)
  next
    case ind
    have q2: "rm c \<ge> 3" using q(1) by simp
    obtain n c' s' where r:
      "indirect_map (Some c) (unat (i_indirect ?e)) (k - INODE_NUM_DIRECT) False s = Ok (n, True, Some c', s')"
      "grows s c ?e {k} s' c' ?e" "bmap (lview s') ?e k = n" "n \<noteq> 0" "lview s' n = replicate BLOCK_SIZE 0"
      by (rule inode_map_indirect [OF fs ok ind(3,2) k ind(1) q2 q(2) free])
    then show thesis using that [of s' ?e c'] ind k by (simp add: inode_map_def Let_def unat_eq_zero)
  next
    case new
    have q2: "rm c \<ge> 2" using q(1) by simp
    obtain n c1 s1 where a: "cache_alloc (Some c) s = Ok (n, Some c1, s1)" "n \<noteq> 0"
      "unat (word_of_nat n :: u32) = n" and g1: "grows s c ?e {} s1 c1 (?e\<lparr>i_indirect := word_of_nat n\<rparr>)"
      and cf: "card (free_blocks s) = card (free_blocks s1) + 1"
      and st: "stores s c {bitmap_start s, n} (lview s1) s1 c1"
      by (rule grows_new_indirect [OF fs ok new(3) q2 q(2) free])
    let ?e1 = "?e\<lparr>i_indirect := word_of_nat n\<rparr>"
    have i1: "i_indirect ?e1 \<noteq> 0" using a(2,3) by (metis InodeEntry.select_convs(7) InodeEntry.surjective InodeEntry.update_convs(7) unat_0)
    have b1: "bmap (lview s1) ?e1 k = 0" using growsD(4) [OF g1 k] new(1) by simp
    have "rm c \<le> rm c1 + 2"
      using stores_rm [OF st] card_mono [of "{bitmap_start s, n}" "{bitmap_start s, n} - set (logged s)"]
        card_insert_le_m1 [of 2 "{n}" "bitmap_start s"] by fastforce
    then have q1: "rm c1 \<ge> 3" "budget c1 s1 \<le> LOG_MAX_SIZE" "free_blocks s1 \<noteq> {}"
      using q cf storesD(5) [OF st] by auto
    obtain n' c' s' where r:
      "indirect_map (Some c1) (unat (i_indirect ?e1)) (k - INODE_NUM_DIRECT) True s1 = Ok (n', True, Some c', s')"
      "grows s1 c1 ?e1 {k} s' c' ?e1" "bmap (lview s') ?e1 k = n'" "n' \<noteq> 0" "lview s' n' = replicate BLOCK_SIZE 0"
      by (rule inode_map_indirect [OF growsD(1,2) [OF g1] i1 new(2) k b1 q1])
    have "grows s c ?e {k} s' c' ?e1" using grows_trans [OF g1 r(2)] by simp
    then show thesis using that [of s' ?e1 c'] r new k a by (simp add: inode_map_def Let_def)
  qed
qed

section \<open>Writing\<close>

text \<open>What an operation that grows a file costs of the quota and of the free blocks.\<close>

lemma grows_cost:
  assumes g: "grows s c e K s' c' e'" and K: "finite K"
  shows "rm c \<le> rm c' + card K + 2" "card (free_blocks s) \<le> card (free_blocks s') + card K + 1"
    "budget c' s' = budget c s"
proof -
  obtain B where B: "stores s c B (lview s') s' c'" "B \<subseteq> insert (bitmap_start s) (touched s' e' K)"
    by (rule growsE [OF g])
  have t: "finite (touched s' e' K)" "card (touched s' e' K) \<le> card K + 1"
  proof -
    have "touched s' e' K \<subseteq> insert (unat (i_indirect e')) (bmap (lview s') e' ` K)" by (auto simp: touched_def)
    then have "card (touched s' e' K) \<le> card (insert (unat (i_indirect e')) (bmap (lview s') e' ` K))"
      using K by (intro card_mono) simp_all
    then show "card (touched s' e' K) \<le> card K + 1"
      using card_image_le [OF K, of "bmap (lview s') e'"]
        card_insert_le_m1 [of "card K + 1" "bmap (lview s') e' ` K" "unat (i_indirect e')"] by simp
    show "finite (touched s' e' K)" using K by (simp add: touched_def)
  qed
  have fB: "finite B" using B(2) t(1) finite_subset by blast
  have "card B \<le> card (insert (bitmap_start s) (touched s' e' K))" using B(2) t(1) by (intro card_mono) simp_all
  then have "card B \<le> card K + 2"
    using card_insert_le_m1 [of "card K + 2" "touched s' e' K" "bitmap_start s"] t(2) by simp
  moreover have "card (B - set (logged s)) \<le> card B" using fB by (intro card_mono) auto
  ultimately show "rm c \<le> rm c' + card K + 2" using stores_rm [OF B(1) fB] by linarith
  have "free_blocks s \<subseteq> free_blocks s' \<union> touched s' e' K"
    using growsD(7) [OF g] stores_geometry(2) [OF B(1)] by (auto simp: free_blocks_def)
  then have "card (free_blocks s) \<le> card (free_blocks s' \<union> touched s' e' K)" using t(1) by (intro card_mono) auto
  also have "\<dots> \<le> card (free_blocks s') + card (touched s' e' K)" by (rule card_Un_le)
  finally show "card (free_blocks s) \<le> card (free_blocks s') + card K + 1" using t(2) by linarith
  show "budget c' s' = budget c s" by (rule storesD(5) [OF B(1)])
qed

text \<open>
  \<open>writes V e off src V' e'\<close>: \<open>src\<close> has been written at \<open>off\<close>, and every other byte of a mapped
  block is what it was, or zero where the block is new.
\<close>

definition writes ::
  "(nat \<Rightarrow> u8 list) \<Rightarrow> InodeEntry \<Rightarrow> nat \<Rightarrow> u8 list \<Rightarrow> (nat \<Rightarrow> u8 list) \<Rightarrow> InodeEntry \<Rightarrow> bool" where
  "writes V e off src V' e' \<longleftrightarrow>
     (\<forall>i. i div BLOCK_SIZE < INODE_MAX_BLOCKS \<longrightarrow> bmap V' e' (i div BLOCK_SIZE) \<noteq> 0 \<longrightarrow>
        fbyte V' e' i =
          (if off \<le> i \<and> i < off + length src then src ! (i - off)
           else if bmap V e (i div BLOCK_SIZE) \<noteq> 0 then fbyte V e i else 0))"

lemma chunk_bounds:
  assumes "src \<noteq> []"
  shows "off mod BLOCK_SIZE + chunk off (length src) \<le> BLOCK_SIZE" "0 < chunk off (length src)"
    "chunk off (length src) \<le> length src"
    "chunk off (length src) < length src \<Longrightarrow> (off + chunk off (length src)) mod BLOCK_SIZE = 0"
proof -
  have m: "off mod BLOCK_SIZE < BLOCK_SIZE" by simp
  then show "off mod BLOCK_SIZE + chunk off (length src) \<le> BLOCK_SIZE" "0 < chunk off (length src)"
    "chunk off (length src) \<le> length src"
    using assms by (auto simp: chunk_def)
  assume "chunk off (length src) < length src"
  then have "chunk off (length src) = BLOCK_SIZE - off mod BLOCK_SIZE" by (auto simp: chunk_def split: if_splits)
  then have "off + chunk off (length src) = off div BLOCK_SIZE * BLOCK_SIZE + BLOCK_SIZE"
    using m div_mult_mod_eq [of off BLOCK_SIZE] by linarith
  then show "(off + chunk off (length src)) mod BLOCK_SIZE = 0" by simp
qed

lemma same_block:
  assumes "off mod BLOCK_SIZE + sz \<le> BLOCK_SIZE"
  shows "off \<le> i \<and> i < off + sz \<longleftrightarrow>
    i div BLOCK_SIZE = off div BLOCK_SIZE \<and> off mod BLOCK_SIZE \<le> i mod BLOCK_SIZE \<and> i mod BLOCK_SIZE < off mod BLOCK_SIZE + sz"
    (is "?l \<longleftrightarrow> ?r")
proof -
  note o = div_mult_mod_eq [of off BLOCK_SIZE] and i = div_mult_mod_eq [of i BLOCK_SIZE]
  show ?thesis
  proof
    assume l: ?l
    have q: "i div BLOCK_SIZE = off div BLOCK_SIZE"
    proof (rule antisym)
      show "off div BLOCK_SIZE \<le> i div BLOCK_SIZE" using l by (intro div_le_mono) simp
      have "i < off div BLOCK_SIZE * BLOCK_SIZE + BLOCK_SIZE" using l assms o by linarith
      then have "i < (off div BLOCK_SIZE + 1) * BLOCK_SIZE" by (simp only: distrib_right mult_1)
      then have "i div BLOCK_SIZE < off div BLOCK_SIZE + 1" by (rule less_mult_imp_div_less)
      then show "i div BLOCK_SIZE \<le> off div BLOCK_SIZE" by simp
    qed
    have "off mod BLOCK_SIZE \<le> i mod BLOCK_SIZE" "i mod BLOCK_SIZE < off mod BLOCK_SIZE + sz"
      using l o i [unfolded q] by linarith+
    then show ?r using q by blast
  next
    assume r: ?r
    then have q: "i div BLOCK_SIZE = off div BLOCK_SIZE" by blast
    have "off \<le> i" "i < off + sz" using r o i [unfolded q] by linarith+
    then show ?l by blast
  qed
qed

lemma write_chunk:
  assumes fs: "fs_ok s" and ok: "file_ok s (i_entry ip)" and k: "off div BLOCK_SIZE < INODE_MAX_BLOCKS"
    and q: "rm c \<ge> 5" "budget c s \<le> LOG_MAX_SIZE" "card (free_blocks s) \<ge> 2" and src: "src \<noteq> []"
  obtains bno c1 e1 s1 s1a c2 s1b s2 where
    "inode_map (Some c) ip (off div BLOCK_SIZE) s =
       Ok (bno, bmap (lview s) (i_entry ip) (off div BLOCK_SIZE) = 0, Some c1, ip\<lparr>i_entry := e1\<rparr>, s1)"
    "cache_acquire bno s1 = Ok s1a"
    "cache_sync (Some c1) bno (put_data bno (range_put (off mod BLOCK_SIZE)
       (take (chunk off (length src)) src) (get_data bno s1a)) s1a) = Ok (Some c2, s1b)"
    "cache_release bno s1b = Ok s2" "grows s c (i_entry ip) {off div BLOCK_SIZE} s2 c2 e1"
    "bmap (lview s2) e1 (off div BLOCK_SIZE) \<noteq> 0"
    "writes (lview s) (i_entry ip) off (take (chunk off (length src)) src) (lview s2) e1"
    "bmap (lview s) (i_entry ip) (off div BLOCK_SIZE) \<noteq> 0 \<Longrightarrow> e1 = i_entry ip"
proof -
  let ?k = "off div BLOCK_SIZE" let ?e = "i_entry ip" let ?sz = "chunk off (length src)" let ?o = "off mod BLOCK_SIZE"
  note cb = chunk_bounds [OF src, of off]
  obtain c1 e1 s1 where m:
    "inode_map (Some c) ip ?k s = Ok (bmap (lview s1) e1 ?k, bmap (lview s) ?e ?k = 0, Some c1,
       ip\<lparr>i_entry := e1\<rparr>, s1)" and g1: "grows s c ?e {?k} s1 c1 e1" and b0: "bmap (lview s1) e1 ?k \<noteq> 0"
    and v1: "lview s1 (bmap (lview s1) e1 ?k) = (if bmap (lview s) ?e ?k = 0 then replicate BLOCK_SIZE 0
       else lview s (bmap (lview s) ?e ?k))" and same: "bmap (lview s) ?e ?k \<noteq> 0 \<Longrightarrow> e1 = ?e"
    by (rule inode_map_ok [OF fs ok k q]) blast
  define bno where "bno = bmap (lview s1) e1 ?k"
  note d1 = growsD [OF g1] and cost = grows_cost [OF g1]
  have inv: "cache_inv s1" by (rule fs_okD(1) [OF d1(1)])
  have nh: "bno \<notin> held s1" using file_okD(5) [OF d1(2)] bmap_fblocks [OF k b0] by (simp add: bno_def)
  define D where "D = range_put ?o (take ?sz src) (lview s1 bno)"
  have len: "length (lview s1 bno) = BLOCK_SIZE" using bc.length_view [OF inv] .
  have lt: "length (take ?sz src) = ?sz" using cb by simp
  have lD: "length D = BLOCK_SIZE" unfolding D_def using len lt cb(1) by (simp add: buf_simps)
  have rm1: "bno \<in> set (logged s1) \<or> rm c1 > 0" using cost(1) q(1) by simp
  have bd: "budget c1 s1 \<le> LOG_MAX_SIZE" using cost(3) q(2) by simp
  obtain s1a c2 s1b s2 where u: "cache_acquire bno s1 = Ok s1a" "get_data bno s1a = lview s1 bno"
    "cache_sync (Some c1) bno (put_data bno D s1a) = Ok (Some c2, s1b)" "cache_release bno s1b = Ok s2"
    and st: "stores s1 c1 {bno} ((lview s1)(bno := D)) s2 c2"
    by (rule update_stores [OF inv nh rm1 bd lD]) blast
  note v2 = storesD(3) [OF st]
  have p: "((lview s1)(bno := D)) b = lview s1 b" if "b \<notin> bmap (lview s1) e1 ` {?k} - {0}" for b
    using that b0 by (auto simp: bno_def)
  have p': "{bno} \<subseteq> bmap (lview s1) e1 ` {?k} - {0}" "{?k} \<subseteq> {..<INODE_MAX_BLOCKS}"
    using b0 k by (auto simp: bno_def)
  have up: "grows s1 c1 e1 {?k} s2 c2 e1" by (rule grows_update(1) [OF d1(1,2) st _ p']) (rule p)
  have up2: "bmap (lview s2) e1 k = bmap (lview s1) e1 k" if "k < INODE_MAX_BLOCKS" for k
    by (rule grows_update(2) [OF d1(1,2) st _ p' that]) (rule p)
  have g: "grows s c ?e {?k} s2 c2 e1" using grows_trans [OF g1 up] k by simp
  have "writes (lview s) ?e off (take ?sz src) (lview s2) e1"
    unfolding writes_def lt
  proof (intro allI impI)
    fix i assume i: "i div BLOCK_SIZE < INODE_MAX_BLOCKS" "bmap (lview s2) e1 (i div BLOCK_SIZE) \<noteq> 0"
    let ?i = "i mod BLOCK_SIZE"
    show "fbyte (lview s2) e1 i = (if off \<le> i \<and> i < off + ?sz then take ?sz src ! (i - off)
        else if bmap (lview s) ?e (i div BLOCK_SIZE) \<noteq> 0 then fbyte (lview s) ?e i else 0)"
    proof (cases "i div BLOCK_SIZE = ?k")
      case True
      have "fbyte (lview s2) e1 i = lview s2 bno ! ?i" unfolding fbyte_def True up2 [OF k] bno_def ..
      also have "\<dots> = D ! ?i" by (simp add: v2)
      also have "\<dots> = (if ?o \<le> ?i \<and> ?i < ?o + ?sz then take ?sz src ! (?i - ?o) else lview s1 bno ! ?i)"
        unfolding D_def using len lt cb(1) by (subst nth_range_put) simp_all
      also have "?i - ?o = i - off"
        using div_mult_mod_eq [of i BLOCK_SIZE] div_mult_mod_eq [of off BLOCK_SIZE] True by linarith
      finally show ?thesis
        using True v1 by (simp add: same_block [OF cb(1)] fbyte_def bno_def)
    next
      case False
      have bm: "bmap (lview s2) e1 (i div BLOCK_SIZE) = bmap (lview s) ?e (i div BLOCK_SIZE)"
        using growsD(4) [OF g i(1)] False by simp
      then have "lview s2 (bmap (lview s) ?e (i div BLOCK_SIZE)) = lview s (bmap (lview s) ?e (i div BLOCK_SIZE))"
        using growsD(11) [OF g i(1)] False i(2) by simp
      then show ?thesis using False bm i(2) by (simp add: same_block [OF cb(1)] fbyte_def)
    qed
  qed
  then show thesis
    using that [of bno c1 e1 s1 s1a c2 s1b s2] m u g b0 up2 [OF k] same by (simp add: bno_def D_def)
qed

text \<open>The block indices that a write of \<open>n\<close> bytes at \<open>off\<close> touches.\<close>

definition span :: "nat \<Rightarrow> nat \<Rightarrow> nat set" where
  "span off n = (\<lambda>i. i div BLOCK_SIZE) ` {off..<off + n}"

lemma finite_span [simp]: "finite (span off n)"
  by (simp add: span_def)

lemma span_bound: "off + n \<le> INODE_MAX_BYTES \<Longrightarrow> span off n \<subseteq> {..<INODE_MAX_BLOCKS}"
  by (auto simp: span_def intro!: less_mult_imp_div_less)

lemma span_lower: "k \<in> span off n \<Longrightarrow> off div BLOCK_SIZE \<le> k"
  by (auto simp: span_def intro: div_le_mono)

lemma span_step:
  assumes "off mod BLOCK_SIZE + sz \<le> BLOCK_SIZE" "0 < sz" "sz \<le> n"
  shows "span off n = insert (off div BLOCK_SIZE) (span (off + sz) (n - sz))"
proof -
  have "{off..<off + n} = {off..<off + sz} \<union> {off + sz..<off + sz + (n - sz)}" using assms by auto
  moreover have "(\<lambda>i. i div BLOCK_SIZE) ` {off..<off + sz} = (\<lambda>_. off div BLOCK_SIZE) ` {off..<off + sz}"
    by (rule image_cong [OF refl]) (use same_block [OF assms(1)] in auto)
  moreover have "(\<lambda>_. off div BLOCK_SIZE) ` {off..<off + sz} = {off div BLOCK_SIZE}"
    using assms(2) by (simp add: image_constant_conv)
  ultimately show ?thesis by (simp add: span_def image_Un)
qed

lemma writes_trans:
  assumes "writes V e off (take n src) V1 e1" "writes V1 e1 (off + n) (drop n src) V2 e2" "n \<le> length src"
    and keep: "\<And>k. k < INODE_MAX_BLOCKS \<Longrightarrow> bmap V e k \<noteq> 0 \<Longrightarrow> bmap V1 e1 k \<noteq> 0"
    and new: "\<And>i. off \<le> i \<Longrightarrow> i < off + n \<Longrightarrow> bmap V1 e1 (i div BLOCK_SIZE) \<noteq> 0"
  shows "writes V e off src V2 e2"
  unfolding writes_def
proof (intro allI impI)
  fix i assume i: "i div BLOCK_SIZE < INODE_MAX_BLOCKS" "bmap V2 e2 (i div BLOCK_SIZE) \<noteq> 0"
  note w2 = assms(2) [unfolded writes_def, rule_format, OF i]
  note w1 = assms(1) [unfolded writes_def, rule_format, OF i(1)]
  consider "off \<le> i" "i < off + n" | "off + n \<le> i" | "i < off" by linarith
  then show "fbyte V2 e2 i = (if off \<le> i \<and> i < off + length src then src ! (i - off)
      else if bmap V e (i div BLOCK_SIZE) \<noteq> 0 then fbyte V e i else 0)"
    by cases (use w1 w2 keep [OF i(1)] new [of i] assms(3) in \<open>auto simp: not_less\<close>)
qed

lemma write_loop_ok:
  assumes "grows s0 c0 e0 K s c (i_entry ip)" "K \<subseteq> {..<INODE_MAX_BLOCKS}" "finite K"
    and "src \<noteq> [] \<Longrightarrow> \<forall>j\<in>K. j < off div BLOCK_SIZE" "off + length src \<le> INODE_MAX_BYTES"
    and "rm c0 \<ge> card (K \<union> span off (length src)) + 6" "budget c0 s0 \<le> LOG_MAX_SIZE"
    and "card (free_blocks s0) \<ge> card (K \<union> span off (length src)) + 2"
  shows "\<exists>c' e' s'. write_loop (Some c) ip off src md s =
      Ok (md \<or> (\<exists>k\<in>span off (length src). bmap (lview s) (i_entry ip) k = 0), Some c', ip\<lparr>i_entry := e'\<rparr>, s') \<and>
    grows s0 c0 e0 (K \<union> span off (length src)) s' c' e' \<and>
    writes (lview s) (i_entry ip) off src (lview s') e' \<and>
    (\<forall>k\<in>span off (length src). bmap (lview s') e' k \<noteq> 0) \<and>
    (\<forall>k<INODE_MAX_BLOCKS. bmap (lview s) (i_entry ip) k \<noteq> 0 \<longrightarrow> bmap (lview s') e' k \<noteq> 0) \<and>
    ((\<forall>k\<in>span off (length src). bmap (lview s) (i_entry ip) k \<noteq> 0) \<longrightarrow> e' = i_entry ip)"
  using assms
proof (induction "length src" arbitrary: src off c ip md s K rule: less_induct)
  case less
  note prem = less.prems
  show ?case
  proof (cases "src = []")
    case True
    then show ?thesis
      using prem(1) by (intro exI [of _ c] exI [of _ "i_entry ip"] exI [of _ s])
        (auto simp add: write_loop.simps span_def writes_def)
  next
    case False
    let ?k = "off div BLOCK_SIZE" let ?sz = "chunk off (length src)" let ?e = "i_entry ip"
    let ?src = "drop ?sz src"
    note cb = chunk_bounds [OF False, of off]
    have sp: "span off (length src) = insert ?k (span (off + ?sz) (length ?src))"
      using span_step [OF cb(1-3)] by simp
    have kK: "?k \<notin> K" using prem(4) False by auto
    have card: "card K + 1 \<le> card (K \<union> span off (length src))"
    proof -
      have "insert ?k K \<subseteq> K \<union> span off (length src)" unfolding sp by blast
      then have "card (insert ?k K) \<le> card (K \<union> span off (length src))" using prem(3) by (intro card_mono) simp_all
      then show ?thesis using kK prem(3) by simp
    qed
    have k: "?k < INODE_MAX_BLOCKS" using span_bound [OF prem(5)] sp by auto
    note cost = grows_cost [OF prem(1,3)] and d = growsD [OF prem(1)]
    have q: "rm c \<ge> 5" "budget c s \<le> LOG_MAX_SIZE" "card (free_blocks s) \<ge> 2"
      using cost prem(6-8) card by linarith+
    obtain bno c1 e1 s1 s1a c2 s1b s2 where w:
      "inode_map (Some c) ip ?k s = Ok (bno, bmap (lview s) ?e ?k = 0, Some c1, ip\<lparr>i_entry := e1\<rparr>, s1)"
      "cache_acquire bno s1 = Ok s1a"
      "cache_sync (Some c1) bno (put_data bno (range_put (off mod BLOCK_SIZE)
         (take ?sz src) (get_data bno s1a)) s1a) = Ok (Some c2, s1b)" "cache_release bno s1b = Ok s2"
      and g: "grows s c ?e {?k} s2 c2 e1" and b0: "bmap (lview s2) e1 ?k \<noteq> 0"
      and wr: "writes (lview s) ?e off (take ?sz src) (lview s2) e1"
      and same: "bmap (lview s) ?e ?k \<noteq> 0 \<Longrightarrow> e1 = ?e"
      by (rule write_chunk [OF d(1,2) k q False]) blast
    have g': "grows s0 c0 e0 (K \<union> {?k}) s2 c2 (i_entry (ip\<lparr>i_entry := e1\<rparr>))"
      using grows_trans [OF prem(1) g prem(2)] by simp
    have eqK: "K \<union> {?k} \<union> span (off + ?sz) (length ?src) = K \<union> span off (length src)" using sp by auto
    have next_block: "\<forall>j\<in>K \<union> {?k}. j < (off + ?sz) div BLOCK_SIZE" if "?src \<noteq> []"
    proof -
      have z: "(off + ?sz) mod BLOCK_SIZE = 0" using cb(4) that by simp
      have "?k < (off + ?sz) div BLOCK_SIZE"
        using z cb(2) div_mult_mod_eq [of "off + ?sz" BLOCK_SIZE] by (intro div_less_iff_less_mult [THEN iffD2]) linarith+
      then show ?thesis using prem(4) False by auto
    qed
    have lt: "length ?src < length src" using cb(2) False by simp
    have P: "K \<union> {?k} \<subseteq> {..<INODE_MAX_BLOCKS}" "finite (K \<union> {?k})" "off + ?sz + length ?src \<le> INODE_MAX_BYTES"
      using prem(2,3,5) k cb(3) by auto
    let ?md = "bmap (lview s) ?e ?k = 0 \<or> md" let ?ip = "ip\<lparr>i_entry := e1\<rparr>"
    obtain c' e' s' where IH: "write_loop (Some c2) ?ip (off + ?sz) ?src ?md s2 =
        Ok (?md \<or> (\<exists>k\<in>span (off + ?sz) (length ?src). bmap (lview s2) (i_entry ?ip) k = 0), Some c', ?ip\<lparr>i_entry := e'\<rparr>, s')"
      and gr: "grows s0 c0 e0 (K \<union> span off (length src)) s' c' e'"
      and wr': "writes (lview s2) (i_entry ?ip) (off + ?sz) ?src (lview s') e'"
      and mapped: "\<forall>k\<in>span (off + ?sz) (length ?src). bmap (lview s') e' k \<noteq> 0"
        "\<forall>k<INODE_MAX_BLOCKS. bmap (lview s2) (i_entry ?ip) k \<noteq> 0 \<longrightarrow> bmap (lview s') e' k \<noteq> 0"
      and same': "(\<forall>k\<in>span (off + ?sz) (length ?src). bmap (lview s2) (i_entry ?ip) k \<noteq> 0) \<longrightarrow> e' = i_entry ?ip"
      using less.hyps [OF lt g' P(1,2) next_block P(3), unfolded eqK, OF _ prem(6,7,8), of ?md] by blast
    have nk: "bmap (lview s2) e1 k = bmap (lview s) ?e k \<and> k \<noteq> ?k"
      if "k \<in> span (off + ?sz) (length ?src)" for k
    proof -
      have "?src \<noteq> []" using that by (auto simp: span_def)
      then have "k \<noteq> ?k" using next_block span_lower [OF that] by fastforce
      moreover have "k < INODE_MAX_BLOCKS" using span_bound [OF prem(5)] sp that by auto
      ultimately show ?thesis using growsD(4) [OF g] by simp
    qed
    have "?md \<or> (\<exists>k\<in>span (off + ?sz) (length ?src). bmap (lview s2) (i_entry ?ip) k = 0) \<longleftrightarrow>
        md \<or> (\<exists>k\<in>span off (length src). bmap (lview s) ?e k = 0)"
      unfolding sp using nk by (simp cong: bex_cong) blast
    then have "write_loop (Some c) ip off src md s =
        Ok (md \<or> (\<exists>k\<in>span off (length src). bmap (lview s) ?e k = 0), Some c', ip\<lparr>i_entry := e'\<rparr>, s')"
      using False w IH by (subst write_loop.simps) (simp add: Let_def)
    moreover have keep: "bmap (lview s2) e1 k \<noteq> 0" if "k < INODE_MAX_BLOCKS" "bmap (lview s) ?e k \<noteq> 0" for k
      using growsD(5) [OF g that] that by simp
    moreover have "writes (lview s) ?e off src (lview s') e'"
    proof (rule writes_trans [OF wr _ cb(3) keep])
      show "writes (lview s2) e1 (off + ?sz) ?src (lview s') e'" using wr' by simp
      show "bmap (lview s2) e1 (i div BLOCK_SIZE) \<noteq> 0" if "off \<le> i" "i < off + ?sz" for i
        using same_block [OF cb(1), of i] that b0 by simp
    qed
    moreover have "\<forall>k\<in>span off (length src). bmap (lview s') e' k \<noteq> 0"
      using mapped k b0 unfolding sp by simp
    moreover have "e' = ?e" if "\<forall>k\<in>span off (length src). bmap (lview s) ?e k \<noteq> 0"
      using that same' same nk unfolding sp by simp
    moreover have "\<forall>k<INODE_MAX_BLOCKS. bmap (lview s) ?e k \<noteq> 0 \<longrightarrow> bmap (lview s') e' k \<noteq> 0"
      using mapped(2) keep by simp
    ultimately show ?thesis using gr by blast
  qed
qed

section \<open>Synchronising an inode\<close>

definition disk_entry :: "cache \<Rightarrow> nat \<Rightarrow> InodeEntry" where
  "disk_entry s i = get_entry (lview s (to_block_no s i)) i"

lemma set_entry_simps:
  assumes "length d = BLOCK_SIZE" "wf_inode_entry e"
  shows "length (set_entry d i e) = BLOCK_SIZE" "get_entry (set_entry d i e) i = e"
    "j mod INODE_PER_BLOCK \<noteq> i mod INODE_PER_BLOCK \<Longrightarrow> get_entry (set_entry d i e) j = get_entry d j"
proof -
  have b: "8 * 64 \<le> length d" using assms(1) by simp
  have m: "i mod INODE_PER_BLOCK < 8" for i by simp
  show "length (set_entry d i e) = BLOCK_SIZE"
    using ino.arr_put_length [OF assms(2) m b] assms(1) by (simp add: set_entry_def)
  show "get_entry (set_entry d i e) i = e"
    using ino.arr_get_put_same [OF assms(2) m b] by (simp add: set_entry_def get_entry_def)
  show "get_entry (set_entry d i e) j = get_entry d j" if "j mod INODE_PER_BLOCK \<noteq> i mod INODE_PER_BLOCK"
    using ino.arr_get_put_other [OF assms(2) m m b] that by (simp add: set_entry_def get_entry_def)
qed

text \<open>Changing blocks outside a file and outside the bitmap.\<close>

lemma file_ok_frame:
  assumes fs: "fs_ok s" and fok: "file_ok s e" and st: "stores s c B V s' c'"
    and used: "\<And>m. m < alloc_limit s \<Longrightarrow> block_used s m \<Longrightarrow> block_used s' m"
    and V: "\<And>b. b \<in> fblocks (lview s) e \<Longrightarrow> V b = lview s b"
  shows "file_ok s' e" "bmap V e = bmap (lview s) e" "fblocks V e = fblocks (lview s) e"
    "content V e = content (lview s) e"
proof -
  note f = file_okD [OF fok] and d = storesD [OF st] and g = stores_geometry [OF st]
  have ni: "V (unat (i_indirect e)) = lview s (unat (i_indirect e))" if "i_indirect e \<noteq> 0"
    using V indirect_fblocks [OF that] by blast
  show bm: "bmap V e = bmap (lview s) e" using ni by (auto simp: bmap_def fun_eq_iff)
  show fb: "fblocks V e = fblocks (lview s) e" by (simp add: fblocks_def bm)
  have bu: "block_used s' b" if "b \<in> fblocks (lview s) e" for b
    using used f(3,4) [OF that] by (simp add: data_block_def)
  show "file_ok s' e" using fok bu by (simp add: file_ok_def d(3) g bm fb d(2))
  have "fbyte V e i = fbyte (lview s) e i" if "i < unat (i_num_bytes e)" for i
  proof -
    have k: "i div BLOCK_SIZE * BLOCK_SIZE < unat (i_num_bytes e)" using that div_mult_mod_eq [of i BLOCK_SIZE] by linarith
    have "i div BLOCK_SIZE < INODE_MAX_BLOCKS" using that f(2) by (intro less_mult_imp_div_less) simp
    then have "bmap (lview s) e (i div BLOCK_SIZE) \<in> fblocks (lview s) e" using bmap_fblocks f(8) [OF k] by blast
    then show ?thesis using V by (simp add: fbyte_def bm)
  qed
  then show "content V e = content (lview s) e" by (simp add: content_def)
qed

lemma inode_sync_ok:
  assumes fs: "fs_ok s" and e: "wf_inode_entry (i_entry ip)" "i_valid ip" "i_no ip < num_inodes s"
    and nh: "to_block_no s (i_no ip) \<notin> held s" and q: "rm c > 0" "budget c s \<le> LOG_MAX_SIZE"
  obtains c' s' where "inode_sync (Some c) ip True s = Ok (Some c', ip, s')" "fs_ok s'"
    "stores s c {to_block_no s (i_no ip)} (lview s') s' c'"
    "\<And>b. b \<noteq> to_block_no s (i_no ip) \<Longrightarrow> lview s' b = lview s b"
    "disk_entry s' (i_no ip) = i_entry ip"
    "\<And>j. j \<noteq> i_no ip \<Longrightarrow> disk_entry s' j = disk_entry s j"
    "\<And>m. m < alloc_limit s \<Longrightarrow> block_used s' m = block_used s m"
proof -
  let ?n = "to_block_no s (i_no ip)" let ?e = "i_entry ip" let ?d = "set_entry (lview s ?n) (i_no ip) ?e"
  note o = fs_okD [OF fs]
  note se = set_entry_simps [OF bc.length_view [OF o(1), of ?n] e(1), where i = "i_no ip"]
  have pos: "?n \<in> set (logged s) \<or> rm c > 0" using q(1) by simp
  obtain s1 c' s2 s' where u: "cache_acquire ?n s = Ok s1" "get_data ?n s1 = lview s ?n" "sblock s1 = sblock s"
    "cache_sync (Some c) ?n (put_data ?n ?d s1) = Ok (Some c', s2)" "cache_release ?n s2 = Ok s'"
    and st: "stores s c {?n} ((lview s)(?n := ?d)) s' c'"
    by (rule update_stores [OF o(1) nh pos q(2) se(1)])
  note d = storesD [OF st] and g = stores_geometry [OF st]
  have r: "inode_sync (Some c) ip True s = Ok (Some c', ip, s')"
    using u e(2) by (simp add: inode_sync_def Let_def)
  have bu: "block_used s' m = block_used s m" if "m < alloc_limit s" for m
    by (rule block_used_view [OF st])
      (use that o(2) o(7) [OF e(3)] bitmap_block_single [of m s] in auto)
  have fs': "fs_ok s'" by (rule fs_ok_stores [OF fs st]) (simp add: bu)
  have "disk_entry s' j = disk_entry s j" if "j \<noteq> i_no ip" for j
  proof (cases "to_block_no s j = ?n")
    case True
    then have "j div INODE_PER_BLOCK = i_no ip div INODE_PER_BLOCK" by (simp add: to_block_no_def)
    then have "j mod INODE_PER_BLOCK \<noteq> i_no ip mod INODE_PER_BLOCK"
      using that by (metis div_mult_mod_eq)
    then show ?thesis using se(3) True by (simp add: disk_entry_def g d(3))
  qed (simp add: disk_entry_def g d(3))
  moreover have "disk_entry s' (i_no ip) = ?e" using se(2) by (simp add: disk_entry_def g d(3))
  ultimately show thesis using that [OF r fs' _ _ _ _ bu] st d(3) by simp
qed

section \<open>Reading and writing files\<close>

lemma grow_size:
  assumes fok: "file_ok s e" and n: "n \<le> INODE_MAX_BYTES"
    and mapped: "\<And>k. k * BLOCK_SIZE < n \<Longrightarrow> bmap (lview s) e k \<noteq> 0"
  shows "file_ok s (e\<lparr>i_num_bytes := word_of_nat n\<rparr>)"
    "bmap V (e\<lparr>i_num_bytes := w\<rparr>) = bmap V e" "fblocks V (e\<lparr>i_num_bytes := w\<rparr>) = fblocks V e"
    "fbyte V (e\<lparr>i_num_bytes := w\<rparr>) = fbyte V e"
    "unat (word_of_nat n :: u32) = n"
proof -
  show u: "unat (word_of_nat n :: u32) = n" using n by (simp add: unat_of_nat take_bit_nat_eq_self)
  show bm: "bmap V (e\<lparr>i_num_bytes := w\<rparr>) = bmap V e" for V w by (simp add: bmap_def fun_eq_iff)
  show fb: "fblocks V (e\<lparr>i_num_bytes := w\<rparr>) = fblocks V e" for V w by (simp add: fblocks_def bm)
  show "fbyte V (e\<lparr>i_num_bytes := w\<rparr>) = fbyte V e" by (simp add: fbyte_def fun_eq_iff bm)
  show "file_ok s (e\<lparr>i_num_bytes := word_of_nat n\<rparr>)"
    using fok n mapped by (simp add: file_ok_def bm fb u wf_inode_entry_def)
qed

lemma same_meta_fields:
  assumes "same_meta e e'"
  shows "i_num_bytes e' = i_num_bytes e" "i_type e' = i_type e" "i_num_links e' = i_num_links e"
  using assms unfolding same_meta_def by (metis InodeEntry.select_convs InodeEntry.surjective InodeEntry.update_convs)+

text \<open>What a write leaves behind, before the size is updated.\<close>

lemma written_content:
  assumes w: "writes V e off src V' e'" and off: "off \<le> n" "off + length src \<le> INODE_MAX_BYTES" "n \<le> INODE_MAX_BYTES"
    and old: "\<And>i. i < n \<Longrightarrow> bmap V e (i div BLOCK_SIZE) \<noteq> 0"
    and new: "\<And>i. i < max n (off + length src) \<Longrightarrow> bmap V' e' (i div BLOCK_SIZE) \<noteq> 0"
  shows "map (fbyte V' e') [0..<max n (off + length src)] = range_put off src (map (fbyte V e) [0..<n])"
proof (rule nth_equalityI)
  show "length (map (fbyte V' e') [0..<max n (off + length src)]) = length (range_put off src (map (fbyte V e) [0..<n]))"
    using off by (simp add: range_put_def)
next
  fix i assume "i < length (map (fbyte V' e') [0..<max n (off + length src)])"
  then have i: "i < max n (off + length src)" by simp
  then have "i div BLOCK_SIZE < INODE_MAX_BLOCKS" using off by (intro less_mult_imp_div_less) (simp add: max_def split: if_splits)
  then have b: "fbyte V' e' i = (if off \<le> i \<and> i < off + length src then src ! (i - off)
      else if bmap V e (i div BLOCK_SIZE) \<noteq> 0 then fbyte V e i else 0)"
    using w new [OF i] by (simp add: writes_def)
  show "map (fbyte V' e') [0..<max n (off + length src)] ! i = range_put off src (map (fbyte V e) [0..<n]) ! i"
    using i b old [of i] off by (auto simp: range_put_def nth_append max_def min_def not_less split: if_splits)
qed

text \<open>Other files, and the inode table, are not affected when a file grows.\<close>

lemma grows_other:
  assumes fs: "fs_ok s" and g: "grows s c e K s' c' e'" and ok: "file_ok s e" "file_ok s e2"
    and disj: "fblocks (lview s) e2 \<inter> fblocks (lview s) e = {}"
  shows "file_ok s' e2" "content (lview s') e2 = content (lview s) e2"
    "fblocks (lview s') e2 = fblocks (lview s) e2" "fblocks (lview s') e2 \<inter> fblocks (lview s') e' = {}"
proof -
  obtain B where st: "stores s c B (lview s') s' c'" by (rule growsE [OF g])
  note f2 = file_okD [OF ok(2)]
  have V: "lview s' b = lview s b" if "b \<in> fblocks (lview s) e2" for b
    using growsD(10) [OF g f2(4) [OF that]] disj that f2(3) [OF that] by (auto simp: data_block_def)
  note fr = file_ok_frame [OF fs ok(2) st growsD(8) [OF g] V]
  show "file_ok s' e2" "content (lview s') e2 = content (lview s) e2" using fr(1,4) by blast+
  show fb: "fblocks (lview s') e2 = fblocks (lview s) e2" using fr(3) by blast
  show "fblocks (lview s') e2 \<inter> fblocks (lview s') e' = {}"
    unfolding fb using growsD(12) [OF g] f2(4) disj by blast
qed

lemma grows_disk_entry:
  assumes fs: "fs_ok s" and g: "grows s c e K s' c' e'" and ok: "file_ok s e" and j: "j < num_inodes s"
  shows "disk_entry s' j = disk_entry s j"
proof -
  obtain B where st: "stores s c B (lview s') s' c'" by (rule growsE [OF g])
  note o = fs_okD [OF fs]
  have "to_block_no s j \<notin> fblocks (lview s) e" using file_okD(3) [OF ok] o(7) [OF j] unfolding data_block_def by (meson less_asym)
  then have "lview s' (to_block_no s j) = lview s (to_block_no s j)"
    using growsD(10) [OF g o(4)] o(7) [OF j] by simp
  then show ?thesis by (simp add: disk_entry_def stores_geometry [OF st])
qed

lemma mapped_below:
  assumes "file_ok s e" "i < unat (i_num_bytes e)" shows "bmap (lview s) e (i div BLOCK_SIZE) \<noteq> 0"
proof (rule file_okD(8) [OF assms(1)])
  show "i div BLOCK_SIZE * BLOCK_SIZE < unat (i_num_bytes e)"
    using assms(2) div_mult_mod_eq [of i BLOCK_SIZE] by linarith
qed

lemma write_loop_file:
  assumes fs: "fs_ok s" and fok: "file_ok s (i_entry ip)"
    and off: "off \<le> unat (i_num_bytes (i_entry ip))" "off + length src \<le> INODE_MAX_BYTES"
    and q: "rm c \<ge> card (span off (length src)) + 6" "budget c s \<le> LOG_MAX_SIZE"
      "card (free_blocks s) \<ge> card (span off (length src)) + 2"
  obtains md c' e' s' where "write_loop (Some c) ip off src False s = Ok (md, Some c', ip\<lparr>i_entry := e'\<rparr>, s')"
    "grows s c (i_entry ip) (span off (length src)) s' c' e'"
    "map (fbyte (lview s') e') [0..<max (unat (i_num_bytes (i_entry ip))) (off + length src)] =
       range_put off src (content (lview s) (i_entry ip))"
    "\<And>i. i < max (unat (i_num_bytes (i_entry ip))) (off + length src) \<Longrightarrow> bmap (lview s') e' (i div BLOCK_SIZE) \<noteq> 0"
    "md \<Longrightarrow> unat (i_num_bytes (i_entry ip)) < off + length src" "\<not> md \<Longrightarrow> e' = i_entry ip"
proof -
  let ?e = "i_entry ip" let ?n = "unat (i_num_bytes (i_entry ip))" let ?K = "span off (length src)"
  note f = file_okD [OF fok]
  have g0: "grows s c ?e {} s c ?e"
    by (rule grows_update(1) [OF fs fok stores_refl [OF fs_okD(1) [OF fs]]]) auto
  have q': "card ({} \<union> ?K) + 6 \<le> rm c" "card ({} \<union> ?K) + 2 \<le> card (free_blocks s)" using q by simp_all
  define md where "md \<longleftrightarrow> False \<or> (\<exists>k\<in>?K. bmap (lview s) ?e k = 0)"
  obtain c' e' s' where r: "write_loop (Some c) ip off src False s = Ok (md, Some c', ip\<lparr>i_entry := e'\<rparr>, s')"
    "grows s c ?e ({} \<union> ?K) s' c' e'" "writes (lview s) ?e off src (lview s') e'"
    "\<forall>k\<in>?K. bmap (lview s') e' k \<noteq> 0"
    "\<forall>k<INODE_MAX_BLOCKS. bmap (lview s) ?e k \<noteq> 0 \<longrightarrow> bmap (lview s') e' k \<noteq> 0"
    "(\<forall>k\<in>?K. bmap (lview s) ?e k \<noteq> 0) \<longrightarrow> e' = ?e"
    using write_loop_ok [OF g0 _ _ _ off(2) q'(1) q(2) q'(2), where md = False] unfolding md_def by auto
  have old: "bmap (lview s) ?e (i div BLOCK_SIZE) \<noteq> 0" if "i < ?n" for i by (rule mapped_below [OF fok that])
  have new: "bmap (lview s') e' (i div BLOCK_SIZE) \<noteq> 0" if i: "i < max ?n (off + length src)" for i
  proof (cases "i < ?n")
    case True
    have "i div BLOCK_SIZE < INODE_MAX_BLOCKS" using True f(2) by (intro less_mult_imp_div_less) simp
    then show ?thesis using r(5) old [OF True] by blast
  next
    case False
    then have "i div BLOCK_SIZE \<in> ?K" using i off(1) by (simp add: span_def max_def split: if_splits)
    then show ?thesis using r(4) by blast
  qed
  have "?n < off + length src" if m: "md"
  proof -
    obtain i where i: "off \<le> i" "i < off + length src" "bmap (lview s) ?e (i div BLOCK_SIZE) = 0"
      using m unfolding md_def span_def by auto
    then have "\<not> i < ?n" using old by blast
    then show ?thesis using i by simp
  qed
  moreover have "e' = ?e" if "\<not> md" using that r(6) unfolding md_def by simp
  ultimately show thesis
    using that [OF r(1) _ _ new] r(2) written_content [OF r(3) off f(2) old new] by (simp add: content_def)
qed

lemma file_write_ok:
  assumes fs: "fs_ok s" and fok: "file_ok s (i_entry ip)" and ip: "i_valid ip" "i_no ip < num_inodes s"
    and nh: "to_block_no s (i_no ip) \<notin> held s"
    and off: "off \<le> unat (i_num_bytes (i_entry ip))" "off + length src \<le> INODE_MAX_BYTES"
    and q: "rm c \<ge> card (span off (length src)) + 6" "budget c s \<le> LOG_MAX_SIZE"
      "card (free_blocks s) \<ge> card (span off (length src)) + 2"
  obtains c' e' s' where "file_write (Some c) ip src off s = Ok (length src, Some c', ip\<lparr>i_entry := e'\<rparr>, s')"
    "fs_ok s'" "file_ok s' e'" "content (lview s') e' = range_put off src (content (lview s) (i_entry ip))"
    "i_type e' = i_type (i_entry ip)" "i_num_links e' = i_num_links (i_entry ip)" "held s' = held s"
    "disk_entry s (i_no ip) = i_entry ip \<Longrightarrow> disk_entry s' (i_no ip) = e'"
    "\<And>j. j < num_inodes s \<Longrightarrow> j \<noteq> i_no ip \<Longrightarrow> disk_entry s' j = disk_entry s j"
    "\<And>e2. file_ok s e2 \<Longrightarrow> fblocks (lview s) e2 \<inter> fblocks (lview s) (i_entry ip) = {} \<Longrightarrow>
       file_ok s' e2 \<and> content (lview s') e2 = content (lview s) e2 \<and>
       fblocks (lview s') e2 \<inter> fblocks (lview s') e' = {}"
proof -
  let ?e = "i_entry ip" let ?n = "unat (i_num_bytes (i_entry ip))" let ?fin = "off + length src"
  obtain md c1 e1 s1 where r: "write_loop (Some c) ip off src False s = Ok (md, Some c1, ip\<lparr>i_entry := e1\<rparr>, s1)"
    and g: "grows s c ?e (span off (length src)) s1 c1 e1"
    and ct: "map (fbyte (lview s1) e1) [0..<max ?n ?fin] = range_put off src (content (lview s) ?e)"
    and new: "\<And>i. i < max ?n ?fin \<Longrightarrow> bmap (lview s1) e1 (i div BLOCK_SIZE) \<noteq> 0"
    and md: "md \<Longrightarrow> ?n < ?fin" "\<not> md \<Longrightarrow> e1 = ?e"
    by (rule write_loop_file [OF fs fok off q]) blast
  obtain B where st: "stores s c B (lview s1) s1 c1" by (rule growsE [OF g])
  note d = growsD [OF g] and geo = stores_geometry [OF st] and h = storesD(2) [OF st]
  note sm = same_meta_fields [OF d(3)]
  have en: "?fin mod 2 ^ 64 = ?fin" using off(2) by simp
  note other = grows_other [OF fs g fok] and de = grows_disk_entry [OF fs g fok]
  show thesis
  proof (cases "?n < ?fin")
    case False
    then have nm: "\<not> md" using md(1) by blast
    have w: "file_write (Some c) ip src off s = Ok (length src, Some c1, ip\<lparr>i_entry := e1\<rparr>, s1)"
      unfolding file_write_def Let_def en using off r nm False sm(1) by simp
    have ct': "content (lview s1) e1 = range_put off src (content (lview s) ?e)"
      using ct False sm(1) by (simp add: content_def max_def)
    show thesis
      by (rule that [OF w d(1,2) ct' sm(2,3) h]) (use de ip(2) md(2) [OF nm] other in auto)
  next
    case True
    define e' where "e' = e1\<lparr>i_num_bytes := word_of_nat ?fin\<rparr>"
    have "bmap (lview s1) e1 k \<noteq> 0" if "k * BLOCK_SIZE < ?fin" for k
      using new [of "k * BLOCK_SIZE"] that by simp
    note gs = grow_size [OF d(2) off(2) this, folded e'_def]
    have q1: "rm c1 > 0" "budget c1 s1 \<le> LOG_MAX_SIZE" using grows_cost [OF g] q by simp_all
    have p: "wf_inode_entry (i_entry (ip\<lparr>i_entry := e'\<rparr>))" "i_valid (ip\<lparr>i_entry := e'\<rparr>)"
      "i_no (ip\<lparr>i_entry := e'\<rparr>) < num_inodes s1"
      "to_block_no s1 (i_no (ip\<lparr>i_entry := e'\<rparr>)) \<notin> held s1"
      using ip file_okD(1) [OF gs(1)] nh by (simp_all add: geo h)
    obtain c' s' where y: "inode_sync (Some c1) (ip\<lparr>i_entry := e'\<rparr>) True s1 = Ok (Some c', ip\<lparr>i_entry := e'\<rparr>, s')" "fs_ok s'"
      "stores s1 c1 {to_block_no s1 (i_no ip)} (lview s') s' c'"
      "\<And>b. b \<noteq> to_block_no s1 (i_no ip) \<Longrightarrow> lview s' b = lview s1 b" "disk_entry s' (i_no ip) = e'"
      "\<And>j. j \<noteq> i_no ip \<Longrightarrow> disk_entry s' j = disk_entry s1 j"
      "\<And>m. m < alloc_limit s1 \<Longrightarrow> block_used s' m = block_used s1 m"
      by (rule inode_sync_ok [OF d(1) p q1]) simp
    have V: "lview s' b = lview s1 b" if "b \<in> fblocks (lview s1) e2" "file_ok s1 e2" for b e2
    proof (rule y(4))
      have "data_block s1 b" using file_okD(3) [OF that(2,1)] .
      then show "b \<noteq> to_block_no s1 (i_no ip)" using fs_okD(7) [OF d(1), of "i_no ip"] ip(2) by (auto simp: data_block_def geo)
    qed
    have fr: "file_ok s' e2 \<and> fblocks (lview s') e2 = fblocks (lview s1) e2 \<and>
        content (lview s') e2 = content (lview s1) e2" if "file_ok s1 e2" for e2
      using file_ok_frame [OF d(1) that y(3) _ V [OF _ that]] y(7) by blast
    have w: "file_write (Some c) ip src off s = Ok (length src, Some c', ip\<lparr>i_entry := e'\<rparr>, s')"
      unfolding file_write_def Let_def en using off r True sm(1) y(1) by (simp add: e'_def)
    have ct': "content (lview s') e' = range_put off src (content (lview s) ?e)"
    proof -
      have "content (lview s') e' = content (lview s1) e'" using fr [OF gs(1)] by blast
      also have "\<dots> = map (fbyte (lview s1) e1) [0..<max ?n ?fin]"
        using True gs(4,5) by (simp add: content_def e'_def max_def)
      finally show ?thesis using ct by simp
    qed
    have fe: "fblocks (lview s') e' = fblocks (lview s1) e1" using fr [OF gs(1)] gs(3) by (simp add: e'_def)
    have oth: "file_ok s' e2 \<and> content (lview s') e2 = content (lview s) e2 \<and>
        fblocks (lview s') e2 \<inter> fblocks (lview s') e' = {}"
      if "file_ok s e2" "fblocks (lview s) e2 \<inter> fblocks (lview s) ?e = {}" for e2
      using fr [OF other(1) [OF that]] other(2-4) [OF that] fe by simp
    show thesis
      by (rule that [OF w y(2) _ ct' _ _ _ _ _ oth])
        (use fr gs(1) y(5,6) de sm storesD(2) [OF y(3)] h in \<open>auto simp: e'_def\<close>)
  qed
qed

lemma read_loop_ok:
  "cache_inv s \<Longrightarrow> file_ok s (i_entry ip) \<Longrightarrow> off + n \<le> unat (i_num_bytes (i_entry ip)) \<Longrightarrow>
   \<exists>s'. read_loop ip off n md dest s =
       Ok (n = 0 \<and> md, dest @ map (fbyte (lview s) (i_entry ip)) [off..<off + n], ip, s') \<and>
     (\<forall>c. stores s c {} (lview s) s' c)"
proof (induction n arbitrary: off md dest s rule: less_induct)
  case (less n)
  let ?e = "i_entry ip" let ?k = "off div BLOCK_SIZE" let ?sz = "chunk off n"
  note f = file_okD [OF less.prems(2)]
  show ?case
  proof (cases "n = 0")
    case True
    then show ?thesis using stores_refl [OF less.prems(1)] by (simp add: read_loop.simps)
  next
    case False
    have cb: "off mod BLOCK_SIZE + ?sz \<le> BLOCK_SIZE" "0 < ?sz" "?sz \<le> n"
      using chunk_bounds(1-3) [of "replicate n 0" off] False by simp_all
    have b0: "bmap (lview s) ?e ?k \<noteq> 0" using mapped_below [OF less.prems(2), of off] less.prems(3) False by simp
    have k: "?k < INODE_MAX_BLOCKS" using less.prems(3) f(2) False by (intro less_mult_imp_div_less) simp
    let ?b = "bmap (lview s) ?e ?k"
    obtain s1 where m: "inode_map None ip ?k s = Ok (?b, False, None, ip, s1)" and st1: "\<And>c. stores s c {} (lview s) s1 c"
      by (rule inode_map_mapped [OF less.prems(1,2) k b0, where ctx = None]) blast
    note d1 = storesD [OF st1]
    have nh: "?b \<notin> held s1" using f(5) [OF bmap_fblocks [OF k b0]] d1(2) by simp
    obtain s2 s3 where r: "cache_acquire ?b s1 = Ok s2" "get_data ?b s2 = lview s1 ?b" "cache_release ?b s2 = Ok s3"
      and st2: "\<And>c. stores s1 c {} (lview s1) s3 c"
      by (rule read_stores [OF d1(1) nh]) blast
    have st: "stores s c {} (lview s) s3 c" for c using stores_trans [OF st1 st2] d1(3) by simp
    note d = storesD [OF st]
    have ok3: "file_ok s3 ?e"
      using less.prems(2) by (simp add: file_ok_def d(2,3) stores_geometry [OF st] block_used_view [OF st])
    let ?part = "map (fbyte (lview s) ?e) [off..<off + ?sz]"
    have part: "range_get (off mod BLOCK_SIZE) ?sz (lview s ?b) = ?part"
    proof (rule nth_equalityI)
      fix i assume "i < length (range_get (off mod BLOCK_SIZE) ?sz (lview s ?b))"
      then have i: "i < ?sz" using cb(1) bc.length_view [OF less.prems(1)] by (simp add: buf_simps)
      have "(off + i) div BLOCK_SIZE = ?k" using same_block [OF cb(1), of "off + i"] i by simp
      moreover from this have "(off + i) mod BLOCK_SIZE = off mod BLOCK_SIZE + i"
        using div_mult_mod_eq [of "off + i" BLOCK_SIZE] div_mult_mod_eq [of off BLOCK_SIZE] by linarith
      ultimately show "range_get (off mod BLOCK_SIZE) ?sz (lview s ?b) ! i = ?part ! i"
        using i cb(1) bc.length_view [OF less.prems(1)] by (simp add: buf_simps fbyte_def)
    qed (use cb(1) bc.length_view [OF less.prems(1)] in \<open>simp add: buf_simps\<close>)
    have lt: "n - ?sz < n" using cb(2) False by simp
    obtain s' where IH: "read_loop ip (off + ?sz) (n - ?sz) False (dest @ ?part) s3 =
        Ok (n - ?sz = 0 \<and> False, (dest @ ?part) @ map (fbyte (lview s3) ?e) [off + ?sz..<off + ?sz + (n - ?sz)], ip, s')"
      and st': "\<forall>c. stores s3 c {} (lview s3) s' c"
      using less.IH [OF lt d(1) ok3, of "off + ?sz" False "dest @ ?part"] less.prems(3) cb(3) by auto
    have app: "?part @ map (fbyte (lview s) ?e) [off + ?sz..<off + n] = map (fbyte (lview s) ?e) [off..<off + n]"
      using cb(3) upt_add_eq_append [of off "off + ?sz" "n - ?sz"] by simp
    have "read_loop ip off n md dest s = Ok (False, dest @ map (fbyte (lview s) ?e) [off..<off + n], ip, s')"
      using False m r IH part app cb(3) by (subst read_loop.simps) (simp add: Let_def d(3) d1(3))
    moreover have "\<forall>c. stores s c {} (lview s) s' c" using stores_trans [OF st] st' d(3) by fastforce
    ultimately show ?thesis using False by auto
  qed
qed

lemma file_read_ok:
  assumes fs: "fs_ok s" and fok: "file_ok s (i_entry ip)"
    and off: "off \<le> unat (i_num_bytes (i_entry ip))" "off + n < 2 ^ 64"
  obtains s' where "file_read ip off n s = Ok (range_get off n (content (lview s) (i_entry ip)), ip, s')"
    "\<And>c. stores s c {} (lview s) s' c" "fs_ok s'" "file_ok s' (i_entry ip)"
proof -
  let ?e = "i_entry ip" let ?n = "unat (i_num_bytes ?e)" let ?c = "if n + off > ?n then ?n - off else n"
  have le: "off + ?c \<le> ?n" using off(1) by simp
  obtain s' where r: "read_loop ip off ?c False [] s = Ok (?c = 0 \<and> False, [] @ map (fbyte (lview s) ?e) [off..<off + ?c], ip, s')"
    and st: "\<forall>c. stores s c {} (lview s) s' c"
    using read_loop_ok [OF fs_okD(1) [OF fs] fok le, of False "[]"] by blast
  have m: "(n + off) mod 2 ^ 64 = n + off" "(off + ?c) mod 2 ^ 64 = off + ?c"
    using off le file_okD(2) [OF fok] by (simp_all add: add.commute)
  have "map (fbyte (lview s) ?e) [off..<off + ?c] = range_get off n (content (lview s) ?e)"
    by (intro nth_equalityI) (use off(1) in \<open>auto simp: range_get_def content_def split: if_splits\<close>)
  then have w: "file_read ip off n s = Ok (range_get off n (content (lview s) ?e), ip, s')"
    unfolding file_read_def Let_def m using off(1) r m(2) le by simp
  note bu = block_used_view [OF spec [OF st]]
  show thesis
    by (rule that [OF w spec [OF st] fs_ok_stores [OF fs spec [OF st]] file_ok_frame(1) [OF fs fok spec [OF st]]])
      (simp_all add: bu)
qed

section \<open>Properties\<close>

text \<open>A file system with a regular file of three bytes, inode 5 with data block 75.\<close>

abbreviation demo_file :: InodeEntry where
  "demo_file \<equiv> \<lparr>i_type = INODE_REGULAR, i_major = 0, i_minor = 0, i_num_links = 1, i_num_bytes = 3,
     i_addrs = 75 # replicate 11 0, i_indirect = 0\<rparr>"

abbreviation demo_fs_disk :: "nat \<Rightarrow> u8 list" where
  "demo_fs_disk \<equiv> (\<lambda>n. if n = 74 then bytes_of ((-1) # 4095 # replicate 62 0)
     else if n = 66 then set_entry (replicate 512 0) 5 demo_file
     else if n = 75 then [72, 105, 33] @ replicate 509 0 else replicate 512 0)"

abbreviation demo_fs :: cache where
  "demo_fs \<equiv> fresh_cache demo_sb demo_fs_disk"

abbreviation demo_inode :: Inode where
  "demo_inode \<equiv> \<lparr>i_lock = \<lparr>val = 0, sleeplist = []\<rparr>, i_rc = 1, i_no = 5, i_valid = True, i_entry = demo_file\<rparr>"

abbreviation demo_con :: console where
  "demo_con \<equiv> \<lparr>buf = replicate 128 0, rd = 0, wr = 0, ed = 0, can_read_sem = init_sem 0, uart_out = [],
     con_woken = [], killed = []\<rparr>"

abbreviation demo_fsys :: fsys where
  "demo_fsys \<equiv> \<lparr>bcache = demo_fs, con = demo_con, uninit = replicate 16 0\<rparr>"

lemma demo_file_wf: "wf_inode_entry demo_file"
  by (simp add: wf_inode_entry_def)

text \<open>Any disk with this bitmap: the blocks below 76 are in use.\<close>

abbreviation demo_bitmap :: "u8 list" where
  "demo_bitmap \<equiv> bytes_of ((-1) # 4095 # replicate 62 0)"

lemma demo_used:
  assumes d: "d 74 = demo_bitmap" and m: "m < 100"
  shows "block_used (fresh_cache demo_sb d) m \<longleftrightarrow> m < 76"
proof -
  have bb: "bitmap_block (fresh_cache demo_sb d) m = 74" using m by (simp add: bitmap_block_def bitmap_start_def)
  have c: "(4095 :: u64) = mask 12" by (simp add: mask_eq_exp_minus_1)
  show ?thesis
  proof (cases "m < 64")
    case True
    then show ?thesis by (simp add: block_used_def bb d bitmap_get_bit)
  next
    case False
    then have "m div 64 = 1" "m mod 64 = m - 64" using m by (simp_all add: div_nat_eqI mod_nat_eqI)
    then show ?thesis using False m unfolding block_used_def bb by (auto simp: d bitmap_get_bit c bit_mask_iff)
  qed
qed

lemma demo_ok:
  assumes len: "\<forall>n. length (d n) = BLOCK_SIZE" and d: "d 74 = demo_bitmap"
  shows "fs_ok (fresh_cache demo_sb d)" "card (free_blocks (fresh_cache demo_sb d)) \<ge> 10"
proof -
  let ?s = "fresh_cache demo_sb d"
  have "0 < to_block_no ?s i \<and> to_block_no ?s i < bitmap_start ?s" if "i < num_inodes ?s" for i
    using that by (simp add: to_block_no_def num_inodes_def bitmap_start_def)
  then show "fs_ok ?s"
    using demo_used [of d, OF d] fresh_cache_inv [OF len] by (simp add: fs_ok_def alloc_limit_def bitmap_start_def)
  have "{76..<86} \<subseteq> free_blocks ?s" using demo_used [of d, OF d] by (auto simp: free_blocks_def alloc_limit_def)
  then show "card (free_blocks ?s) \<ge> 10" using card_mono [of "free_blocks ?s" "{76..<86}"] by simp
qed

lemma demo_disk_length: "\<forall>n. length (demo_fs_disk n) = BLOCK_SIZE"
  by (simp add: set_entry_simps(1) [OF _ demo_file_wf])

lemma demo_fs_ok: "fs_ok demo_fs" "card (free_blocks demo_fs) \<ge> 10"
  by (rule demo_ok [of demo_fs_disk, OF demo_disk_length], simp)+

lemma demo_bmap: "bmap V demo_file k = (if k = 0 then 75 else 0)"
  by (cases k) (simp_all add: bmap_def)

lemma demo_file_ok: "file_ok demo_fs demo_file"
proof -
  have "fblocks V demo_file = {75}" for V by (auto simp: fblocks_def demo_bmap)
  then show ?thesis using demo_file_wf demo_used [of demo_fs_disk 75]
    by (auto simp: file_ok_def demo_bmap data_block_def bitmap_start_def alloc_limit_def split: if_splits)
qed

lemma demo_content: "content demo_fs_disk demo_file = [72, 105, 33]"
proof -
  have "[0..<unat (i_num_bytes demo_file)] = [0, 1, 2]" by (simp add: upt_rec)
  then show ?thesis unfolding content_def by (simp add: fbyte_def demo_bmap)
qed

text \<open>
  C20: reading \<open>count\<close> bytes of a file at \<open>offset\<close> returns exactly that range of its content, cut off
  at the end of the file, whichever direct and indirect blocks it lies in; the assertion that no
  block is allocated holds, and no block, no allocation bit and nothing on the device changes.
\<close>

theorem inode_read_content:
  assumes "fs_ok (bcache f)" and "file_ok (bcache f) (i_entry ip)" and "i_type (i_entry ip) \<noteq> INODE_DEVICE"
    and "offset \<le> unat (i_num_bytes (i_entry ip))" and "offset + count < 2 ^ 64"
  shows "\<exists>s'. inode_read t ip offset count f =
      Ok (take count (drop offset (content (lview (bcache f)) (i_entry ip))), ip, f\<lparr>bcache := s'\<rparr>) \<and>
    fs_ok s' \<and> file_ok s' (i_entry ip) \<and> lview s' = lview (bcache f) \<and> held s' = held (bcache f) \<and>
    disk s' = disk (bcache f) \<and> set (logged s') = set (logged (bcache f))"
proof -
  obtain s' where r: "file_read ip offset count (bcache f) =
      Ok (range_get offset count (content (lview (bcache f)) (i_entry ip)), ip, s')"
    and st: "\<And>c. stores (bcache f) c {} (lview (bcache f)) s' c" and ok: "fs_ok s'" "file_ok s' (i_entry ip)"
    by (rule file_read_ok [OF assms(1,2,4,5)]) blast
  have "inode_read t ip offset count f =
      Ok (take count (drop offset (content (lview (bcache f)) (i_entry ip))), ip, f\<lparr>bcache := s'\<rparr>)"
    using assms(3) r by (simp add: inode_read_def range_get_def)
  then show ?thesis using ok storesD(2-4) [OF st] stores_env [OF st] by auto
qed

theorem inode_read_content_witness:
  "\<exists>s'. inode_read 1 demo_inode 1 100 demo_fsys = Ok ([105, 33], demo_inode, demo_fsys\<lparr>bcache := s'\<rparr>)"
  using inode_read_content [of demo_fsys demo_inode 1 100 1] demo_content
  by (auto simp: demo_fs_ok demo_file_ok)

text \<open>
  C19: writing \<open>src\<close> at \<open>offset\<close> within the size of a file succeeds as long as the operation has quota
  and the disk has free blocks for the blocks the range touches, replaces exactly that range of the content and extends
  the file where the range ends behind it, and keeps the invariants. The inode on disk is brought up
  to date, no other inode on disk changes, and every other file keeps its content and its blocks.
\<close>

theorem inode_write_content:
  assumes "fs_ok (bcache f)" and "file_ok (bcache f) (i_entry ip)" and "i_type (i_entry ip) \<noteq> INODE_DEVICE"
    and "i_valid ip" and "i_no ip < num_inodes (bcache f)" and "to_block_no (bcache f) (i_no ip) \<notin> held (bcache f)"
    and "disk_entry (bcache f) (i_no ip) = i_entry ip"
    and "offset \<le> unat (i_num_bytes (i_entry ip))" and "offset + length src \<le> INODE_MAX_BYTES"
    and "rm c \<ge> card (span offset (length src)) + 6" and "budget c (bcache f) \<le> LOG_MAX_SIZE"
    and "card (free_blocks (bcache f)) \<ge> card (span offset (length src)) + 2"
  shows "\<exists>c' e' s'. inode_write t (Some c) ip src offset f =
      Ok (length src, Some c', ip\<lparr>i_entry := e'\<rparr>, f\<lparr>bcache := s'\<rparr>) \<and>
    fs_ok s' \<and> file_ok s' e' \<and> disk_entry s' (i_no ip) = e' \<and>
    content (lview s') e' =
      (let old = content (lview (bcache f)) (i_entry ip)
       in take offset old @ src @ drop (offset + length src) old) \<and>
    (\<forall>j<num_inodes (bcache f). j \<noteq> i_no ip \<longrightarrow> disk_entry s' j = disk_entry (bcache f) j) \<and>
    (\<forall>e2. file_ok (bcache f) e2 \<and> fblocks (lview (bcache f)) e2 \<inter> fblocks (lview (bcache f)) (i_entry ip) = {} \<longrightarrow>
       file_ok s' e2 \<and> content (lview s') e2 = content (lview (bcache f)) e2 \<and>
       fblocks (lview s') e2 \<inter> fblocks (lview s') e' = {})"
proof -
  obtain c' e' s' where r: "file_write (Some c) ip src offset (bcache f) = Ok (length src, Some c', ip\<lparr>i_entry := e'\<rparr>, s')"
    "fs_ok s'" "file_ok s' e'"
    "content (lview s') e' = range_put offset src (content (lview (bcache f)) (i_entry ip))"
    "disk_entry s' (i_no ip) = e'"
    "\<And>j. j < num_inodes (bcache f) \<Longrightarrow> j \<noteq> i_no ip \<Longrightarrow> disk_entry s' j = disk_entry (bcache f) j"
    "\<And>e2. file_ok (bcache f) e2 \<Longrightarrow> fblocks (lview (bcache f)) e2 \<inter> fblocks (lview (bcache f)) (i_entry ip) = {} \<Longrightarrow>
       file_ok s' e2 \<and> content (lview s') e2 = content (lview (bcache f)) e2 \<and>
       fblocks (lview s') e2 \<inter> fblocks (lview s') e' = {}"
    by (rule file_write_ok [OF assms(1,2,4-6,8-12)]) (use assms(7) in blast)
  have "inode_write t (Some c) ip src offset f =
      Ok (length src, Some c', ip\<lparr>i_entry := e'\<rparr>, f\<lparr>bcache := s'\<rparr>)"
    using assms(3) r(1) by (simp add: inode_write_def)
  then show ?thesis using r(2,3,5,6,7) r(4) [unfolded range_put_def] unfolding Let_def by blast
qed

lemma demo_disk_entry: "disk_entry demo_fs 5 = demo_file"
  using set_entry_simps(2) [OF _ demo_file_wf, of "replicate 512 0" 5]
  by (simp add: disk_entry_def to_block_no_def)

theorem inode_write_content_witness:
  "\<exists>c' e' s'. inode_write 1 (Some \<lparr>rm = 10, ts = 0\<rparr>) demo_inode (replicate 600 7) 2 demo_fsys =
       Ok (600, Some c', demo_inode\<lparr>i_entry := e'\<rparr>, demo_fsys\<lparr>bcache := s'\<rparr>) \<and>
     content (lview s') e' = [72, 105] @ replicate 600 7 \<and> disk_entry s' 5 = e'"
proof -
  have "card (span 2 600) \<le> 2"
  proof -
    have "span 2 600 \<subseteq> {0, 1}" using less_mult_imp_div_less [of _ 2 512] by (auto simp: span_def)
    then show ?thesis using card_mono [of "{0, 1 :: nat}" "span 2 600"] by simp
  qed
  then show ?thesis
    using inode_write_content [of demo_fsys demo_inode 2 "replicate 600 7" "\<lparr>rm = 10, ts = 0\<rparr>" 1]
      demo_fs_ok(2) demo_content demo_disk_entry
    by (auto simp: demo_fs_ok demo_file_ok num_inodes_def budget_def Let_def)
qed

end
