(* ===== verification/Directory.thy ===== *)
theory Directory
  imports File_Content
begin

text \<open>
  Directories: the entries of a directory file as a finite map from names to inode numbers, and
  \<open>inode_lookup\<close>, \<open>inode_insert\<close> and \<open>inode_remove\<close> as lookup, update and deletion on that map.
\<close>

section \<open>Operations that only read\<close>

definition quiet :: "fsys \<Rightarrow> fsys \<Rightarrow> bool" where
  "quiet f f' \<longleftrightarrow> (\<exists>s'. f' = f\<lparr>bcache := s'\<rparr> \<and> (\<forall>c. stores (bcache f) c {} (lview (bcache f)) s' c))"

lemma quiet_refl: "cache_inv (bcache f) \<Longrightarrow> quiet f f"
  unfolding quiet_def by (intro exI [of _ "bcache f"]) (simp add: stores_refl)

lemma quiet_trans:
  assumes "quiet f g" "quiet g h" shows "quiet f h"
proof -
  obtain s1 where s1: "g = f\<lparr>bcache := s1\<rparr>" "\<forall>c. stores (bcache f) c {} (lview (bcache f)) s1 c"
    using assms(1) unfolding quiet_def by blast
  obtain s2 where s2: "h = g\<lparr>bcache := s2\<rparr>" "\<forall>c. stores s1 c {} (lview s1) s2 c"
    using assms(2) s1(1) unfolding quiet_def by auto
  have "stores (bcache f) c ({} \<union> {}) (lview s1) s2 c" for c using s1(2) s2(2) stores_trans by blast
  then have "\<forall>c. stores (bcache f) c {} (lview (bcache f)) s2 c" using storesD(3) [OF spec [OF s1(2)]] by simp
  then show ?thesis unfolding quiet_def using s1(1) s2(1) by auto
qed

lemma quietD:
  assumes "quiet f f'"
  shows "lview (bcache f') = lview (bcache f)" "held (bcache f') = held (bcache f)" "con f' = con f"
    "uninit f' = uninit f" "sblock (bcache f') = sblock (bcache f)" "budget c (bcache f') = budget c (bcache f)"
    "cache_inv (bcache f')" "f' = f\<lparr>bcache := bcache f'\<rparr>" "set (logged (bcache f')) = set (logged (bcache f))"
proof -
  obtain s where s: "f' = f\<lparr>bcache := s\<rparr>" "\<And>c. stores (bcache f) c {} (lview (bcache f)) s c"
    using assms unfolding quiet_def by blast
  show "lview (bcache f') = lview (bcache f)" "held (bcache f') = held (bcache f)" "con f' = con f"
    "uninit f' = uninit f" "sblock (bcache f') = sblock (bcache f)" "budget c (bcache f') = budget c (bcache f)"
    "cache_inv (bcache f')" "f' = f\<lparr>bcache := bcache f'\<rparr>" "set (logged (bcache f')) = set (logged (bcache f))"
    using s(1) storesD(1-6) [OF s(2)] by simp_all
qed

lemma quiet_same:
  assumes "quiet f f'"
  shows "to_block_no (bcache f') = to_block_no (bcache f)" "num_inodes (bcache f') = num_inodes (bcache f)"
    "alloc_limit (bcache f') = alloc_limit (bcache f)" "bitmap_start (bcache f') = bitmap_start (bcache f)"
    "block_used (bcache f') = block_used (bcache f)" "disk_entry (bcache f') = disk_entry (bcache f)"
    "free_blocks (bcache f') = free_blocks (bcache f)" "file_ok (bcache f') = file_ok (bcache f)"
proof -
  note d = quietD(1,2,5) [OF assms]
  show s: "to_block_no (bcache f') = to_block_no (bcache f)" "num_inodes (bcache f') = num_inodes (bcache f)"
    "alloc_limit (bcache f') = alloc_limit (bcache f)" "bitmap_start (bcache f') = bitmap_start (bcache f)"
    "block_used (bcache f') = block_used (bcache f)"
    by (simp_all add: to_block_no_def num_inodes_def alloc_limit_def bitmap_start_def block_used_def
        bitmap_block_def d fun_eq_iff)
  show "disk_entry (bcache f') = disk_entry (bcache f)" "free_blocks (bcache f') = free_blocks (bcache f)"
    by (simp_all add: disk_entry_def free_blocks_def s d fun_eq_iff)
  show "file_ok (bcache f') = file_ok (bcache f)"
    by (simp add: file_ok_def data_block_def s d fun_eq_iff)
qed

lemma quiet_fs_ok: "quiet f f' \<Longrightarrow> fs_ok (bcache f) \<Longrightarrow> fs_ok (bcache f')"
  using quiet_same [of f f'] quietD(2,7) [of f f'] by (simp add: fs_ok_def)

section \<open>Entries\<close>

definition dents :: "(nat \<Rightarrow> u8 list) \<Rightarrow> InodeEntry \<Rightarrow> DirEntry list" where
  "dents V e = map (\<lambda>k. dec_dirent (range_get (k * 16) 16 (content V e))) [0..<unat (i_num_bytes e) div 16]"

definition dir_ok :: "cache \<Rightarrow> InodeEntry \<Rightarrow> bool" where
  "dir_ok s e \<longleftrightarrow> file_ok s e \<and> i_type e = INODE_DIRECTORY \<and> 16 dvd unat (i_num_bytes e)"

abbreviation live :: "DirEntry \<Rightarrow> bool" where
  "live d \<equiv> d_inode_no d \<noteq> 0"

abbreviation dname :: "u8 list \<Rightarrow> u8 list" where
  "dname nm \<equiv> cstr FILE_NAME_MAX_LENGTH nm"

definition dir_map :: "DirEntry list \<Rightarrow> u8 list \<rightharpoonup> nat" where
  "dir_map ds = map_of (map (\<lambda>d. (dname (d_name d), unat (d_inode_no d))) (filter live ds))"

definition dir_index :: "DirEntry list \<Rightarrow> u8 list \<Rightarrow> nat option" where
  "dir_index ds nm = find (\<lambda>k. live (ds ! k) \<and> dname (d_name (ds ! k)) = nm) [0..<length ds]"

lemma length_content [simp]: "length (content V e) = unat (i_num_bytes e)"
  by (simp add: content_def)

lemma length_dents [simp]: "length (dents V e) = unat (i_num_bytes e) div 16"
  by (simp add: dents_def)

lemma dir_offsets_eq:
  "16 dvd unat (i_num_bytes (i_entry ip)) \<Longrightarrow>
   dir_offsets ip = map (\<lambda>k. k * 16) [0..<unat (i_num_bytes (i_entry ip)) div 16]"
proof -
  assume "16 dvd unat (i_num_bytes (i_entry ip))"
  then obtain q where "unat (i_num_bytes (i_entry ip)) = 16 * q" by (auto simp: dvd_def)
  then show ?thesis by (simp add: dir_offsets_def)
qed

lemma read_dirent_ok:
  assumes fs: "fs_ok (bcache f)" and d: "dir_ok (bcache f) (i_entry ip)"
    and k: "k < length (dents (lview (bcache f)) (i_entry ip))" and u: "length u = 16"
  obtains f' b where "read_dirent t ip (k * 16) u f = Ok (b, ip, f')" "quiet f f'" "length b = 16"
    "dec_dirent b = dents (lview (bcache f)) (i_entry ip) ! k"
proof -
  let ?e = "i_entry ip" let ?c = "content (lview (bcache f)) (i_entry ip)"
  have fok: "file_ok (bcache f) ?e" and ty: "i_type ?e \<noteq> INODE_DEVICE" using d by (simp_all add: dir_ok_def)
  have b: "k * 16 + 16 \<le> unat (i_num_bytes ?e)"
    using k slot_bound [of k "unat (i_num_bytes ?e) div 16" 16 "unat (i_num_bytes ?e)"] by simp
  have o: "k * 16 \<le> unat (i_num_bytes ?e)" "k * 16 + 16 < 2 ^ 64" using b file_okD(2) [OF fok] by simp_all
  obtain s' where r: "file_read ip (k * 16) 16 (bcache f) = Ok (range_get (k * 16) 16 ?c, ip, s')"
    and st: "\<And>c. stores (bcache f) c {} (lview (bcache f)) s' c"
    by (rule file_read_ok [OF fs fok o]) blast
  have len: "length (range_get (k * 16) 16 ?c) = 16" using b by (simp add: buf_simps)
  have "read_dirent t ip (k * 16) u f = Ok (range_get (k * 16) 16 ?c, ip, f\<lparr>bcache := s'\<rparr>)"
    using r ty len u by (simp add: read_dirent_def inode_read_def)
  then show thesis
    using that [of "range_get (k * 16) 16 ?c" "f\<lparr>bcache := s'\<rparr>"] st k len by (auto simp: quiet_def dents_def)
qed

lemma dec_dirent_name: "length b = 16 \<Longrightarrow> length (d_name (dec_dirent b)) = 14"
  by (simp add: dec_dirent_def buf_simps)

lemma strncmp_dirent:
  assumes "length (d_name d) = 14" "readable 14 name"
  obtains r where "strncmp (d_name d) name 14 = Some r" "r = 0 \<longleftrightarrow> dname (d_name d) = dname name"
  using strncmp_cstr [of 14 "d_name d" name] assms by (auto simp: readable_def)

text \<open>What \<open>inode_lookup\<close> returns for the first matching entry at or after \<open>j\<close>.\<close>

definition lookup_result :: "DirEntry list \<Rightarrow> nat option \<Rightarrow> nat \<times> nat option" where
  "lookup_result ds = (\<lambda>None \<Rightarrow> (0, None) | Some k \<Rightarrow> (unat (d_inode_no (ds ! k)), Some (k * 16)))"

lemma lookup_loop_ok:
  assumes "fs_ok (bcache f)" "dir_ok (bcache f) (i_entry ip)" "length (uninit f) = 16" "readable 14 name"
    and "ds = dents (lview (bcache f)) (i_entry ip)"
  shows "\<exists>f'. lookup_loop t (map (\<lambda>k. k * 16) [j..<length ds]) name ip f =
      Ok (fst (lookup_result ds (find (\<lambda>k. live (ds ! k) \<and> dname (d_name (ds ! k)) = dname name) [j..<length ds])),
          snd (lookup_result ds (find (\<lambda>k. live (ds ! k) \<and> dname (d_name (ds ! k)) = dname name) [j..<length ds])),
          ip, f') \<and> quiet f f'"
  using assms
proof (induction "length ds - j" arbitrary: j f)
  case 0
  then show ?case using quiet_refl fs_okD(1) by (simp add: lookup_result_def)
next
  case (Suc m)
  let ?P = "\<lambda>k. live (ds ! k) \<and> dname (d_name (ds ! k)) = dname name"
  have j: "j < length ds" using Suc.hyps(2) by simp
  obtain f1 b where r: "read_dirent t ip (j * 16) (uninit f) f = Ok (b, ip, f1)" "quiet f f1" "length b = 16"
    "dec_dirent b = ds ! j"
    by (rule read_dirent_ok [OF Suc.prems(1,2) j [unfolded Suc.prems(5)] Suc.prems(3)]) (use Suc.prems(5) in blast)
  note same = quiet_same [OF r(2)] and d = quietD [OF r(2)]
  obtain z where z: "strncmp (d_name (ds ! j)) name 14 = Some z" "z = 0 \<longleftrightarrow> dname (d_name (ds ! j)) = dname name"
    by (rule strncmp_dirent [OF _ Suc.prems(4)]) (use dec_dirent_name [OF r(3)] r(4) in auto)
  have up: "[j..<length ds] = j # [Suc j..<length ds]" using j by (simp add: upt_conv_Cons)
  show ?case
  proof (cases "?P j")
    case True
    then show ?thesis using r z by (auto simp: up lookup_result_def Let_def)
  next
    case False
    have "\<exists>f'. lookup_loop t (map (\<lambda>k. k * 16) [Suc j..<length ds]) name ip f1 =
        Ok (fst (lookup_result ds (find ?P [Suc j..<length ds])), snd (lookup_result ds (find ?P [Suc j..<length ds])), ip, f') \<and>
        quiet f1 f'"
    proof (rule Suc.hyps(1))
      show "m = length ds - Suc j" using Suc.hyps(2) by simp
      show "fs_ok (bcache f1)" by (rule quiet_fs_ok [OF r(2) Suc.prems(1)])
      show "dir_ok (bcache f1) (i_entry ip)" using Suc.prems(2) by (simp add: dir_ok_def same)
    qed (use Suc.prems d in auto)
    then obtain f' where f': "lookup_loop t (map (\<lambda>k. k * 16) [Suc j..<length ds]) name ip f1 =
        Ok (fst (lookup_result ds (find ?P [Suc j..<length ds])), snd (lookup_result ds (find ?P [Suc j..<length ds])), ip, f')"
      "quiet f1 f'" by blast
    then show ?thesis using False r z quiet_trans [OF r(2) f'(2)] by (auto simp: up Let_def)
  qed
qed

lemma inode_lookup_ok:
  assumes "fs_ok (bcache f)" "dir_ok (bcache f) (i_entry ip)" "length (uninit f) = 16" "readable 14 name"
  obtains f' where "inode_lookup t ip name f =
      Ok (fst (lookup_result (dents (lview (bcache f)) (i_entry ip)) (dir_index (dents (lview (bcache f)) (i_entry ip)) (dname name))),
          snd (lookup_result (dents (lview (bcache f)) (i_entry ip)) (dir_index (dents (lview (bcache f)) (i_entry ip)) (dname name))),
          ip, f')" "quiet f f'"
proof -
  have ty: "i_type (i_entry ip) = INODE_DIRECTORY" "16 dvd unat (i_num_bytes (i_entry ip))"
    using assms(2) by (simp_all add: dir_ok_def)
  show thesis
    using lookup_loop_ok [OF assms refl, of t 0] that ty by (auto simp: inode_lookup_def dir_offsets_eq dir_index_def)
qed

text \<open>The first matching entry is what the map returns.\<close>

lemma dir_index_map: "dir_map ds nm = map_option (\<lambda>k. unat (d_inode_no (ds ! k))) (dir_index ds nm)"
proof -
  have "map_of (map (\<lambda>d. (dname (d_name d), unat (d_inode_no d))) (filter live ds)) nm =
    map_option (\<lambda>d. unat (d_inode_no d)) (find (\<lambda>d. live d \<and> dname (d_name d) = nm) ds)" for ds
    by (induction ds) auto
  moreover have "find P ds = map_option (\<lambda>k. ds ! k) (find (\<lambda>k. P (ds ! k)) [0..<length ds])" for P and ds :: "DirEntry list"
  proof (induction ds)
    case (Cons d ds)
    have "[0..<length (d # ds)] = 0 # map Suc [0..<length ds]" by (simp add: map_Suc_upt upt_conv_Cons del: upt_Suc)
    moreover have "find (\<lambda>k. P ((d # ds) ! k)) (map Suc ks) = map_option Suc (find (\<lambda>k. P (ds ! k)) ks)" for ks
      by (induction ks) auto
    ultimately show ?case using Cons by (auto simp: option.map_comp comp_def)
  qed simp
  ultimately show ?thesis by (simp add: dir_map_def dir_index_def option.map_comp comp_def)
qed

lemma lookup_result_map:
  "fst (lookup_result ds (dir_index ds nm)) = (case dir_map ds nm of None \<Rightarrow> 0 | Some i \<Rightarrow> i)"
  "snd (lookup_result ds (dir_index ds nm)) = map_option (\<lambda>k. k * 16) (dir_index ds nm)"
  by (simp_all add: dir_index_map lookup_result_def split: option.split)

lemma dir_map_pos: "dir_map ds nm = Some i \<Longrightarrow> 0 < i"
  by (auto simp: dir_map_def unat_gt_0 dest!: map_of_SomeD)

section \<open>Changing an entry\<close>

definition put_dent :: "nat \<Rightarrow> DirEntry \<Rightarrow> DirEntry list \<Rightarrow> DirEntry list" where
  "put_dent k d ds = (if k < length ds then ds[k := d] else ds @ [d])"

lemma dents_write:
  assumes ct: "content V' e' = range_put (k * 16) (enc_dirent d) (content V e)" and d: "wf_dirent d"
    and dv: "16 dvd unat (i_num_bytes e)" and k: "k \<le> length (dents V e)"
  shows "dents V' e' = put_dent k d (dents V e)" "16 dvd unat (i_num_bytes e')"
proof -
  obtain n where n: "unat (i_num_bytes e) = 16 * n" using dv by (auto simp: dvd_def)
  have len: "length (enc_dirent d) = 16" "dec_dirent (enc_dirent d) = d"
    using dirent.enc_length [OF d] dirent.dec_enc [OF d] by simp_all
  have kn: "k \<le> n" using k n by simp
  have n': "unat (i_num_bytes e') = 16 * max n (k + 1)"
    using arg_cong [OF ct, of length] len(1) kn n by (auto simp: range_put_def max_def)
  then show "16 dvd unat (i_num_bytes e')" by simp
  show "dents V' e' = put_dent k d (dents V e)"
  proof (rule nth_equalityI)
    show "length (dents V' e') = length (put_dent k d (dents V e))" using n n' kn by (auto simp: put_dent_def max_def)
  next
    fix j assume "j < length (dents V' e')"
    then have j: "j < max n (k + 1)" using n' by simp
    have "dec_dirent (range_get (j * 16) 16 (content V' e')) = put_dent k d (dents V e) ! j"
    proof (cases "k < n")
      case True
      then have b: "j * 16 + 16 \<le> 16 * n" "k * 16 + 16 \<le> 16 * n" using j by auto
      show ?thesis
        using True b j n len slots_disjoint [of k j 16]
        by (cases "j = k") (auto simp: put_dent_def dents_def ct buf_simps)
    next
      case False
      then have kn': "k = n" using kn by simp
      then have c': "content V' e' = content V e @ enc_dirent d" using n len by (simp add: ct range_put_def)
      show ?thesis
      proof (cases "j = k")
        case True
        then show ?thesis using kn' n len by (simp add: put_dent_def c' range_get_def nth_append)
      next
        case False
        then have "j < n" using j kn' by simp
        then show ?thesis using kn' n by (simp add: put_dent_def c' dents_def range_get_def nth_append)
      qed
    qed
    then show "dents V' e' ! j = put_dent k d (dents V e) ! j" using j n' by (simp add: dents_def)
  qed
qed

lemma put_dent_split:
  assumes "k \<le> length ds"
  shows "put_dent k d ds = take k ds @ d # drop (Suc k) ds"
  using assms by (auto simp: put_dent_def upd_conv_take_nth_drop)

definition dir_uniq :: "DirEntry list \<Rightarrow> bool" where
  "dir_uniq ds \<longleftrightarrow> distinct (map (\<lambda>d. dname (d_name d)) (filter live ds))"

lemma filter_live_free:
  assumes "k < length ds \<Longrightarrow> \<not> live (ds ! k)"
  shows "filter live ds = filter live (take k ds) @ filter live (drop (Suc k) ds)"
proof (cases "k < length ds")
  case True
  then have "ds = take k ds @ ds ! k # drop (Suc k) ds" by (simp add: id_take_nth_drop)
  then show ?thesis using assms [OF True] filter_append [of live "take k ds" "ds ! k # drop (Suc k) ds"] by simp
qed simp

lemma dir_uniq_insert:
  assumes k: "k \<le> length ds" "k < length ds \<Longrightarrow> \<not> live (ds ! k)" and u: "dir_uniq ds"
    and new: "dir_map ds (dname (d_name d)) = None"
  shows "dir_uniq (put_dent k d ds)"
proof -
  have "dname (d_name d) \<notin> fst ` set (map (\<lambda>d. (dname (d_name d), unat (d_inode_no d))) (filter live ds))"
    using new unfolding dir_map_def map_of_eq_None_iff .
  then have n: "dname (d_name d) \<notin> (\<lambda>d. dname (d_name d)) ` set (filter live ds)" by (simp add: image_image)
  have fl: "filter live ds = filter live (take k ds) @ filter live (drop (Suc k) ds)"
    by (rule filter_live_free) (rule k(2))
  show ?thesis using u n unfolding dir_uniq_def put_dent_split [OF k(1)] fl by auto
qed

lemma dir_map_insert:
  assumes k: "k \<le> length ds" "k < length ds \<Longrightarrow> \<not> live (ds ! k)" and d: "live d"
    and new: "dir_map ds (dname (d_name d)) = None"
  shows "dir_map (put_dent k d ds) = (dir_map ds)(dname (d_name d) \<mapsto> unat (d_inode_no d))"
proof -
  let ?f = "\<lambda>d. (dname (d_name d), unat (d_inode_no d))"
  note fl = filter_live_free [OF k(2)]
  have "map_of (map ?f (filter live (take k ds))) (dname (d_name d)) = None"
    using new by (simp add: dir_map_def fl map_add_None)
  then show ?thesis
    using d by (simp add: dir_map_def put_dent_split [OF k(1)] fl fun_eq_iff map_add_def split: option.split)
qed

lemma dir_map_delete:
  assumes k: "k < length ds" and u: "dir_uniq ds" and z: "\<not> live z"
    and l: "live (ds ! k)"
  shows "dir_map (put_dent k z ds) = (dir_map ds)(dname (d_name (ds ! k)) := None)"
proof -
  let ?f = "\<lambda>d. (dname (d_name d), unat (d_inode_no d))" let ?n = "dname (d_name (ds ! k))"
  have ds: "ds = take k ds @ ds ! k # drop (Suc k) ds" using k by (simp add: id_take_nth_drop)
  have fl: "filter live ds = filter live (take k ds) @ ds ! k # filter live (drop (Suc k) ds)"
    using arg_cong [OF ds, of "filter live"] l by simp
  have "?n \<notin> fst ` set (map ?f (filter live (take k ds)))" "?n \<notin> fst ` set (map ?f (filter live (drop (Suc k) ds)))"
    using u unfolding dir_uniq_def fl by auto
  then have "map_of (map ?f (filter live (take k ds))) ?n = None" "map_of (map ?f (filter live (drop (Suc k) ds))) ?n = None"
    by (simp_all only: map_of_eq_None_iff set_map not_False_eq_True)
  then show ?thesis
    using z k by (auto simp: dir_map_def put_dent_split fl fun_eq_iff map_add_def split: option.split)
qed

section \<open>Insertion\<close>

lemma free_slot_loop_ok:
  assumes "fs_ok (bcache f)" "dir_ok (bcache f) (i_entry ip)" "length u = 16"
    and "ds = dents (lview (bcache f)) (i_entry ip)"
  shows "\<exists>k b f'. free_slot_loop t (map (\<lambda>k. k * 16) [j..<length ds]) (16 * length ds) u ip f =
      Ok (k * 16, b, ip, f') \<and> length b = 16 \<and> quiet f f' \<and> k \<le> length ds \<and> (k < length ds \<longrightarrow> \<not> live (ds ! k))"
  using assms
proof (induction "length ds - j" arbitrary: j f u)
  case 0
  then show ?case using quiet_refl fs_okD(1)
    by (intro exI [of _ "length ds"] exI [of _ u] exI [of _ f]) simp
next
  case (Suc m)
  have j: "j < length ds" using Suc.hyps(2) by simp
  obtain f1 b where r: "read_dirent t ip (j * 16) u f = Ok (b, ip, f1)" "quiet f f1" "length b = 16"
    "dec_dirent b = ds ! j"
    by (rule read_dirent_ok [OF Suc.prems(1,2) j [unfolded Suc.prems(4)] Suc.prems(3)]) (use Suc.prems(4) in blast)
  note same = quiet_same [OF r(2)] and d = quietD(1) [OF r(2)]
  have up: "[j..<length ds] = j # [Suc j..<length ds]" using j by (simp add: upt_conv_Cons)
  show ?case
  proof (cases "live (ds ! j)")
    case False
    then show ?thesis using r j by (intro exI [of _ j] exI [of _ b] exI [of _ f1]) (simp add: up)
  next
    case True
    have "\<exists>k b' f'. free_slot_loop t (map (\<lambda>k. k * 16) [Suc j..<length ds]) (16 * length ds) b ip f1 =
        Ok (k * 16, b', ip, f') \<and> length b' = 16 \<and> quiet f1 f' \<and> k \<le> length ds \<and> (k < length ds \<longrightarrow> \<not> live (ds ! k))"
    proof (rule Suc.hyps(1))
      show "m = length ds - Suc j" using Suc.hyps(2) by simp
      show "fs_ok (bcache f1)" by (rule quiet_fs_ok [OF r(2) Suc.prems(1)])
      show "dir_ok (bcache f1) (i_entry ip)" using Suc.prems(2) by (simp add: dir_ok_def same)
    qed (use Suc.prems r d in auto)
    then obtain k b' f' where IH: "free_slot_loop t (map (\<lambda>k. k * 16) [Suc j..<length ds]) (16 * length ds) b ip f1 =
        Ok (k * 16, b', ip, f')" "length b' = 16" "quiet f1 f'" "k \<le> length ds" "k < length ds \<longrightarrow> \<not> live (ds ! k)"
      by blast
    then show ?thesis
      using True r quiet_trans [OF r(2) IH(3)] by (intro exI [of _ k] exI [of _ b'] exI [of _ f']) (simp add: up)
  qed
qed

lemma cstr_pad: "cstr n (cstr n s @ replicate (n - length (cstr n s)) 0) = cstr n s"
proof -
  let ?t = "cstr n s" let ?z = "replicate (n - length ?t) (0 :: u8)"
  have nz: "\<forall>x\<in>set ?t. x \<noteq> 0" by (auto simp: cstr_def dest: set_takeWhileD)
  have "takeWhile (\<lambda>c. c \<noteq> 0) ?z = []" by (cases "n - length ?t") simp_all
  then have "takeWhile (\<lambda>c. c \<noteq> 0) (?t @ ?z) = ?t" using nz takeWhile_append2 [of ?t "\<lambda>c. c \<noteq> 0" ?z] by simp
  moreover have "take n (?t @ ?z) = ?t @ ?z" using cstr_length_le(1) [of n s] by simp
  ultimately show ?thesis by (simp only: cstr_def [of n "?t @ ?z"])
qed

lemma strncpy_name:
  assumes "readable 14 name" "length old = 14"
  obtains nm where "strncpy old name 14 = Some nm" "length nm = 14" "dname nm = dname name"
proof -
  let ?nm = "dname name @ replicate (14 - length (dname name)) 0"
  have l: "length ?nm = 14" using cstr_length_le(1) [of 14 name] by simp
  have "strncpy old name 14 = Some ?nm"
    using strncpy_range [OF assms(1), of old] assms(2) l by (simp add: range_put_whole)
  then show thesis using that l cstr_pad by blast
qed

lemma span_dirent: "card (span (k * 16) 16) = 1"
proof -
  have "k * 16 mod BLOCK_SIZE + 16 \<le> BLOCK_SIZE"
  proof -
    have "k * 16 mod BLOCK_SIZE = (k mod 32) * 16" using mult_mod_right [of 16 k 32] by (simp add: mult.commute)
    moreover have "k mod 32 < 32" by simp
    ultimately show ?thesis by simp
  qed
  then have "span (k * 16) 16 = insert (k * 16 div BLOCK_SIZE) (span (k * 16 + 16) 0)"
    using span_step [of "k * 16" 16 16] by simp
  then show ?thesis by (simp add: span_def)
qed

text \<open>What a directory operation that writes one entry needs.\<close>

definition can_write_dir :: "fsys \<Rightarrow> Inode \<Rightarrow> OpContext \<Rightarrow> bool" where
  "can_write_dir f ip c \<longleftrightarrow> fs_ok (bcache f) \<and> dir_ok (bcache f) (i_entry ip) \<and> length (uninit f) = 16 \<and>
     i_valid ip \<and> i_no ip < num_inodes (bcache f) \<and> to_block_no (bcache f) (i_no ip) \<notin> held (bcache f) \<and>
     disk_entry (bcache f) (i_no ip) = i_entry ip \<and> unat (i_num_bytes (i_entry ip)) + 16 \<le> INODE_MAX_BYTES \<and>
     rm c \<ge> 7 \<and> budget c (bcache f) \<le> LOG_MAX_SIZE \<and> card (free_blocks (bcache f)) \<ge> 3"

lemma can_write_dirD:
  assumes "can_write_dir f ip c"
  shows "fs_ok (bcache f)" "dir_ok (bcache f) (i_entry ip)" "length (uninit f) = 16"
    "i_valid ip" "i_no ip < num_inodes (bcache f)" "to_block_no (bcache f) (i_no ip) \<notin> held (bcache f)"
    "disk_entry (bcache f) (i_no ip) = i_entry ip" "unat (i_num_bytes (i_entry ip)) + 16 \<le> INODE_MAX_BYTES"
    "rm c \<ge> 7" "budget c (bcache f) \<le> LOG_MAX_SIZE" "card (free_blocks (bcache f)) \<ge> 3"
  using assms by (simp_all add: can_write_dir_def)

lemma can_write_dir_quiet:
  assumes "can_write_dir f ip c" "quiet f f'" shows "can_write_dir f' ip c"
  using assms(1) quiet_same [OF assms(2)] quietD(2,4,6) [OF assms(2)] quiet_fs_ok [OF assms(2)]
  by (simp add: can_write_dir_def dir_ok_def)

lemma write_dirent_ok:
  assumes w: "can_write_dir f ip c" and k: "k \<le> length (dents (lview (bcache f)) (i_entry ip))" and d: "wf_dirent d"
  obtains c' e' f' where "inode_write t (Some c) ip (enc_dirent d) (k * 16) f = Ok (16, Some c', ip\<lparr>i_entry := e'\<rparr>, f')"
    "fs_ok (bcache f')" "dir_ok (bcache f') e'" "disk_entry (bcache f') (i_no ip) = e'"
    "dents (lview (bcache f')) e' = put_dent k d (dents (lview (bcache f)) (i_entry ip))"
    "held (bcache f') = held (bcache f)" "uninit f' = uninit f"
proof -
  note p = can_write_dirD [OF w]
  let ?e = "i_entry ip"
  have fok: "file_ok (bcache f) ?e" and ty: "i_type ?e = INODE_DIRECTORY" and dv: "16 dvd unat (i_num_bytes ?e)"
    using p(2) by (simp_all add: dir_ok_def)
  have len: "length (enc_dirent d) = 16" by (rule dirent.enc_length [OF d])
  have off: "k * 16 \<le> unat (i_num_bytes ?e)" "k * 16 + length (enc_dirent d) \<le> INODE_MAX_BYTES"
    using k dv p(8) len by (auto simp: dvd_def)
  have q: "card (span (k * 16) (length (enc_dirent d))) + 6 \<le> rm c"
    "card (span (k * 16) (length (enc_dirent d))) + 2 \<le> card (free_blocks (bcache f))"
    using p(9,11) by (simp_all add: len span_dirent)
  obtain c' e' s' where r: "file_write (Some c) ip (enc_dirent d) (k * 16) (bcache f) =
      Ok (length (enc_dirent d), Some c', ip\<lparr>i_entry := e'\<rparr>, s')" "fs_ok s'" "file_ok s' e'"
    "content (lview s') e' = range_put (k * 16) (enc_dirent d) (content (lview (bcache f)) ?e)"
    "i_type e' = i_type ?e" "held s' = held (bcache f)" "disk_entry s' (i_no ip) = e'"
    by (rule file_write_ok [OF p(1) fok p(4-6) off q(1) p(10) q(2)]) (use p(7) in blast)
  have "inode_write t (Some c) ip (enc_dirent d) (k * 16) f = Ok (16, Some c', ip\<lparr>i_entry := e'\<rparr>, f\<lparr>bcache := s'\<rparr>)"
    using r(1) ty len by (simp add: inode_write_def)
  then show thesis
    using that [of c' e' "f\<lparr>bcache := s'\<rparr>"] r dents_write [OF r(4) d dv k] ty by (simp add: dir_ok_def)
qed

section \<open>Properties\<close>

text \<open>The abstract state of a directory.\<close>

definition dir_view :: "fsys \<Rightarrow> InodeEntry \<Rightarrow> u8 list \<rightharpoonup> nat" where
  "dir_view f e = dir_map (dents (lview (bcache f)) e)"

text \<open>
  C21: \<open>inode_lookup\<close> implements lookup in the map that the entries of the directory denote: it returns
  the inode number of the name, compared over its first 14 characters, or 0 when there is none, and
  \<open>*index\<close> is the offset of a live entry with that name. Nothing is changed.
\<close>

theorem inode_lookup_refines:
  assumes "fs_ok (bcache f)" and "dir_ok (bcache f) (i_entry ip)" and "length (uninit f) = 16"
    and "readable FILE_NAME_MAX_LENGTH name"
  shows "\<exists>idx f'. inode_lookup t ip name f =
      Ok (case dir_view f (i_entry ip) (dname name) of None \<Rightarrow> 0 | Some i \<Rightarrow> i, idx, ip, f') \<and>
    quiet f f' \<and> dir_view f' (i_entry ip) = dir_view f (i_entry ip) \<and>
    (idx = None \<longleftrightarrow> dir_view f (i_entry ip) (dname name) = None) \<and>
    (\<forall>i. idx = Some i \<longrightarrow> (\<exists>k<length (dents (lview (bcache f)) (i_entry ip)). i = k * 16 \<and>
       live (dents (lview (bcache f)) (i_entry ip) ! k) \<and>
       dname (d_name (dents (lview (bcache f)) (i_entry ip) ! k)) = dname name))"
proof -
  let ?ds = "dents (lview (bcache f)) (i_entry ip)"
  obtain f' where r: "inode_lookup t ip name f = Ok (fst (lookup_result ?ds (dir_index ?ds (dname name))),
      snd (lookup_result ?ds (dir_index ?ds (dname name))), ip, f')" "quiet f f'"
    by (rule inode_lookup_ok [OF assms])
  show ?thesis
  proof (intro exI conjI)
    show "inode_lookup t ip name f = Ok (case dir_view f (i_entry ip) (dname name) of None \<Rightarrow> 0 | Some i \<Rightarrow> i,
        map_option (\<lambda>k. k * 16) (dir_index ?ds (dname name)), ip, f')"
      using r(1) by (simp add: lookup_result_map dir_view_def)
  qed (use r(2) quietD(1) [OF r(2)] in \<open>auto simp: dir_view_def dir_index_map dir_index_def find_Some_iff\<close>)
qed

text \<open>
  C22: \<open>inode_insert\<close> refuses a name that is present with -1 and leaves the directory alone; otherwise it
  fills a free entry or appends one, and the map that the directory denotes becomes the old one with
  the name bound to the new inode number. Names stay unique.
\<close>

theorem inode_insert_refines:
  assumes "can_write_dir f ip c" and "readable FILE_NAME_MAX_LENGTH name" and "0 < inode_no" and "inode_no < 2 ^ 16"
  shows "case dir_view f (i_entry ip) (dname name) of
      Some i \<Rightarrow> \<exists>f'. inode_insert t (Some c) ip name inode_no f = Ok (-1, Some c, ip, f') \<and> quiet f f'
    | None \<Rightarrow> \<exists>i c' e' f'. inode_insert t (Some c) ip name inode_no f = Ok (int i, Some c', ip\<lparr>i_entry := e'\<rparr>, f') \<and>
        16 dvd i \<and> fs_ok (bcache f') \<and> dir_ok (bcache f') e' \<and> disk_entry (bcache f') (i_no ip) = e' \<and>
        dir_view f' e' = (dir_view f (i_entry ip))(dname name \<mapsto> inode_no) \<and>
        (dir_uniq (dents (lview (bcache f)) (i_entry ip)) \<longrightarrow> dir_uniq (dents (lview (bcache f')) e'))"
proof -
  let ?e = "i_entry ip" let ?ds = "dents (lview (bcache f)) (i_entry ip)"
  note p = can_write_dirD [OF assms(1)]
  have dv: "16 dvd unat (i_num_bytes ?e)" and ty: "i_type ?e = INODE_DIRECTORY" using p(2) by (simp_all add: dir_ok_def)
  obtain f1 where l: "inode_lookup t ip name f = Ok (fst (lookup_result ?ds (dir_index ?ds (dname name))),
      snd (lookup_result ?ds (dir_index ?ds (dname name))), ip, f1)" "quiet f f1"
    by (rule inode_lookup_ok [OF p(1-3) assms(2)])
  show ?thesis
  proof (cases "dir_view f ?e (dname name)")
    case (Some i)
    then show ?thesis using l dir_map_pos [of ?ds "dname name" i] ty
      by (simp add: inode_insert_def lookup_result_map dir_view_def)
  next
    case None
    note w1 = can_write_dir_quiet [OF assms(1) l(2)] and v1 = quietD(1) [OF l(2)]
    note p1 = can_write_dirD [OF w1]
    obtain k b f2 where k: "free_slot_loop t (map (\<lambda>k. k * 16) [0..<length ?ds]) (16 * length ?ds) (uninit f1) ip f1 =
        Ok (k * 16, b, ip, f2)" "length b = 16" "quiet f1 f2" "k \<le> length ?ds" "k < length ?ds \<longrightarrow> \<not> live (?ds ! k)"
      using free_slot_loop_ok [OF p1(1-3), of ?ds t 0] v1 by auto
    note w2 = can_write_dir_quiet [OF w1 k(3)]
    have v2: "lview (bcache f2) = lview (bcache f)" using quietD(1) [OF k(3)] v1 by simp
    obtain nm where nm: "strncpy (d_name (dec_dirent b)) name 14 = Some nm" "length nm = 14" "dname nm = dname name"
      by (rule strncpy_name [OF assms(2) dec_dirent_name [OF k(2)]])
    define d where "d = \<lparr>d_inode_no = word_of_nat inode_no, d_name = nm\<rparr>"
    have wf: "wf_dirent d" using nm(2) by (simp add: d_def wf_dirent_def)
    obtain c' e' f' where wr: "inode_write t (Some c) ip (enc_dirent d) (k * 16) f2 = Ok (16, Some c', ip\<lparr>i_entry := e'\<rparr>, f')"
      "fs_ok (bcache f')" "dir_ok (bcache f') e'" "disk_entry (bcache f') (i_no ip) = e'"
      "dents (lview (bcache f')) e' = put_dent k d (dents (lview (bcache f2)) ?e)"
      by (rule write_dirent_ok [OF w2 _ wf, of k t]) (use k(4) v2 in auto)
    have u: "unat (d_inode_no d) = inode_no" using assms(4) by (simp add: d_def unat_of_nat take_bit_nat_eq_self)
    have ld: "live d" using u assms(3) by auto
    have new: "dir_map ?ds (dname (d_name d)) = None" using None nm(3) by (simp add: dir_view_def d_def)
    have free: "\<not> live (?ds ! k)" if "k < length ?ds" using k(5) that by blast
    have "inode_insert t (Some c) ip name inode_no f = Ok (int (k * 16), Some c', ip\<lparr>i_entry := e'\<rparr>, f')"
      using l k(1) nm(1) wr(1) None dv ty
      by (simp add: inode_insert_def lookup_result_map dir_view_def dir_offsets_eq d_def)
    moreover have "dir_view f' e' = (dir_view f ?e)(dname name \<mapsto> inode_no)"
      using dir_map_insert [OF k(4) free ld new] u nm(3) v2 wr(5) by (simp add: dir_view_def d_def)
    moreover have "dir_uniq (dents (lview (bcache f')) e')" if "dir_uniq ?ds"
      using dir_uniq_insert [OF k(4) free that new] v2 wr(5) by simp
    ultimately show ?thesis using None wr(2-4) by (auto intro!: exI [of _ "k * 16"])
  qed
qed

text \<open>
  C23: \<open>inode_remove\<close> at the index of a live entry removes exactly that name from the map, provided that
  no two live entries have the same name, which \<open>inode_insert\<close> guarantees.
\<close>

theorem inode_remove_refines:
  assumes "can_write_dir f ip c" and "k < length (dents (lview (bcache f)) (i_entry ip))"
    and "live (dents (lview (bcache f)) (i_entry ip) ! k)"
    and "dir_uniq (dents (lview (bcache f)) (i_entry ip))"
  shows "\<exists>c' e' f'. inode_remove t (Some c) ip (k * 16) f = Ok (Some c', ip\<lparr>i_entry := e'\<rparr>, f') \<and>
    fs_ok (bcache f') \<and> dir_ok (bcache f') e' \<and> disk_entry (bcache f') (i_no ip) = e' \<and>
    dir_view f' e' = (dir_view f (i_entry ip))(dname (d_name (dents (lview (bcache f)) (i_entry ip) ! k)) := None)"
proof -
  let ?z = "\<lparr>d_inode_no = 0, d_name = replicate 14 0\<rparr>"
  have wf: "wf_dirent ?z" by (simp add: wf_dirent_def)
  have ty: "i_type (i_entry ip) = INODE_DIRECTORY" using can_write_dirD(2) [OF assms(1)] by (simp add: dir_ok_def)
  obtain c' e' f' where wr: "inode_write t (Some c) ip (enc_dirent ?z) (k * 16) f = Ok (16, Some c', ip\<lparr>i_entry := e'\<rparr>, f')"
    "fs_ok (bcache f')" "dir_ok (bcache f') e'" "disk_entry (bcache f') (i_no ip) = e'"
    "dents (lview (bcache f')) e' = put_dent k ?z (dents (lview (bcache f)) (i_entry ip))"
    by (rule write_dirent_ok [OF assms(1) less_imp_le [OF assms(2)] wf, of t]) blast
  then show ?thesis
    using dir_map_delete [OF assms(2,4) _ assms(3), of ?z] ty by (auto simp: inode_remove_def dir_view_def)
qed

section \<open>An example\<close>

text \<open>A directory with one entry, \<open>a\<close> for inode 7, and one free entry.\<close>

abbreviation demo_dent :: DirEntry where
  "demo_dent \<equiv> \<lparr>d_inode_no = 7, d_name = 97 # replicate 13 0\<rparr>"

abbreviation free_dent :: DirEntry where
  "free_dent \<equiv> \<lparr>d_inode_no = 0, d_name = replicate 14 0\<rparr>"

abbreviation demo_dir :: InodeEntry where
  "demo_dir \<equiv> \<lparr>i_type = INODE_DIRECTORY, i_major = 0, i_minor = 0, i_num_links = 1, i_num_bytes = 32,
     i_addrs = 75 # replicate 11 0, i_indirect = 0\<rparr>"

abbreviation demo_dir_disk :: "nat \<Rightarrow> u8 list" where
  "demo_dir_disk \<equiv> (\<lambda>n. if n = 74 then bytes_of ((-1) # 4095 # replicate 62 0)
     else if n = 66 then set_entry (replicate 512 0) 5 demo_dir
     else if n = 75 then enc_dirent demo_dent @ enc_dirent free_dent @ replicate 480 0 else replicate 512 0)"

abbreviation demo_dir_inode :: Inode where
  "demo_dir_inode \<equiv> \<lparr>i_lock = \<lparr>val = 0, sleeplist = []\<rparr>, i_rc = 1, i_no = 5, i_valid = True, i_entry = demo_dir\<rparr>"

abbreviation demo_dir_fsys :: fsys where
  "demo_dir_fsys \<equiv> \<lparr>bcache = fresh_cache demo_sb demo_dir_disk, con = demo_con, uninit = replicate 16 0\<rparr>"

lemma content_first_block:
  assumes "unat (i_num_bytes e) \<le> length (V (bmap V e 0))" "unat (i_num_bytes e) \<le> BLOCK_SIZE"
  shows "content V e = take (unat (i_num_bytes e)) (V (bmap V e 0))"
  using assms by (intro nth_equalityI) (simp_all add: content_def fbyte_def)

lemma demo_dent_length [simp]: "length (enc_dirent demo_dent) = 16" "length (enc_dirent free_dent) = 16"
  by (rule dirent.enc_length; simp add: wf_dirent_def)+

lemma demo_dir_bmap: "bmap V demo_dir k = (if k = 0 then 75 else 0)"
  by (cases k) (simp_all add: bmap_def)

lemma demo_dents: "dents demo_dir_disk demo_dir = [demo_dent, free_dent]"
proof -
  have ct: "content demo_dir_disk demo_dir = enc_dirent demo_dent @ enc_dirent free_dent"
    by (subst content_first_block) (simp_all add: demo_dir_bmap)
  have dec: "dec_dirent (enc_dirent demo_dent) = demo_dent" "dec_dirent (enc_dirent free_dent) = free_dent"
    by (rule dirent.dec_enc; simp add: wf_dirent_def)+
  show ?thesis unfolding dents_def ct using dec by (simp add: upt_rec range_get_def)
qed

lemma demo_dir_length: "\<forall>n. length (demo_dir_disk n) = BLOCK_SIZE"
  by (simp add: set_entry_simps(1) wf_inode_entry_def)

lemma demo_dir_fs: "fs_ok (bcache demo_dir_fsys)" "card (free_blocks (bcache demo_dir_fsys)) \<ge> 10"
  using demo_ok [of demo_dir_disk, OF demo_dir_length] by simp_all

lemma demo_dir_ok: "dir_ok (bcache demo_dir_fsys) demo_dir"
proof -
  have "fblocks V demo_dir = {75}" for V by (auto simp: fblocks_def demo_dir_bmap)
  then show ?thesis using demo_used [of demo_dir_disk 75]
    by (auto simp: dir_ok_def file_ok_def demo_dir_bmap data_block_def bitmap_start_def alloc_limit_def wf_inode_entry_def
        split: if_splits)
qed

lemma demo_dir_write: "can_write_dir demo_dir_fsys demo_dir_inode \<lparr>rm = 10, ts = 0\<rparr>"
proof -
  have "disk_entry (bcache demo_dir_fsys) 5 = demo_dir"
    using set_entry_simps(2) [of "replicate 512 0" demo_dir 5]
    by (simp add: disk_entry_def to_block_no_def wf_inode_entry_def)
  then show ?thesis
    using demo_dir_fs demo_dir_ok by (simp add: can_write_dir_def num_inodes_def budget_def)
qed

lemma demo_dir_view: "dir_view demo_dir_fsys demo_dir = [[97] \<mapsto> 7]"
  by (simp add: dir_view_def demo_dents dir_map_def cstr_def fun_eq_iff)

theorem inode_lookup_refines_witness:
  "\<exists>idx f'. inode_lookup 1 demo_dir_inode [97, 0] demo_dir_fsys = Ok (7, idx, demo_dir_inode, f')"
  using inode_lookup_refines [OF demo_dir_fs(1), of demo_dir_inode "[97, 0]" 1] demo_dir_ok demo_dir_view
  by (auto simp: readable_def cstr_def)

theorem inode_insert_refines_witness:
  "\<exists>i c' e' f'. inode_insert 1 (Some \<lparr>rm = 10, ts = 0\<rparr>) demo_dir_inode [98, 0] 9 demo_dir_fsys =
       Ok (int i, Some c', demo_dir_inode\<lparr>i_entry := e'\<rparr>, f') \<and> dir_view f' e' = [[97] \<mapsto> 7, [98] \<mapsto> 9]"
  using inode_insert_refines [OF demo_dir_write, of "[98, 0]" 9 1] demo_dir_view
  by (auto simp: readable_def cstr_def)

theorem inode_remove_refines_witness:
  "\<exists>c' e' f'. inode_remove 1 (Some \<lparr>rm = 10, ts = 0\<rparr>) demo_dir_inode (0 * 16) demo_dir_fsys =
       Ok (Some c', demo_dir_inode\<lparr>i_entry := e'\<rparr>, f') \<and> dir_view f' e' = Map.empty"
proof -
  have d: "dents (lview (bcache demo_dir_fsys)) (i_entry demo_dir_inode) = [demo_dent, free_dent]"
    using demo_dents by simp
  show ?thesis
    using inode_remove_refines [OF demo_dir_write, of 0 1] demo_dir_view unfolding d
    by (auto simp: dir_uniq_def cstr_def)
qed

end
