(* ===== verification/Inode_Table.thy ===== *)
theory Inode_Table
  imports Directory
begin

text \<open>
  The in-memory inode list and path names (\<open>fs/inode.c\<close>, second part). An \<open>Inode *\<close> is a number;
  \<^term>\<open>inodes\<close> holds the allocated inodes and \<^term>\<open>ilist\<close> the list \<open>head\<close>, front first. \<open>kalloc\<close>
  returns \<^term>\<open>fresh\<close>, memory it has not handed out before, whose bytes are arbitrary
  (\<^term>\<open>garbage\<close>). Threads handed to \<open>activate_proc\<close> by an unlock are appended to
  \<^term>\<open>it_woken\<close>.
\<close>

section \<open>State\<close>

record itable =
  fs :: fsys
  inodes :: "nat \<rightharpoonup> Inode"
  ilist :: "nat list"
  root :: nat
  fresh :: nat
  garbage :: InodeEntry
  it_woken :: "nat list"

abbreviation blocks_of :: "itable \<Rightarrow> cache" where
  "blocks_of st \<equiv> bcache (fs st)"

definition set_inode :: "nat \<Rightarrow> Inode \<Rightarrow> itable \<Rightarrow> itable" where
  "set_inode p ip st = st\<lparr>inodes := (inodes st)(p \<mapsto> ip)\<rparr>"

definition set_blocks :: "cache \<Rightarrow> itable \<Rightarrow> itable" where
  "set_blocks s st = st\<lparr>fs := (fs st)\<lparr>bcache := s\<rparr>\<rparr>"

text \<open>Dereferencing a pointer to memory that is not allocated does not return.\<close>

definition deref :: "nat \<Rightarrow> itable \<Rightarrow> Inode res" where
  "deref p st = (case inodes st p of None \<Rightarrow> Panic | Some ip \<Rightarrow> Ok ip)"

definition lock_inode :: "nat \<Rightarrow> nat \<Rightarrow> itable \<Rightarrow> itable res" where
  "lock_inode t p st =
     bnd (deref p st) (\<lambda>ip. bnd (inode_lock t ip) (\<lambda>ip. Ok (set_inode p ip st)))"

definition unlock_inode :: "nat \<Rightarrow> itable \<Rightarrow> itable res" where
  "unlock_inode p st =
     bnd (deref p st) (\<lambda>ip. bnd (inode_unlock ip) (\<lambda>(w, ip).
       Ok (set_inode p ip (st\<lparr>it_woken := it_woken st @ (case w of None \<Rightarrow> [] | Some u \<Rightarrow> [u])\<rparr>))))"

section \<open>References\<close>

definition cached_as :: "nat \<Rightarrow> itable \<Rightarrow> nat \<Rightarrow> bool" where
  "cached_as inode_no st p =
     (case inodes st p of None \<Rightarrow> False | Some ip \<Rightarrow> i_no ip = inode_no \<and> i_rc ip > 0)"

definition inode_get :: "nat \<Rightarrow> nat \<Rightarrow> itable \<Rightarrow> (nat \<times> itable) res" where
  "inode_get t inode_no st =
     bnd (assert (inode_no > 0)) (\<lambda>_.
     bnd (assert (inode_no < num_inodes (blocks_of st))) (\<lambda>_.
     case find (cached_as inode_no st) (ilist st) of
       Some p \<Rightarrow>
         bnd (deref p st) (\<lambda>ip.
         let st = set_inode p (ip\<lparr>i_rc := increment_rc (i_rc ip)\<rparr>) st in
         bnd (lock_inode t p st) (\<lambda>st.
         bnd (unlock_inode p st) (\<lambda>st. Ok (p, st))))
     | None \<Rightarrow>
         let p = fresh st;
             ip = init_inode (garbage st);
             st = st\<lparr>fresh := p + 1, ilist := p # ilist st\<rparr>;
             ip = ip\<lparr>i_no := inode_no, i_rc := increment_rc (i_rc ip)\<rparr>
         in bnd (lock_inode t p (set_inode p ip st)) (\<lambda>st.
            bnd (deref p st) (\<lambda>ip.
            bnd (inode_sync None ip False (blocks_of st)) (\<lambda>(_, ip, s).
            bnd (unlock_inode p (set_inode p ip (set_blocks s st))) (\<lambda>st. Ok (p, st)))))))"

definition inode_share :: "nat \<Rightarrow> itable \<Rightarrow> (nat \<times> itable) res" where
  "inode_share p st =
     bnd (deref p st) (\<lambda>ip. Ok (p, set_inode p (ip\<lparr>i_rc := increment_rc (i_rc ip)\<rparr>) st))"

definition inode_put :: "nat \<Rightarrow> OpContext option \<Rightarrow> nat \<Rightarrow> itable \<Rightarrow> (OpContext option \<times> itable) res" where
  "inode_put t ctx p st =
     bnd (deref p st) (\<lambda>ip.
     if i_rc ip = 1 \<and> i_num_links (i_entry ip) = 0 \<and> i_valid ip
     then
       bnd (lock_inode t p st) (\<lambda>st.
       let st = st\<lparr>ilist := remove1 p (ilist st)\<rparr> in
       bnd (deref p st) (\<lambda>ip.
       bnd (inode_clear ctx ip (blocks_of st)) (\<lambda>(ctx, ip, s).
       let ip = ip\<lparr>i_entry := (i_entry ip)\<lparr>i_type := INODE_INVALID\<rparr>\<rparr> in
       bnd (inode_sync ctx ip True s) (\<lambda>(ctx, ip, s).
       let ip = ip\<lparr>i_valid := False\<rparr> in
       bnd (unlock_inode p (set_inode p ip (set_blocks s st))) (\<lambda>st.
         Ok (ctx, st\<lparr>inodes := (inodes st)(p := None)\<rparr>))))))
     else Ok (ctx, set_inode p (ip\<lparr>i_rc := snd (decrement_rc (i_rc ip))\<rparr>) st))"

definition init_inodes :: "nat \<Rightarrow> itable \<Rightarrow> itable res" where
  "init_inodes t st =
     (let st = st\<lparr>ilist := []\<rparr> in
      if ROOT_INODE_NO < num_inodes (blocks_of st)
      then bnd (inode_get t ROOT_INODE_NO st) (\<lambda>(p, st). Ok (st\<lparr>root := p\<rparr>))
      else Ok st)"

section \<open>Path names\<close>

abbreviation slash :: u8 where "slash \<equiv> 47"

text \<open>
  A string is a list of bytes that contains its terminator; reading behind the list is \<open>Panic\<close>.
  The result \<open>None\<close> is the null pointer; otherwise the rest of the path and the buffer \<open>name\<close>.
\<close>

definition skip_slashes :: "u8 list \<Rightarrow> u8 list" where
  "skip_slashes path = dropWhile (\<lambda>c. c = slash) path"

definition skip_name :: "u8 list \<Rightarrow> u8 list" where
  "skip_name path = dropWhile (\<lambda>c. c \<noteq> slash \<and> c \<noteq> 0) path"

definition copy_name :: "nat \<Rightarrow> u8 list \<Rightarrow> u8 list \<Rightarrow> u8 list" where
  "copy_name len s name =
     (if len \<ge> FILE_NAME_MAX_LENGTH then range_put 0 (take FILE_NAME_MAX_LENGTH s) name
      else range_put 0 (take len s @ [0]) name)"

definition skipelem :: "u8 list \<Rightarrow> u8 list \<Rightarrow> (u8 list \<times> u8 list) option res" where
  "skipelem path name =
     (let s = skip_slashes path in
      bnd (assert (s \<noteq> [])) (\<lambda>_.
      if hd s = 0 then Ok None
      else
        let path = skip_name s in
        bnd (assert (path \<noteq> [])) (\<lambda>_.
        let name = copy_name (length s - length path) s name;
            path = skip_slashes path
        in bnd (assert (path \<noteq> [])) (\<lambda>_. Ok (Some (path, name))))))"

lemma length_dropWhile_less: "xs \<noteq> [] \<Longrightarrow> P (hd xs) \<Longrightarrow> length (dropWhile P xs) < length xs"
  by (cases xs) (simp_all add: le_imp_less_Suc length_dropWhile_le)

lemma skipelem_Some:
  assumes "skipelem path name = Ok (Some (path', name'))"
  shows "skip_slashes path \<noteq> []" "hd (skip_slashes path) \<noteq> 0" "path' = skip_slashes (skip_name (skip_slashes path))"
  using assms by (auto simp: skipelem_def Let_def bnd_assert_eq_Ok split: if_splits)

lemma skipelem_shorter:
  assumes "skipelem path name = Ok (Some (path', name'))" shows "length path' < length path"
proof -
  note p = skipelem_Some [OF assms]
  have "hd (skip_slashes path) \<noteq> slash" using p(1) hd_dropWhile [of "\<lambda>c. c = slash" path] by (simp add: skip_slashes_def)
  then have "length (skip_name (skip_slashes path)) < length (skip_slashes path)"
    using length_dropWhile_less [OF p(1)] p(2) by (simp add: skip_name_def)
  moreover have "length (skip_slashes q) \<le> length q" for q by (simp add: skip_slashes_def length_dropWhile_le)
  ultimately show ?thesis using p(3) by (metis le_less_trans less_le_trans)
qed

text \<open>
  The loop of \<open>namex\<close>. The result is the inode (\<open>None\<close> for \<open>NULL\<close>), the buffer, the context and the
  state. When \<open>skipelem\<close> has returned the null pointer and the loop goes on, its condition reads
  through that pointer.
\<close>

function namex_loop ::
  "nat \<Rightarrow> u8 list \<Rightarrow> bool \<Rightarrow> u8 list \<Rightarrow> OpContext option \<Rightarrow> nat \<Rightarrow> itable \<Rightarrow>
   (nat option \<times> u8 list \<times> OpContext option \<times> itable) res" where
  "namex_loop t path nameiparent name ctx p st =
     (if path = [] then Panic
      else if hd path = 0 then Ok (Some p, name, ctx, st)
      else
        bnd (skipelem path name) (\<lambda>r.
        let name = (case r of None \<Rightarrow> name | Some (_, name) \<Rightarrow> name) in
        if nameiparent \<and> r = None
        then bnd (inode_put t ctx p st) (\<lambda>(ctx, st). Ok (None, name, ctx, st))
        else if nameiparent \<and> hd (fst (the r)) = 0 then Ok (Some p, name, ctx, st)
        else
          bnd (lock_inode t p st) (\<lambda>st.
          bnd (deref p st) (\<lambda>ip.
          if i_type (i_entry ip) \<noteq> INODE_DIRECTORY
          then
            bnd (unlock_inode p st) (\<lambda>st.
            bnd (inode_put t ctx p st) (\<lambda>(ctx, st). Ok (None, name, ctx, st)))
          else
            bnd (inode_lookup t ip name (fs st)) (\<lambda>(ino, _, ip, f).
            bnd (unlock_inode p (set_inode p ip (st\<lparr>fs := f\<rparr>))) (\<lambda>st.
            bnd (inode_put t ctx p st) (\<lambda>(ctx, st).
            if ino = 0 then Ok (None, name, ctx, st)
            else
              bnd (inode_get t ino st) (\<lambda>(p, st).
              case r of
                None \<Rightarrow> Panic
              | Some (path, _) \<Rightarrow> namex_loop t path nameiparent name ctx p st))))))))"
  by pat_completeness auto
termination
  by (relation "measure (\<lambda>(t, path, _). length path)") (auto dest: skipelem_shorter)

declare namex_loop.simps [simp del]

definition namex ::
  "nat \<Rightarrow> nat \<Rightarrow> u8 list \<Rightarrow> bool \<Rightarrow> u8 list \<Rightarrow> OpContext option \<Rightarrow> itable \<Rightarrow>
   (nat option \<times> u8 list \<times> OpContext option \<times> itable) res" where
  "namex t cwd path nameiparent name ctx st =
     (if path = [] then Panic
      else bnd (inode_share (if hd path = slash then root st else cwd) st) (\<lambda>(p, st).
        namex_loop t path nameiparent name ctx p st))"

text \<open>\<open>name\<close> is an uninitialised array on the stack of \<open>namei\<close>.\<close>

definition namei ::
  "nat \<Rightarrow> nat \<Rightarrow> u8 list \<Rightarrow> u8 list \<Rightarrow> OpContext option \<Rightarrow> itable \<Rightarrow> (nat option \<times> OpContext option \<times> itable) res" where
  "namei t cwd stack path ctx st =
     bnd (namex t cwd path False stack ctx st) (\<lambda>(r, _, ctx, st). Ok (r, ctx, st))"

definition nameiparent ::
  "nat \<Rightarrow> nat \<Rightarrow> u8 list \<Rightarrow> u8 list \<Rightarrow> OpContext option \<Rightarrow> itable \<Rightarrow>
   (nat option \<times> u8 list \<times> OpContext option \<times> itable) res" where
  "nameiparent t cwd path name ctx st = namex t cwd path True name ctx st"

section \<open>Path elements\<close>

lemma skip_slashes_replicate:
  "r \<noteq> [] \<Longrightarrow> hd r \<noteq> slash \<Longrightarrow> skip_slashes (replicate n slash @ r) = r"
  by (induction n) (cases r; simp add: skip_slashes_def)+

lemma skip_name_append:
  "\<forall>c\<in>set elem. c \<noteq> slash \<and> c \<noteq> 0 \<Longrightarrow> r \<noteq> [] \<Longrightarrow> hd r = slash \<or> hd r = 0 \<Longrightarrow> skip_name (elem @ r) = r"
  by (cases r) (auto simp: skip_name_def dropWhile_append3)

lemma cstr_copy_name:
  assumes "\<forall>c\<in>set elem. c \<noteq> 0" "length name = 14"
  shows "dname (copy_name (length elem) (elem @ r) name) = take 14 elem" "length (copy_name (length elem) (elem @ r) name) = 14"
proof -
  have tw: "takeWhile (\<lambda>c. c \<noteq> 0) xs = xs" if "set xs \<subseteq> set elem" for xs using assms(1) that by (auto simp: takeWhile_eq_all_conv)
  show "dname (copy_name (length elem) (elem @ r) name) = take 14 elem"
  proof (cases "length elem \<ge> 14")
    case True
    then show ?thesis using assms(2) tw [of "take 14 elem"] set_take_subset [of 14 elem]
      by (simp add: copy_name_def range_put_def cstr_def)
  next
    case False
    then show ?thesis using assms
      by (simp add: copy_name_def range_put_def cstr_def takeWhile_append2 take_Cons' tw)
  qed
  show "length (copy_name (length elem) (elem @ r) name) = 14"
    using assms(2) by (auto simp: copy_name_def range_put_def)
qed

text \<open>
  C24: on a path \<open>/../elem/../rest\<close> \<open>skipelem\<close> returns \<open>rest\<close>, without leading slashes, and stores in
  \<open>name\<close> the first 14 characters of \<open>elem\<close>; on a path with no element left it returns the null
  pointer.
\<close>

theorem skipelem_correct:
  assumes "elem \<noteq> []" and "\<forall>c\<in>set elem. c \<noteq> slash \<and> c \<noteq> 0" and "rest \<noteq> []" and "hd rest \<noteq> slash"
    and "b = 0 \<Longrightarrow> hd rest = 0" and "length name = FILE_NAME_MAX_LENGTH"
  shows "(\<exists>name'. skipelem (replicate a slash @ elem @ replicate b slash @ rest) name = Ok (Some (rest, name')) \<and>
      length name' = FILE_NAME_MAX_LENGTH \<and> cstr FILE_NAME_MAX_LENGTH name' = take FILE_NAME_MAX_LENGTH elem) \<and>
    skipelem (replicate a slash @ 0 # rest) name = Ok None"
proof -
  let ?r = "replicate b slash @ rest"
  have e: "hd (elem @ ?r) \<noteq> slash" "hd (elem @ ?r) \<noteq> 0" using assms(1,2) by (cases elem; simp)+
  have r: "?r \<noteq> []" "hd ?r = slash \<or> hd ?r = 0" using assms(3,5) by (cases b; simp)+
  have 1: "skip_slashes (replicate a slash @ elem @ ?r) = elem @ ?r"
    using skip_slashes_replicate [of "elem @ ?r" a] e(1) assms(1) by simp
  have 2: "skip_name (elem @ ?r) = ?r" by (rule skip_name_append [OF assms(2) r])
  have 3: "skip_slashes ?r = rest" by (rule skip_slashes_replicate [OF assms(3,4)])
  have "skipelem (replicate a slash @ elem @ ?r) name = Ok (Some (rest, copy_name (length elem) (elem @ ?r) name))"
    using 1 2 3 e(2) r(1) assms(1,3) by (simp add: skipelem_def Let_def)
  then have "\<exists>name'. skipelem (replicate a slash @ elem @ ?r) name = Ok (Some (rest, name')) \<and>
      length name' = FILE_NAME_MAX_LENGTH \<and> cstr FILE_NAME_MAX_LENGTH name' = take FILE_NAME_MAX_LENGTH elem"
    using cstr_copy_name [of elem name ?r] assms(2,6) by auto
  moreover have "skip_slashes (replicate a slash @ 0 # rest) = 0 # rest" by (rule skip_slashes_replicate) simp_all
  then have "skipelem (replicate a slash @ 0 # rest) name = Ok None" by (simp add: skipelem_def Let_def)
  ultimately show ?thesis by blast
qed

theorem skipelem_correct_witness:
  "\<exists>name'. skipelem [47, 47, 97, 47, 98, 98, 0] (replicate 14 0) = Ok (Some ([98, 98, 0], name')) \<and>
     cstr 14 name' = [97]"
  using skipelem_correct [of "[97]" "[98, 98, 0]" 1 "replicate 14 0" "Suc (Suc 0)"] by auto

end
