(* ===== verification/Pipe.thy ===== *)
theory Pipe
  imports Sync Kernel_Prelude
begin

text \<open>
  Pipes (\<open>fs/pipe.h\<close>, \<open>fs/pipe.c\<close>): a ring buffer of 512 bytes whose two counters are 32-bit words
  that are never reset, so that they wrap. A reader or writer that has to wait is described by the
  point at which it sleeps; the thread continues in \<open>pipe_write_resume\<close> or \<open>pipe_read_resume\<close> with
  the result of \<open>_wait_sem\<close>. Threads handed to \<open>activate_proc\<close> are appended to \<^term>\<open>pi_woken\<close>.
\<close>

section \<open>State\<close>

abbreviation PIPESIZE :: nat where "PIPESIZE \<equiv> 512"

record Pipe =
  wlock :: Semaphore
  rlock :: Semaphore
  pdata :: "u8 list"
  nread :: u32
  nwrite :: u32
  readopen :: bool
  writeopen :: bool
  pi_woken :: "nat list"

text \<open>The pipe as \<open>pipeAlloc\<close> initialises it.\<close>

definition init_pipe :: Pipe where
  "init_pipe = \<lparr>wlock = init_sem 0, rlock = init_sem 0, pdata = replicate PIPESIZE 0, nread = 0, nwrite = 0,
     readopen = True, writeopen = True, pi_woken = []\<rparr>"

definition wake_readers :: "Pipe \<Rightarrow> Pipe res" where
  "wake_readers pi = bnd (post_all_sem (rlock pi)) (\<lambda>(_, woken, sem).
     Ok (pi\<lparr>rlock := sem, pi_woken := pi_woken pi @ woken\<rparr>))"

definition wake_writers :: "Pipe \<Rightarrow> Pipe res" where
  "wake_writers pi = bnd (post_all_sem (wlock pi)) (\<lambda>(_, woken, sem).
     Ok (pi\<lparr>wlock := sem, pi_woken := pi_woken pi @ woken\<rparr>))"

section \<open>Writing\<close>

text \<open>
  \<open>PDone r pi\<close>: the routine returned \<open>r\<close>; \<open>PAsleep xs r pi\<close>: the thread sleeps, having transferred
  \<open>r\<close> bytes, and \<open>xs\<close> is what the loop will look at next when it wakes up.
\<close>

datatype ('x, 'r) pipe_result = PDone 'r Pipe | PAsleep 'x 'r Pipe

definition put_byte :: "u8 \<Rightarrow> Pipe \<Rightarrow> Pipe" where
  "put_byte ch pi = pi\<lparr>pdata := (pdata pi)[unat (nwrite pi) mod PIPESIZE := ch], nwrite := nwrite pi + 1\<rparr>"

fun pipe_write_loop :: "nat \<Rightarrow> u8 list \<Rightarrow> nat \<Rightarrow> Pipe \<Rightarrow> (u8 list, nat) pipe_result res" where
  "pipe_write_loop t [] n pi = bnd (wake_readers pi) (\<lambda>pi. Ok (PDone n pi))"
| "pipe_write_loop t (ch # src) n pi =
     (if 512 - (nwrite pi - nread pi) > 0
      then pipe_write_loop t src (n + 1) (put_byte ch pi)
      else if readopen pi
      then
        bnd (wake_readers pi) (\<lambda>pi.
        let (passed, sem) = wait_sem t (wlock pi);
            pi = pi\<lparr>wlock := sem\<rparr>
        in if passed then pipe_write_loop t src n pi else Ok (PAsleep src n pi))
      else bnd (wake_readers pi) (\<lambda>pi. Ok (PDone n pi)))"

definition pipeWrite :: "nat \<Rightarrow> u8 list \<Rightarrow> Pipe \<Rightarrow> (u8 list, nat) pipe_result res" where
  "pipeWrite t src pi = pipe_write_loop t src 0 pi"

definition pipe_write_resume :: "nat \<Rightarrow> bool \<Rightarrow> u8 list \<Rightarrow> nat \<Rightarrow> Pipe \<Rightarrow> (u8 list, nat) pipe_result res" where
  "pipe_write_resume t passed src n pi =
     (if passed then pipe_write_loop t src n pi else bnd (wake_readers pi) (\<lambda>pi. Ok (PDone n pi)))"

section \<open>Reading\<close>

text \<open>
  The destination is the list of the bytes stored so far: \<open>None\<close> at an index that the loop has
  passed without storing a byte there.
\<close>

definition front_byte :: "Pipe \<Rightarrow> u8" where
  "front_byte pi = pdata pi ! (unat (nread pi) mod PIPESIZE)"

fun pipe_read_loop ::
  "nat \<Rightarrow> nat \<Rightarrow> u8 option list \<Rightarrow> Pipe \<Rightarrow> (nat, u8 option list) pipe_result res" where
  "pipe_read_loop t 0 dst pi = bnd (wake_writers pi) (\<lambda>pi. Ok (PDone dst pi))"
| "pipe_read_loop t (Suc n) dst pi =
     (if nwrite pi - nread pi > 0
      then pipe_read_loop t n (dst @ [Some (front_byte pi)]) (pi\<lparr>nread := nread pi + 1\<rparr>)
      else if writeopen pi
      then
        bnd (wake_writers pi) (\<lambda>pi.
        let (passed, sem) = wait_sem t (rlock pi);
            pi = pi\<lparr>rlock := sem\<rparr>
        in if passed then pipe_read_loop t n (dst @ [None]) pi else Ok (PAsleep n (dst @ [None]) pi))
      else bnd (wake_writers pi) (\<lambda>pi. Ok (PDone dst pi)))"

text \<open>The value returned is the number of bytes stored.\<close>

definition pipeRead :: "nat \<Rightarrow> nat \<Rightarrow> Pipe \<Rightarrow> (nat, u8 option list) pipe_result res" where
  "pipeRead t n pi = pipe_read_loop t n [] pi"

definition pipe_read_resume ::
  "nat \<Rightarrow> bool \<Rightarrow> nat \<Rightarrow> u8 option list \<Rightarrow> Pipe \<Rightarrow> (nat, u8 option list) pipe_result res" where
  "pipe_read_resume t passed n dst pi =
     (if passed then pipe_read_loop t n dst pi else bnd (wake_writers pi) (\<lambda>pi. Ok (PDone dst pi)))"

text \<open>Closing one end; \<open>None\<close> when the pipe has been freed.\<close>

definition pipeClose :: "Pipe \<Rightarrow> bool \<Rightarrow> Pipe option" where
  "pipeClose pi writable =
     (let pi = (if writable then pi\<lparr>writeopen := False\<rparr> else pi\<lparr>readopen := False\<rparr>)
      in if \<not> writeopen pi \<and> \<not> readopen pi then None else Some pi)"

section \<open>The ring buffer as a list\<close>

definition pipe_len :: "Pipe \<Rightarrow> nat" where
  "pipe_len pi = unat (nwrite pi - nread pi)"

definition pipe_content :: "Pipe \<Rightarrow> u8 list" where
  "pipe_content pi = map (\<lambda>k. pdata pi ! ((unat (nread pi) + k) mod PIPESIZE)) [0..<pipe_len pi]"

definition pipe_ok :: "Pipe \<Rightarrow> bool" where
  "pipe_ok pi \<longleftrightarrow> length (pdata pi) = PIPESIZE \<and> pipe_len pi \<le> PIPESIZE \<and> sem_inv (wlock pi) \<and> sem_inv (rlock pi)"

text \<open>The counters wrap at a multiple of the buffer size.\<close>

lemma unat_add_mod: "unat (a + b :: u32) mod PIPESIZE = (unat a + unat b) mod PIPESIZE"
proof -
  have "(unat a + unat b) mod 2 ^ LENGTH(32) mod PIPESIZE = (unat a + unat b) mod PIPESIZE"
    by (rule mod_mod_cancel) (simp add: dvd_def)
  then show ?thesis by (simp only: unat_word_ariths(1))
qed

lemma nwrite_mod: "unat (nwrite pi) mod PIPESIZE = (unat (nread pi) + pipe_len pi) mod PIPESIZE"
  using unat_add_mod [of "nread pi" "nwrite pi - nread pi"] by (simp add: pipe_len_def)

lemma pipe_has_room: "512 - (nwrite pi - nread pi) > 0 \<longleftrightarrow> pipe_len pi \<noteq> PIPESIZE"
proof -
  have "w = 512 \<longleftrightarrow> unat w = 512" for w :: u32 by (simp add: word_unat_eq_iff)
  then show ?thesis by (simp add: word_gt_0 pipe_len_def)
qed

lemma pipe_has_data: "nwrite pi - nread pi > 0 \<longleftrightarrow> pipe_len pi \<noteq> 0"
  by (auto simp: word_gt_0 pipe_len_def unat_eq_zero)

lemma pipe_okD:
  assumes "pipe_ok pi"
  shows "length (pdata pi) = PIPESIZE" "pipe_len pi \<le> PIPESIZE" "sem_inv (wlock pi)" "sem_inv (rlock pi)"
  using assms by (simp_all add: pipe_ok_def)

lemma length_pipe_content [simp]: "length (pipe_content pi) = pipe_len pi"
  by (simp add: pipe_content_def)

lemma put_byte_ok:
  assumes "pipe_ok pi" "pipe_len pi < PIPESIZE"
  shows "pipe_ok (put_byte ch pi)" "pipe_content (put_byte ch pi) = pipe_content pi @ [ch]"
    "pipe_len (put_byte ch pi) = pipe_len pi + 1"
proof -
  have len: "nwrite (put_byte ch pi) - nread (put_byte ch pi) = (nwrite pi - nread pi) + 1"
    by (simp add: put_byte_def)
  show l: "pipe_len (put_byte ch pi) = pipe_len pi + 1"
    using assms(2) unfolding pipe_len_def len by (simp add: unat_word_ariths)
  show "pipe_ok (put_byte ch pi)" using assms l by (simp add: pipe_ok_def) (simp add: put_byte_def)
  have ne: "(unat (nread pi) + pipe_len pi) mod PIPESIZE \<noteq> (unat (nread pi) + k) mod PIPESIZE" if "k < pipe_len pi" for k
  proof
    assume "(unat (nread pi) + pipe_len pi) mod PIPESIZE = (unat (nread pi) + k) mod PIPESIZE"
    then have "PIPESIZE dvd (unat (nread pi) + pipe_len pi) - (unat (nread pi) + k)"
      using that mod_eq_dvd_iff_nat [of "unat (nread pi) + k" "unat (nread pi) + pipe_len pi" PIPESIZE] by simp
    then show False using that assms(2) by (auto dest: dvd_imp_le)
  qed
  show "pipe_content (put_byte ch pi) = pipe_content pi @ [ch]"
    using pipe_okD(1) [OF assms(1)] ne
    by (simp add: pipe_content_def l) (simp add: put_byte_def nwrite_mod)
qed

lemma take_byte_ok:
  assumes "pipe_ok pi" "pipe_len pi \<noteq> 0"
  shows "pipe_ok (pi\<lparr>nread := nread pi + 1\<rparr>)"
    "pipe_content pi = front_byte pi # pipe_content (pi\<lparr>nread := nread pi + 1\<rparr>)"
    "pipe_len pi = pipe_len (pi\<lparr>nread := nread pi + 1\<rparr>) + 1"
proof -
  let ?pi = "pi\<lparr>nread := nread pi + 1\<rparr>"
  have "unat (nwrite pi - nread pi - 1) = unat (nwrite pi - nread pi) - 1"
    using assms(2) by (simp add: pipe_len_def unat_minus_one unat_eq_zero)
  then show l: "pipe_len pi = pipe_len ?pi + 1" using assms(2) by (simp add: pipe_len_def diff_diff_eq)
  show "pipe_ok ?pi" using assms l by (simp add: pipe_ok_def)
  have "[0..<pipe_len pi] = 0 # map Suc [0..<pipe_len ?pi]" by (simp add: l map_Suc_upt upt_conv_Cons del: upt_Suc)
  moreover have "(unat (nread pi) + Suc k) mod PIPESIZE = (unat (nread pi + 1) + k) mod PIPESIZE" for k
    using unat_add_mod [of "nread pi" 1] mod_add_left_eq [of "unat (nread pi + 1)" PIPESIZE k]
      mod_add_left_eq [of "unat (nread pi) + 1" PIPESIZE k] by simp
  ultimately show "pipe_content pi = front_byte pi # pipe_content ?pi"
    by (simp add: pipe_content_def front_byte_def)
qed

lemma wake_ok:
  assumes "pipe_ok pi"
  shows "\<exists>pi'. wake_readers pi = Ok pi' \<and> pipe_ok pi' \<and> pipe_content pi' = pipe_content pi \<and> pipe_len pi' = pipe_len pi \<and>
      wlock pi' = wlock pi \<and> readopen pi' = readopen pi"
    "\<exists>pi'. wake_writers pi = Ok pi' \<and> pipe_ok pi' \<and> pipe_content pi' = pipe_content pi \<and> pipe_len pi' = pipe_len pi \<and>
      rlock pi' = rlock pi \<and> writeopen pi' = writeopen pi"
  using assms pipe_okD [OF assms]
  by (auto simp: wake_readers_def wake_writers_def post_all_sem_ok pipe_ok_def pipe_content_def pipe_len_def sem_inv_def)

lemma pipe_write_loop_ok:
  "pipe_ok pi \<Longrightarrow> pipe_len pi + length src \<le> PIPESIZE \<Longrightarrow>
   \<exists>pi'. pipe_write_loop t src n pi = Ok (PDone (n + length src) pi') \<and> pipe_ok pi' \<and>
     pipe_content pi' = pipe_content pi @ src"
proof (induction src arbitrary: n pi)
  case Nil
  then show ?case using wake_ok(1) [of pi] by auto
next
  case (Cons ch src)
  then have room: "pipe_len pi < PIPESIZE" by simp
  note b = put_byte_ok [OF Cons.prems(1) room, of ch]
  show ?case
    using Cons.IH [OF b(1), of "n + 1"] Cons.prems(2) room b by (auto simp: pipe_has_room)
qed

lemma pipe_read_loop_ok:
  "pipe_ok pi \<Longrightarrow> n \<le> pipe_len pi \<Longrightarrow>
   \<exists>pi'. pipe_read_loop t n dst pi = Ok (PDone (dst @ map Some (take n (pipe_content pi))) pi') \<and> pipe_ok pi' \<and>
     pipe_content pi' = drop n (pipe_content pi)"
proof (induction n arbitrary: dst pi)
  case 0
  then show ?case using wake_ok(2) [of pi] by auto
next
  case (Suc n)
  then have ne: "pipe_len pi \<noteq> 0" by simp
  note b = take_byte_ok [OF Suc.prems(1) ne]
  show ?case
    using Suc.IH [OF b(1), of "dst @ [Some (front_byte pi)]"] Suc.prems(2) ne b(2,3) by (auto simp: pipe_has_data)
qed

section \<open>Waiting\<close>

lemma pipe_content_locks [simp]:
  "pipe_len (pi\<lparr>wlock := a\<rparr>) = pipe_len pi" "pipe_content (pi\<lparr>wlock := a\<rparr>) = pipe_content pi"
  "pipe_len (pi\<lparr>rlock := a\<rparr>) = pipe_len pi" "pipe_content (pi\<lparr>rlock := a\<rparr>) = pipe_content pi"
  by (simp_all add: pipe_len_def pipe_content_def)

lemma put_byte_keeps [simp]:
  "wlock (put_byte ch pi) = wlock pi" "readopen (put_byte ch pi) = readopen pi"
  by (simp_all add: put_byte_def)

lemma wait_sem_sleeps:
  assumes "sem_inv sem" "val sem \<le> 0" "t \<notin> set (sleeplist sem)"
  obtains sem' where "wait_sem t sem = (False, sem')" "sem_inv sem'" "t \<in> set (sleeplist sem')"
  using assms sem_inv_wait [OF assms(1,3)] by (simp add: wait_sem_def Let_def)

text \<open>A writer fills the pipe and goes to sleep; a reader empties it and goes to sleep.\<close>

lemma pipe_write_sleeps:
  assumes "pipe_ok pi" "readopen pi" "val (wlock pi) \<le> 0" "t \<notin> set (sleeplist (wlock pi))" "pipe_len pi + length xs = PIPESIZE"
  shows "\<exists>pi'. pipe_write_loop t (xs @ ch # ys) n pi = Ok (PAsleep ys (n + length xs) pi') \<and> pipe_ok pi' \<and>
    pipe_content pi' = pipe_content pi @ xs \<and> t \<in> set (sleeplist (wlock pi'))"
  using assms
proof (induction xs arbitrary: n pi)
  case Nil
  obtain p where p: "wake_readers pi = Ok p" "pipe_ok p" "pipe_content p = pipe_content pi" "wlock p = wlock pi"
    using wake_ok(1) [OF Nil.prems(1)] by blast
  obtain sem where s: "wait_sem t (wlock p) = (False, sem)" "sem_inv sem" "t \<in> set (sleeplist sem)"
    using wait_sem_sleeps [of "wlock p" t] pipe_okD(3) [OF p(2)] Nil.prems(3,4) p(4) by metis
  have "pipe_ok (p\<lparr>wlock := sem\<rparr>)" using p(2) s(2) by (simp add: pipe_ok_def)
  then show ?case using Nil.prems(2,5) p s by (simp add: pipe_has_room)
next
  case (Cons x xs)
  then have room: "pipe_len pi < PIPESIZE" by simp
  note b = put_byte_ok [OF Cons.prems(1) room, of x]
  have "\<exists>pi'. pipe_write_loop t (xs @ ch # ys) (n + 1) (put_byte x pi) = Ok (PAsleep ys (n + 1 + length xs) pi') \<and> pipe_ok pi' \<and>
    pipe_content pi' = pipe_content (put_byte x pi) @ xs \<and> t \<in> set (sleeplist (wlock pi'))"
    by (rule Cons.IH [OF b(1)]) (use Cons.prems b(3) in simp_all)
  then show ?case using room b(2) by (auto simp: pipe_has_room)
qed

lemma pipe_read_sleeps:
  assumes "pipe_ok pi" "writeopen pi" "val (rlock pi) \<le> 0" "t \<notin> set (sleeplist (rlock pi))"
  shows "\<exists>pi'. pipe_read_loop t (pipe_len pi + Suc m) dst pi = Ok (PAsleep m (dst @ map Some (pipe_content pi) @ [None]) pi') \<and>
    pipe_ok pi' \<and> pipe_content pi' = [] \<and> t \<in> set (sleeplist (rlock pi'))"
  using assms
proof (induction "pipe_len pi" arbitrary: dst pi)
  case 0
  obtain p where p: "wake_writers pi = Ok p" "pipe_ok p" "pipe_content p = pipe_content pi" "rlock p = rlock pi"
    using wake_ok(2) [OF 0(2)] by blast
  obtain sem where s: "wait_sem t (rlock p) = (False, sem)" "sem_inv sem" "t \<in> set (sleeplist sem)"
    using wait_sem_sleeps [of "rlock p" t] pipe_okD(4) [OF p(2)] 0(4,5) p(4) by metis
  have "pipe_ok (p\<lparr>rlock := sem\<rparr>)" using p(2) s(2) by (simp add: pipe_ok_def)
  moreover have "pipe_content pi = []" using 0(1) length_pipe_content [of pi] by (metis length_0_conv)
  ultimately show ?case using 0(1,3) p s by (simp add: pipe_has_data flip: 0(1))
next
  case (Suc k)
  let ?p = "pi\<lparr>nread := nread pi + 1\<rparr>"
  have ne: "pipe_len pi \<noteq> 0" using Suc(2) by simp
  note b = take_byte_ok [OF Suc.prems(1) ne]
  have "\<exists>pi'. pipe_read_loop t (pipe_len ?p + Suc m) (dst @ [Some (front_byte pi)]) ?p =
      Ok (PAsleep m ((dst @ [Some (front_byte pi)]) @ map Some (pipe_content ?p) @ [None]) pi') \<and>
    pipe_ok pi' \<and> pipe_content pi' = [] \<and> t \<in> set (sleeplist (rlock pi'))"
    by (rule Suc.hyps(1) [OF _ b(1)]) (use Suc.hyps(2) Suc.prems b(3) in simp_all)
  then show ?case using ne b(2,3) by (simp add: pipe_has_data)
qed

text \<open>A read or write that does not wait wakes the sleepers at the other end.\<close>

lemma wake_wakes:
  assumes "pipe_ok pi"
  shows "\<exists>pi'. wake_readers pi = Ok pi' \<and> pi_woken pi' = pi_woken pi @ rev (sleeplist (rlock pi))"
    "\<exists>pi'. wake_writers pi = Ok pi' \<and> pi_woken pi' = pi_woken pi @ rev (sleeplist (wlock pi))"
  using pipe_okD [OF assms] by (simp_all add: wake_readers_def wake_writers_def post_all_sem_ok)

lemma pipe_write_wakes:
  "pipe_ok pi \<Longrightarrow> pipe_len pi + length src \<le> PIPESIZE \<Longrightarrow> pipe_write_loop t src n pi = Ok (PDone r pi') \<Longrightarrow>
   pi_woken pi' = pi_woken pi @ rev (sleeplist (rlock pi))"
proof (induction src arbitrary: n pi)
  case Nil
  then show ?case using wake_wakes(1) [of pi] by auto
next
  case (Cons ch src)
  then have room: "pipe_len pi < PIPESIZE" by simp
  note b = put_byte_ok [OF Cons.prems(1) room, of ch]
  have "pi_woken pi' = pi_woken (put_byte ch pi) @ rev (sleeplist (rlock (put_byte ch pi)))"
    by (rule Cons.IH [OF b(1)]) (use Cons.prems(2,3) room b in \<open>simp_all add: pipe_has_room\<close>)
  then show ?case by (simp add: put_byte_def)
qed

lemma pipe_read_wakes:
  "pipe_ok pi \<Longrightarrow> n \<le> pipe_len pi \<Longrightarrow> pipe_read_loop t n dst pi = Ok (PDone r pi') \<Longrightarrow>
   pi_woken pi' = pi_woken pi @ rev (sleeplist (wlock pi))"
proof (induction n arbitrary: dst pi)
  case 0
  then show ?case using wake_wakes(2) [of pi] by auto
next
  case (Suc n)
  then have ne: "pipe_len pi \<noteq> 0" by simp
  note b = take_byte_ok [OF Suc.prems(1) ne]
  have "pi_woken pi' = pi_woken (pi\<lparr>nread := nread pi + 1\<rparr>) @ rev (sleeplist (wlock (pi\<lparr>nread := nread pi + 1\<rparr>)))"
    by (rule Suc.IH [OF b(1)]) (use Suc.prems(2,3) ne b in \<open>simp_all add: pipe_has_data\<close>)
  then show ?case by simp
qed

section \<open>Properties\<close>

text \<open>
  C25: a pipe is a FIFO of 512 bytes, also when its 32-bit counters wrap: bytes for which there is
  room are appended and counted, and reading as many bytes as there are returns them in order and
  removes them.
\<close>

theorem pipe_is_fifo:
  assumes "pipe_ok pi"
  shows "(length (pipe_content pi) + length src \<le> PIPESIZE \<longrightarrow>
      (\<exists>pi'. pipeWrite t src pi = Ok (PDone (length src) pi') \<and> pipe_ok pi' \<and> pipe_content pi' = pipe_content pi @ src)) \<and>
    (n \<le> length (pipe_content pi) \<longrightarrow>
      (\<exists>pi'. pipeRead t n pi = Ok (PDone (map Some (take n (pipe_content pi))) pi') \<and> pipe_ok pi' \<and>
        pipe_content pi' = drop n (pipe_content pi)))"
  using pipe_write_loop_ok [OF assms, of src t 0] pipe_read_loop_ok [OF assms, of n t "[]"]
  by (auto simp: pipeWrite_def pipeRead_def)

lemma wrapped_pipe_ok:
  "pipe_ok (init_pipe\<lparr>nread := -1, nwrite := 1\<rparr>)" "pipe_content (init_pipe\<lparr>nread := -1, nwrite := 1\<rparr>) = [0, 0]"
  by (simp_all add: pipe_ok_def init_pipe_def sem_inv_init pipe_len_def pipe_content_def upt_rec)

theorem pipe_is_fifo_witness:
  "\<exists>pi'. pipeWrite 3 [7, 8, 9] (init_pipe\<lparr>nread := -1, nwrite := 1\<rparr>) = Ok (PDone 3 pi') \<and>
     pipe_content pi' = [0, 0, 7, 8, 9]"
  using pipe_is_fifo [OF wrapped_pipe_ok(1), of "[7, 8, 9]" 3 0] wrapped_pipe_ok(2)
  by (auto simp: length_pipe_content [symmetric] simp del: length_pipe_content)

text \<open>
  C26: a transfer that has to wait loses a byte. A writer that fills the pipe goes to sleep with the byte it could not store already
  counted as looked at; when a reader has taken \<open>k\<close> bytes, which wakes it, it goes on behind that byte. What ends up in the
  pipe is the source without the byte \<open>ch\<close>, and the caller is told that all the other bytes were written. Likewise a
  reader that empties the pipe and waits for a writer leaves one position of its buffer unwritten: the bytes that come later
  are stored behind it.
\<close>

theorem pipe_wait_skips_byte:
  assumes "pipe_ok pi" and "val (wlock pi) \<le> 0" and "val (rlock pi) \<le> 0"
    and "t \<notin> set (sleeplist (wlock pi))" and "t \<notin> set (sleeplist (rlock pi))"
  shows "(readopen pi \<and> length (pipe_content pi) + length xs = PIPESIZE \<and> length ys \<le> k \<and> k \<le> PIPESIZE \<longrightarrow>
      (\<exists>pi1 pi2 pi3. pipeWrite t (xs @ ch # ys) pi = Ok (PAsleep ys (length xs) pi1) \<and> pipe_content pi1 = pipe_content pi @ xs \<and>
        pipeRead u k pi1 = Ok (PDone (map Some (take k (pipe_content pi @ xs))) pi2) \<and> t \<in> set (pi_woken pi2) \<and>
        pipe_write_resume t True ys (length xs) pi2 = Ok (PDone (length xs + length ys) pi3) \<and> pipe_ok pi3 \<and>
        pipe_content pi3 = drop k (pipe_content pi @ xs) @ ys)) \<and>
    (writeopen pi \<and> m \<le> length zs \<and> length zs \<le> PIPESIZE \<longrightarrow>
      (\<exists>pi1 pi2 pi3. pipeRead t (length (pipe_content pi) + Suc m) pi = Ok (PAsleep m (map Some (pipe_content pi) @ [None]) pi1) \<and>
        pipe_content pi1 = [] \<and> pipeWrite u zs pi1 = Ok (PDone (length zs) pi2) \<and> t \<in> set (pi_woken pi2) \<and>
        pipe_read_resume t True m (map Some (pipe_content pi) @ [None]) pi2 =
          Ok (PDone (map Some (pipe_content pi) @ None # map Some (take m zs)) pi3) \<and> pipe_ok pi3 \<and>
        pipe_content pi3 = drop m zs))"
proof (intro conjI impI; elim conjE)
  assume a: "readopen pi" "length (pipe_content pi) + length xs = PIPESIZE" "length ys \<le> k" "k \<le> PIPESIZE"
  obtain pi1 where 1: "pipeWrite t (xs @ ch # ys) pi = Ok (PAsleep ys (length xs) pi1)" "pipe_ok pi1"
    "pipe_content pi1 = pipe_content pi @ xs" "t \<in> set (sleeplist (wlock pi1))"
    using pipe_write_sleeps [OF assms(1) a(1) assms(2,4), of xs ch ys 0] a(2) by (auto simp: pipeWrite_def)
  have l1: "pipe_len pi1 = PIPESIZE" using 1(3) a(2) length_pipe_content [of pi1] by simp
  obtain pi2 where 2: "pipeRead u k pi1 = Ok (PDone (map Some (take k (pipe_content pi @ xs))) pi2)" "pipe_ok pi2"
    "pipe_content pi2 = drop k (pipe_content pi @ xs)"
    using pipe_read_loop_ok [OF 1(2), of k u "[]"] a(4) l1 1(3) by (auto simp: pipeRead_def)
  have w: "t \<in> set (pi_woken pi2)" using pipe_read_wakes [OF 1(2) _ 2(1) [unfolded pipeRead_def]] a(4) l1 1(4) by simp
  have "pipe_len pi2 = PIPESIZE - k" using 2(3) a(2) length_pipe_content [of pi2] by simp
  then have "pipe_len pi2 + length ys \<le> PIPESIZE" using a(3,4) by linarith
  then obtain pi3 where 3: "pipe_write_resume t True ys (length xs) pi2 = Ok (PDone (length xs + length ys) pi3)" "pipe_ok pi3"
    "pipe_content pi3 = drop k (pipe_content pi @ xs) @ ys"
    using pipe_write_loop_ok [OF 2(2), of ys t "length xs"] 2(3) by (auto simp: pipe_write_resume_def)
  show "\<exists>pi1 pi2 pi3. pipeWrite t (xs @ ch # ys) pi = Ok (PAsleep ys (length xs) pi1) \<and> pipe_content pi1 = pipe_content pi @ xs \<and>
        pipeRead u k pi1 = Ok (PDone (map Some (take k (pipe_content pi @ xs))) pi2) \<and> t \<in> set (pi_woken pi2) \<and>
        pipe_write_resume t True ys (length xs) pi2 = Ok (PDone (length xs + length ys) pi3) \<and> pipe_ok pi3 \<and>
        pipe_content pi3 = drop k (pipe_content pi @ xs) @ ys"
    using 1(1,3) 2(1) w 3 by blast
next
  assume a: "writeopen pi" "m \<le> length zs" "length zs \<le> PIPESIZE"
  let ?d = "map Some (pipe_content pi) @ [None]"
  obtain pi1 where 1: "pipeRead t (length (pipe_content pi) + Suc m) pi = Ok (PAsleep m ?d pi1)" "pipe_ok pi1"
    "pipe_content pi1 = []" "t \<in> set (sleeplist (rlock pi1))"
    using pipe_read_sleeps [OF assms(1) a(1) assms(3,5), of m "[]"] by (auto simp: pipeRead_def)
  have l1: "pipe_len pi1 = 0" using 1(3) length_pipe_content [of pi1] by simp
  obtain pi2 where 2: "pipeWrite u zs pi1 = Ok (PDone (length zs) pi2)" "pipe_ok pi2" "pipe_content pi2 = zs"
    using pipe_write_loop_ok [OF 1(2), of zs u 0] a(3) l1 1(3) by (auto simp: pipeWrite_def)
  have w: "t \<in> set (pi_woken pi2)" using pipe_write_wakes [OF 1(2) _ 2(1) [unfolded pipeWrite_def]] a(3) l1 1(4) by simp
  have "pipe_len pi2 = length zs" using 2(3) length_pipe_content [of pi2] by simp
  then obtain pi3 where 3: "pipe_read_resume t True m ?d pi2 = Ok (PDone (?d @ map Some (take m zs)) pi3)" "pipe_ok pi3"
    "pipe_content pi3 = drop m zs"
    using pipe_read_loop_ok [OF 2(2), of m t ?d] a(2) 2(3) by (auto simp: pipe_read_resume_def)
  show "\<exists>pi1 pi2 pi3. pipeRead t (length (pipe_content pi) + Suc m) pi = Ok (PAsleep m ?d pi1) \<and>
        pipe_content pi1 = [] \<and> pipeWrite u zs pi1 = Ok (PDone (length zs) pi2) \<and> t \<in> set (pi_woken pi2) \<and>
        pipe_read_resume t True m ?d pi2 = Ok (PDone (map Some (pipe_content pi) @ None # map Some (take m zs)) pi3) \<and> pipe_ok pi3 \<and>
        pipe_content pi3 = drop m zs"
    using 1(1,3) 2(1) w 3 by (intro exI [of _ pi1] exI [of _ pi2] exI [of _ pi3]) simp
qed

text \<open>Three bytes written to a pipe that holds 511: the second one is lost.\<close>

theorem pipe_wait_skips_byte_witness:
  "\<exists>pi1 pi2 pi3. pipeWrite 3 [5, 6, 7] (init_pipe\<lparr>nwrite := 511\<rparr>) = Ok (PAsleep [7] 1 pi1) \<and>
     pipeRead 4 511 pi1 = Ok (PDone (map Some (replicate 511 0)) pi2) \<and> 3 \<in> set (pi_woken pi2) \<and>
     pipe_write_resume 3 True [7] 1 pi2 = Ok (PDone 2 pi3) \<and> pipe_content pi3 = [5, 7]"
proof -
  let ?pi = "init_pipe\<lparr>nwrite := 511\<rparr>"
  have ok: "pipe_ok ?pi" "pipe_len ?pi = 511" "readopen ?pi"
    by (simp_all add: pipe_ok_def init_pipe_def sem_inv_init pipe_len_def)
  have c: "pipe_content ?pi = replicate 511 0"
    by (rule nth_equalityI) (simp_all add: ok(2) pipe_content_def, simp add: init_pipe_def)
  have s: "val (wlock ?pi) \<le> 0" "val (rlock ?pi) \<le> 0" "3 \<notin> set (sleeplist (wlock ?pi))" "3 \<notin> set (sleeplist (rlock ?pi))"
    by (simp_all add: init_pipe_def init_sem_def)
  show ?thesis
    using pipe_wait_skips_byte [OF ok(1) s, of "[5]" "[7]" 511 6 4 0 "[]"] ok(2,3) unfolding c by (force simp: numeral_2_eq_2)
qed

end
