(* ===== verification/File_Table.thy ===== *)
theory File_Table
  imports Inode_Table Pipe
begin

text \<open>
  Open files (\<open>fs/file.h\<close>, \<open>fs/file.c\<close>) and the parts of \<open>fs/pipe.c\<close> that allocate and free pipes.
  A \<open>File *\<close> is an index into the system-wide table; a \<open>Pipe *\<close> is a number, \<^term>\<open>next_pipe\<close> being
  the next one \<open>kalloc\<close> returns. Every routine that may sleep on the log or in a pipe is \<open>Blocked\<close>
  there.
\<close>

section \<open>State\<close>

abbreviation NFILE :: nat where "NFILE \<equiv> 1024"
abbreviation NOFILE :: nat where "NOFILE \<equiv> 128"
abbreviation MAX_OP_WRITE_N :: nat where
  "MAX_OP_WRITE_N \<equiv> (OP_MAX_NUM_BLOCKS - 1 - 1 - 2) div 2 * BLOCK_SIZE"

datatype fd_type = FD_NONE | FD_PIPE | FD_INODE

record File =
  f_type :: fd_type
  f_ref :: int
  f_readable :: u8
  f_writable :: u8
  f_pipe :: nat
  f_ip :: nat
  f_off :: nat

record ksys =
  itab :: itable
  files :: "File list"
  pipes :: "nat \<rightharpoonup> Pipe"
  next_pipe :: nat

type_synonym oftable = "nat option list"

definition init_oftable :: oftable where
  "init_oftable = replicate NOFILE None"

definition set_file :: "nat \<Rightarrow> File \<Rightarrow> ksys \<Rightarrow> ksys" where
  "set_file i f k = k\<lparr>files := (files k)[i := f]\<rparr>"

definition set_tab :: "itable \<Rightarrow> ksys \<Rightarrow> ksys" where
  "set_tab st k = k\<lparr>itab := st\<rparr>"

section \<open>Atomic operations of the file system\<close>

definition begin_op :: "nat \<Rightarrow> itable \<Rightarrow> (OpContext \<times> itable) res" where
  "begin_op t st =
     (let (ok, ctx, s) = cache_begin_op t \<lparr>rm = 0, ts = 0\<rparr> (blocks_of st)
      in if ok then Ok (ctx, set_blocks s st) else Blocked)"

definition end_op :: "nat \<Rightarrow> OpContext \<Rightarrow> itable \<Rightarrow> itable res" where
  "end_op t ctx st =
     bnd (cache_end_op t ctx (blocks_of st)) (\<lambda>(ok, s). if ok then Ok (set_blocks s st) else Blocked)"

section \<open>References\<close>

definition filealloc :: "ksys \<Rightarrow> nat option \<times> ksys" where
  "filealloc k =
     (case find (\<lambda>i. f_ref (files k ! i) = 0) [0..<NFILE] of
        Some i \<Rightarrow> (Some i, set_file i ((files k ! i)\<lparr>f_ref := 1\<rparr>) k)
      | None \<Rightarrow> (None, k))"

definition filedup :: "nat \<Rightarrow> ksys \<Rightarrow> nat \<times> ksys" where
  "filedup i k = (i, set_file i ((files k ! i)\<lparr>f_ref := f_ref (files k ! i) + 1\<rparr>) k)"

definition close_pipe :: "nat \<Rightarrow> u8 \<Rightarrow> ksys \<Rightarrow> ksys res" where
  "close_pipe p writable k =
     (case pipes k p of
        None \<Rightarrow> Panic
      | Some pi \<Rightarrow> Ok (k\<lparr>pipes := (pipes k)(p := pipeClose pi (writable = 1))\<rparr>))"

definition fileclose :: "nat \<Rightarrow> nat \<Rightarrow> ksys \<Rightarrow> ksys res" where
  "fileclose t i k =
     (let f = files k ! i in
      bnd (assert (f_type f \<noteq> FD_NONE)) (\<lambda>_.
      let f = f\<lparr>f_ref := f_ref f - 1\<rparr> in
      if f_ref f \<le> 0
      then
        let temp = f;
            f = f\<lparr>f_ref := 0, f_type := FD_NONE\<rparr>;
            k = set_file i f k
        in bnd (if f_type temp = FD_PIPE then close_pipe (f_pipe f) (f_writable f) k else Ok k) (\<lambda>k.
           if f_type temp \<noteq> FD_NONE
           then
             bnd (begin_op t (itab k)) (\<lambda>(ctx, st).
             bnd (inode_put t (Some ctx) (f_ip temp) st) (\<lambda>(ctx, st).
             bnd (end_op t (the ctx) st) (\<lambda>st. Ok (set_tab st k))))
           else Ok k)
      else Ok (set_file i f k)))"

text \<open>
  The first argument of \<open>pipeAlloc\<close> says whether \<open>kalloc\<close> returned memory for the pipe. Without it both files are closed again,
  while their type is still the one they had before.
\<close>

definition pipeAlloc :: "bool \<Rightarrow> nat \<Rightarrow> ksys \<Rightarrow> (int \<times> (nat \<times> nat) option \<times> ksys) res" where
  "pipeAlloc allocated t k =
     (let (new_f0, k) = filealloc k;
          (new_f1, k) = filealloc k
      in case (new_f0, new_f1) of
           (Some i, Some j) \<Rightarrow>
             if \<not> allocated
             then bnd (fileclose t i k) (\<lambda>k. bnd (fileclose t j k) (\<lambda>k. Ok (-1, None, k)))
             else
             let p = next_pipe k;
                 k = k\<lparr>pipes := (pipes k)(p \<mapsto> init_pipe), next_pipe := p + 1\<rparr>;
                 k = set_file i ((files k ! i)\<lparr>f_pipe := p, f_type := FD_PIPE, f_readable := 1\<rparr>) k;
                 k = set_file j ((files k ! j)\<lparr>f_pipe := p, f_type := FD_PIPE, f_writable := 1\<rparr>) k
             in Ok (0, Some (i, j), k)
         | _ \<Rightarrow> Ok (-1, None, k))"

section \<open>Access\<close>

definition filestat :: "nat \<Rightarrow> nat \<Rightarrow> ksys \<Rightarrow> (stat option \<times> ksys) res" where
  "filestat t i k =
     (let f = files k ! i in
      if f_type f = FD_INODE
      then
        bnd (lock_inode t (f_ip f) (itab k)) (\<lambda>st.
        bnd (deref (f_ip f) st) (\<lambda>ip.
        bnd (stati ip) (\<lambda>s.
        bnd (unlock_inode (f_ip f) st) (\<lambda>st. Ok (Some s, set_tab st k)))))
      else Ok (None, k))"

text \<open>The bytes read, or \<open>None\<close> for the result -1.\<close>

definition fileread :: "nat \<Rightarrow> nat \<Rightarrow> nat \<Rightarrow> ksys \<Rightarrow> (u8 option list option \<times> ksys) res" where
  "fileread t i n k =
     (let f = files k ! i in
      if f_readable f \<noteq> 1 then Ok (None, k)
      else if f_type f = FD_INODE
      then
        bnd (lock_inode t (f_ip f) (itab k)) (\<lambda>st.
        bnd (deref (f_ip f) st) (\<lambda>ip.
        bnd (inode_read t ip (f_off f) n (fs st)) (\<lambda>(d, ip, fsy).
        let st = set_inode (f_ip f) ip (st\<lparr>fs := fsy\<rparr>);
            k = set_file i (f\<lparr>f_off := f_off f + length d\<rparr>) k
        in bnd (unlock_inode (f_ip f) st) (\<lambda>st. Ok (Some (map Some d), set_tab st k)))))
      else if f_type f = FD_PIPE
      then
        (case pipes k (f_pipe f) of
           None \<Rightarrow> Panic
         | Some pi \<Rightarrow>
             bnd (pipeRead t n pi) (\<lambda>r.
             case r of
               PAsleep _ _ _ \<Rightarrow> Blocked
             | PDone d pi \<Rightarrow> Ok (Some d, k\<lparr>pipes := (pipes k)(f_pipe f \<mapsto> pi)\<rparr>)))
      else Panic)"

lemma console_write_count: "console_write t ip src c = Ok (n, ip', c') \<Longrightarrow> n = length src"
  by (auto simp: console_write_def bnd_eq_Ok)

lemma file_write_count: "file_write ctx ip src off s = Ok (n, r) \<Longrightarrow> n = length src"
  by (auto simp: file_write_def Let_def bnd_eq_Ok bnd_assert_eq_Ok split: if_splits)

lemma inode_write_count: "inode_write t ctx ip src off f = Ok (n, r) \<Longrightarrow> n = length src"
  by (auto simp: inode_write_def bnd_eq_Ok bnd_assert_eq_Ok dest: console_write_count file_write_count split: if_splits)

text \<open>One turn of the loop of \<open>filewrite\<close>; the number of bytes written and the new state.\<close>

definition write_op :: "nat \<Rightarrow> nat \<Rightarrow> u8 list \<Rightarrow> ksys \<Rightarrow> (nat \<times> ksys) res" where
  "write_op t i src k =
     (let f = files k ! i in
      bnd (begin_op t (itab k)) (\<lambda>(ctx, st).
      bnd (lock_inode t (f_ip f) st) (\<lambda>st.
      bnd (deref (f_ip f) st) (\<lambda>ip.
      bnd (inode_write t (Some ctx) ip src (f_off f) (fs st)) (\<lambda>(w, ctx, ip, fsy).
      let st = set_inode (f_ip f) ip (st\<lparr>fs := fsy\<rparr>);
          k = set_file i (f\<lparr>f_off := f_off f + w\<rparr>) k
      in bnd (unlock_inode (f_ip f) st) (\<lambda>st.
         bnd (end_op t (the ctx) st) (\<lambda>st. Ok (w, set_tab st k))))))))"

lemma write_op_count: "write_op t i src k = Ok (w, k') \<Longrightarrow> w = length src"
  by (auto simp: write_op_def Let_def bnd_eq_Ok dest!: inode_write_count)

function filewrite_loop :: "nat \<Rightarrow> nat \<Rightarrow> u8 list \<Rightarrow> nat \<Rightarrow> ksys \<Rightarrow> (nat \<times> ksys) res" where
  "filewrite_loop t i src written k =
     (if src = [] then Ok (written, k)
      else
        let op_n = min (length src) MAX_OP_WRITE_N in
        bnd (write_op t i (take op_n src) k) (\<lambda>(w, k).
          filewrite_loop t i (drop w src) (written + w) k))"
  by pat_completeness auto
termination
  by (relation "measure (\<lambda>(t, i, src, _). length src)") (auto dest!: write_op_count)

declare filewrite_loop.simps [simp del]

text \<open>\<open>INODE_MAX_BYTES - f->off\<close> is computed in 64 bits. The result is \<open>None\<close> for -1.\<close>

definition filewrite :: "nat \<Rightarrow> nat \<Rightarrow> u8 list \<Rightarrow> ksys \<Rightarrow> (nat option \<times> ksys) res" where
  "filewrite t i src k =
     (let f = files k ! i in
      if f_writable f \<noteq> 1 then Ok (None, k)
      else if f_type f = FD_INODE
      then
        let max_valid_write_n = nat ((int INODE_MAX_BYTES - int (f_off f)) mod 2 ^ 64);
            n = min (length src) max_valid_write_n
        in bnd (filewrite_loop t i (take n src) 0 k) (\<lambda>(w, k). Ok (Some w, k))
      else if f_type f = FD_PIPE
      then
        (case pipes k (f_pipe f) of
           None \<Rightarrow> Panic
         | Some pi \<Rightarrow>
             bnd (pipeWrite t src pi) (\<lambda>r.
             case r of
               PAsleep _ _ _ \<Rightarrow> Blocked
             | PDone n pi \<Rightarrow> Ok (Some n, k\<lparr>pipes := (pipes k)(f_pipe f \<mapsto> pi)\<rparr>)))
      else Panic)"

section \<open>Properties\<close>

text \<open>An inode that nobody holds, and the effect of holding it for a while.\<close>

definition free_inode :: "Inode \<Rightarrow> bool" where
  "free_inode ip \<longleftrightarrow> i_rc ip > 0 \<and> i_lock ip = init_sleeplock"

lemma lock_free_inode:
  assumes "inodes st p = Some ip" "free_inode ip"
  shows "lock_inode t p st = Ok (set_inode p (ip\<lparr>i_lock := \<lparr>val = 0, sleeplist = []\<rparr>\<rparr>) st)"
  using assms by (simp add: lock_inode_def deref_def inode_lock_def free_inode_def wait_sem_def init_sem_def)

lemma unlock_held_inode:
  assumes "inodes st p = Some ip" "i_rc ip > 0" "i_lock ip = \<lparr>val = 0, sleeplist = []\<rparr>"
  shows "unlock_inode p st = Ok (set_inode p (ip\<lparr>i_lock := init_sleeplock\<rparr>) st)"
  using assms by (simp add: unlock_inode_def deref_def inode_unlock_def post_sem_def init_sem_def Let_def set_inode_def)

text \<open>
  C27: \<open>fileread\<close> on an open, readable file returns the range of the content that starts at the offset
  of the file, cut off at its end, advances the offset by the number of bytes returned, and leaves
  the inode unlocked and every block as it was.
\<close>

theorem fileread_content:
  assumes "i < length (files k)" and "f_readable (files k ! i) = 1" and "f_type (files k ! i) = FD_INODE"
    and "inodes (itab k) (f_ip (files k ! i)) = Some ip" and "free_inode ip"
    and "fs_ok (blocks_of (itab k))" and "file_ok (blocks_of (itab k)) (i_entry ip)"
    and "i_type (i_entry ip) \<noteq> INODE_DEVICE"
    and "f_off (files k ! i) \<le> unat (i_num_bytes (i_entry ip))" and "f_off (files k ! i) + n < 2 ^ 64"
  shows "\<exists>k'. fileread t i n k =
      Ok (Some (map Some (take n (drop (f_off (files k ! i)) (content (lview (blocks_of (itab k))) (i_entry ip))))), k') \<and>
    files k' = (files k)[i := (files k ! i)\<lparr>f_off := f_off (files k ! i) +
      length (take n (drop (f_off (files k ! i)) (content (lview (blocks_of (itab k))) (i_entry ip))))\<rparr>] \<and>
    inodes (itab k') = inodes (itab k) \<and> fs_ok (blocks_of (itab k')) \<and>
    lview (blocks_of (itab k')) = lview (blocks_of (itab k))"
proof -
  let ?f = "files k ! i" let ?p = "f_ip (files k ! i)" let ?ip = "ip\<lparr>i_lock := \<lparr>val = 0, sleeplist = []\<rparr>\<rparr>"
  let ?c = "content (lview (blocks_of (itab k))) (i_entry ip)"
  have ok: "file_ok (blocks_of (itab k)) (i_entry ?ip)" "f_off ?f \<le> unat (i_num_bytes (i_entry ?ip))"
    using assms(7,9) by simp_all
  obtain s' where r: "file_read ?ip (f_off ?f) n (blocks_of (itab k)) =
      Ok (range_get (f_off ?f) n (content (lview (blocks_of (itab k))) (i_entry ?ip)), ?ip, s')"
    and st: "\<And>c. stores (blocks_of (itab k)) c {} (lview (blocks_of (itab k))) s' c" and fs': "fs_ok s'"
    by (rule file_read_ok [OF assms(6) ok assms(10)]) blast
  have l: "lock_inode t ?p (itab k) = Ok (set_inode ?p ?ip (itab k))" by (rule lock_free_inode [OF assms(4,5)])
  have same: "(inodes (itab k))(?p \<mapsto> ip\<lparr>i_lock := init_sleeplock\<rparr>) = inodes (itab k)"
    using assms(4,5) by (cases ip) (auto simp: free_inode_def fun_upd_idem_iff)
  show ?thesis
    using assms(2,3,5,8) r l fs' storesD(3) [OF st] same unlock_held_inode [of _ ?p ?ip]
    by (simp add: fileread_def deref_def set_inode_def inode_read_def set_tab_def set_file_def range_get_def
        free_inode_def Let_def)
qed

abbreviation demo_open :: File where
  "demo_open \<equiv> \<lparr>f_type = FD_INODE, f_ref = 1, f_readable = 1, f_writable = 0, f_pipe = 0, f_ip = 9, f_off = 1\<rparr>"

abbreviation demo_itable :: itable where
  "demo_itable \<equiv> \<lparr>fs = demo_fsys, inodes = [9 \<mapsto> demo_inode\<lparr>i_lock := init_sleeplock\<rparr>], ilist = [9], root = 9,
     fresh = 10, garbage = zero_entry, it_woken = []\<rparr>"

abbreviation demo_ksys :: ksys where
  "demo_ksys \<equiv> \<lparr>itab = demo_itable, files = replicate NFILE demo_open, pipes = Map.empty, next_pipe = 0\<rparr>"

theorem fileread_content_witness:
  "\<exists>k'. fileread 1 0 100 demo_ksys = Ok (Some [Some 105, Some 33], k') \<and> f_off (files k' ! 0) = 3"
  using fileread_content [of 0 demo_ksys "demo_inode\<lparr>i_lock := init_sleeplock\<rparr>" 100 1] demo_content
  by (auto simp: demo_fs_ok demo_file_ok free_inode_def)

text \<open>
  C28: \<open>filealloc\<close> hands out the first file that is not referenced, with one reference, and changes no
  other file; it fails exactly when all 1024 files are in use. \<open>filedup\<close> followed by \<open>fileclose\<close>
  leaves the file as it was.
\<close>

theorem file_references:
  assumes "length (files k) = NFILE"
  shows "(case filealloc k of
      (Some i, k') \<Rightarrow> i < NFILE \<and> f_ref (files k ! i) = 0 \<and> (\<forall>j<i. f_ref (files k ! j) \<noteq> 0) \<and>
        f_ref (files k' ! i) = 1 \<and> (\<forall>j. j \<noteq> i \<longrightarrow> files k' ! j = files k ! j)
    | (None, k') \<Rightarrow> k' = k \<and> (\<forall>i<NFILE. f_ref (files k ! i) \<noteq> 0)) \<and>
    (\<forall>i<NFILE. f_ref (files k ! i) > 0 \<and> f_type (files k ! i) \<noteq> FD_NONE \<longrightarrow>
      fileclose t i (snd (filedup i k)) = Ok k)"
proof -
  have "case filealloc k of
      (Some i, k') \<Rightarrow> i < NFILE \<and> f_ref (files k ! i) = 0 \<and> (\<forall>j<i. f_ref (files k ! j) \<noteq> 0) \<and>
        f_ref (files k' ! i) = 1 \<and> (\<forall>j. j \<noteq> i \<longrightarrow> files k' ! j = files k ! j)
    | (None, k') \<Rightarrow> k' = k \<and> (\<forall>i<NFILE. f_ref (files k ! i) \<noteq> 0)"
  proof (cases "find (\<lambda>i. f_ref (files k ! i) = 0) [0..<NFILE]")
    case None
    then have "\<forall>i<NFILE. f_ref (files k ! i) \<noteq> 0" by (auto simp: find_None_iff)
    then show ?thesis using None by (simp add: filealloc_def)
  next
    case (Some i)
    then have i: "i < NFILE" "f_ref (files k ! i) = 0" "\<forall>j<i. f_ref (files k ! j) \<noteq> 0"
      by (auto simp: find_Some_iff)
    then show ?thesis using Some assms by (simp add: filealloc_def set_file_def)
  qed
  moreover have "fileclose t i (snd (filedup i k)) = Ok k"
    if "i < NFILE" "f_ref (files k ! i) > 0" "f_type (files k ! i) \<noteq> FD_NONE" for i
    using that assms by (simp add: fileclose_def filedup_def set_file_def Let_def)
  ultimately show ?thesis by blast
qed

theorem file_references_witness:
  "fst (filealloc (demo_ksys\<lparr>files := (replicate NFILE demo_open)[2 := demo_open\<lparr>f_ref := 0\<rparr>]\<rparr>)) = Some 2 \<and>
   fileclose 1 0 (snd (filedup 0 demo_ksys)) = Ok demo_ksys"
proof -
  let ?k = "demo_ksys\<lparr>files := (replicate NFILE demo_open)[2 := demo_open\<lparr>f_ref := 0\<rparr>]\<rparr>"
  have r: "f_ref (files ?k ! j) = (if j = 2 then 0 else 1)" if "j < NFILE" for j
    using that by (simp add: nth_list_update)
  have "fst (filealloc ?k) = Some 2"
  proof (cases "filealloc ?k")
    case (Pair a b)
    then show ?thesis using file_references [of ?k 1] r by (cases a) (auto split: if_splits)
  qed
  then show ?thesis using file_references [of demo_ksys 1] by simp
qed

text \<open>
  C29: closing the last reference to a pipe end panics unless the file happens to have an inode: the
  source also calls \<open>inodes.put\<close> on the \<open>ip\<close> field, which \<open>pipeAlloc\<close> never sets.
\<close>

theorem fileclose_pipe_needs_inode:
  assumes "f_type (files k ! i) = FD_PIPE" and "f_ref (files k ! i) = 1" and "inodes (itab k) (f_ip (files k ! i)) = None"
    and "begin_op t (itab k) = Ok (ctx, st)" and "inodes st = inodes (itab k)"
  shows "fileclose t i k = Panic"
  using assms by (simp add: fileclose_def Let_def close_pipe_def set_file_def inode_put_def deref_def split: option.split)

abbreviation idle_file :: File where
  "idle_file \<equiv> \<lparr>f_type = FD_NONE, f_ref = 0, f_readable = 0, f_writable = 0, f_pipe = 0, f_ip = 0, f_off = 0\<rparr>"

lemma demo_begin_op: "\<exists>ctx st. begin_op t demo_itable = Ok (ctx, st) \<and> inodes st = inodes demo_itable"
  by (simp add: begin_op_def cache_begin_op_def fresh_cache_def set_blocks_def Let_def)

theorem fileclose_pipe_needs_inode_witness:
  "\<exists>k. pipeAlloc True 1 (demo_ksys\<lparr>files := replicate NFILE idle_file\<rparr>) = Ok (0, Some (0, 1), k) \<and> fileclose 1 0 k = Panic"
proof -
  let ?fs = "replicate NFILE idle_file"
  let ?k = "demo_ksys\<lparr>files := ?fs\<rparr>"
  let ?f = "idle_file\<lparr>f_ref := 1\<rparr>"
  have 1: "find (\<lambda>i. f_ref (?fs ! i) = 0) [0..<NFILE] = Some 0" by (rule find_first) simp_all
  have 2: "find (\<lambda>i. f_ref (?fs[0 := ?f] ! i) = 0) [0..<NFILE] = Some 1" by (rule find_first) simp_all
  obtain k where k: "pipeAlloc True 1 ?k = Ok (0, Some (0, 1), k)" "files k ! 0 = ?f\<lparr>f_type := FD_PIPE, f_readable := 1\<rparr>"
    "itab k = demo_itable"
    using 1 2 by (simp add: pipeAlloc_def filealloc_def set_file_def Let_def)
  obtain ctx st where b: "begin_op 1 demo_itable = Ok (ctx, st)" "inodes st = inodes demo_itable"
    using demo_begin_op by blast
  have "fileclose 1 0 k = Panic"
    using fileclose_pipe_needs_inode [of k 0 1 ctx st] k(2) b unfolding k(3) by simp
  then show ?thesis using k(1) by blast
qed

end
