(* ===== verification/Pidmap.thy ===== *)
theory Pidmap
  imports Bitmap
begin

text \<open>
  Allocation of process identifiers (\<open>kernel/pidmap.h\<close>): a bitmap with the last identifier handed
  out and a count of the free ones. Identifiers are C integers; bit numbers are natural numbers.
\<close>

section \<open>The operations\<close>

abbreviation PID_MAX_DEFAULT :: int where "PID_MAX_DEFAULT \<equiv> 32768"
abbreviation LOCAL_PID_MAX_DEFAULT :: int where "LOCAL_PID_MAX_DEFAULT \<equiv> 256"

record pidmap =
  pid_base :: int
  pid_namespace_size :: int
  nr_free :: nat
  page :: "BitmapCell list"

text \<open>
  \<open>heap\<close> is the uninitialised memory \<open>kalloc(size/8)\<close> returns. \<open>sizeof(pidmap->page)\<close> is the size of
  a pointer: only the first cell is cleared.
\<close>

definition init_pidmap :: "BitmapCell list \<Rightarrow> int \<Rightarrow> pidmap" where
  "init_pidmap heap sz = \<lparr>pid_base = 0, pid_namespace_size = sz, nr_free = nat sz, page = heap[0 := 0]\<rparr>"

definition test_and_set_pid :: "int \<Rightarrow> BitmapCell list \<Rightarrow> bool \<times> BitmapCell list" where
  "test_and_set_pid offset bitmap =
     (let ret = bitmap_get bitmap (nat offset)
      in (ret, if \<not> ret then bitmap_set bitmap (nat offset) else bitmap))"

function find_next_zero_bit :: "BitmapCell list \<Rightarrow> int \<Rightarrow> int \<Rightarrow> int" where
  "find_next_zero_bit bitmap sz offset =
     (if offset < sz
      then if \<not> bitmap_get bitmap (nat offset) then offset else find_next_zero_bit bitmap sz (offset + 1)
      else offset)"
  by pat_completeness auto
termination
  by (relation "measure (\<lambda>(bitmap, sz, offset). nat (sz - offset))") auto

declare find_next_zero_bit.simps [simp del]

definition get_next_pid :: "pidmap \<Rightarrow> int \<times> pidmap" where
  "get_next_pid pm =
     (let pid = pid_base pm + 1;
          offset = pid AND (pid_namespace_size pm - 1)
      in if nr_free pm = 0 then (-1, pm)
         else
           let offset = find_next_zero_bit (page pm) (pid_namespace_size pm) offset;
               offset = (if offset = pid_namespace_size pm then find_next_zero_bit (page pm) (offset - 1) 0 else offset);
               (taken, page') = test_and_set_pid offset (page pm)
           in if offset \<noteq> pid_namespace_size pm \<and> \<not> taken
              then (offset, pm\<lparr>page := page', nr_free := nr_free pm - 1, pid_base := offset\<rparr>)
              else (-1, pm))"

definition free_pid :: "pidmap \<Rightarrow> int \<Rightarrow> pidmap res" where
  "free_pid pm pid =
     (let offset = pid AND (pid_namespace_size pm - 1) in
      bnd (assert (pid < pid_namespace_size pm)) (\<lambda>_.
        Ok (pm\<lparr>nr_free := nr_free pm + 1, page := bitmap_clear (page pm) (nat offset)\<rparr>)))"

section \<open>Invariant\<close>

abbreviation pm_size :: "pidmap \<Rightarrow> nat" where
  "pm_size pm \<equiv> nat (pid_namespace_size pm)"

definition pids :: "pidmap \<Rightarrow> nat set" where
  "pids pm = {i. i < pm_size pm \<and> bitmap_get (page pm) i}"

definition pidmap_ok :: "pidmap \<Rightarrow> bool" where
  "pidmap_ok pm \<longleftrightarrow> (\<exists>k>0. pid_namespace_size pm = 2 ^ k) \<and> pm_size pm \<le> bitmap_bits (page pm) \<and>
     nr_free pm + card (pids pm) = pm_size pm \<and> -1 \<le> pid_base pm \<and> pid_base pm < pid_namespace_size pm"

lemma finite_pids [simp]: "finite (pids pm)"
  by (simp add: pids_def)

lemma and_size: "pid_namespace_size pm = 2 ^ k \<Longrightarrow> x AND (pid_namespace_size pm - 1) = x mod pid_namespace_size pm"
  by (simp add: take_bit_eq_mod [symmetric] take_bit_eq_mask mask_eq_exp_minus_1)

lemma find_next_zero_bit_range:
  assumes "0 \<le> offset" "offset \<le> sz"
  shows "offset \<le> find_next_zero_bit bitmap sz offset" "find_next_zero_bit bitmap sz offset \<le> sz"
    "find_next_zero_bit bitmap sz offset < sz \<Longrightarrow> \<not> bitmap_get bitmap (nat (find_next_zero_bit bitmap sz offset))"
    "offset \<le> j \<Longrightarrow> j < find_next_zero_bit bitmap sz offset \<Longrightarrow> bitmap_get bitmap (nat j)"
proof -
  have "offset \<le> find_next_zero_bit bitmap sz offset \<and> find_next_zero_bit bitmap sz offset \<le> sz \<and>
    (find_next_zero_bit bitmap sz offset < sz \<longrightarrow> \<not> bitmap_get bitmap (nat (find_next_zero_bit bitmap sz offset))) \<and>
    (\<forall>j. offset \<le> j \<longrightarrow> j < find_next_zero_bit bitmap sz offset \<longrightarrow> bitmap_get bitmap (nat j))"
    using assms
  proof (induction bitmap sz offset rule: find_next_zero_bit.induct)
    case (1 bitmap sz offset)
    show ?case
    proof (cases "offset < sz \<and> bitmap_get bitmap (nat offset)")
      case True
      then have "find_next_zero_bit bitmap sz offset = find_next_zero_bit bitmap sz (offset + 1)"
        by (subst find_next_zero_bit.simps) simp
      moreover have "bitmap_get bitmap (nat j)" if "offset \<le> j" "\<not> offset + 1 \<le> j" for j
        using True that by (metis zle_add1_eq_le order_antisym not_le add.commute)
      ultimately show ?thesis using 1 True by (smt (verit, best))
    next
      case False
      then have "find_next_zero_bit bitmap sz offset = offset"
        by (subst find_next_zero_bit.simps) auto
      then show ?thesis using 1 False by auto
    qed
  qed
  then show "offset \<le> find_next_zero_bit bitmap sz offset" "find_next_zero_bit bitmap sz offset \<le> sz"
    "find_next_zero_bit bitmap sz offset < sz \<Longrightarrow> \<not> bitmap_get bitmap (nat (find_next_zero_bit bitmap sz offset))"
    "offset \<le> j \<Longrightarrow> j < find_next_zero_bit bitmap sz offset \<Longrightarrow> bitmap_get bitmap (nat j)"
    by blast+
qed

text \<open>The search, from \<open>offset\<close> to the end and then from the beginning, finds a free bit.\<close>

lemma search_free:
  assumes ok: "pidmap_ok pm" and free: "nr_free pm \<noteq> 0" and o: "0 \<le> offset" "offset < pid_namespace_size pm"
  defines "a \<equiv> find_next_zero_bit (page pm) (pid_namespace_size pm) offset"
  defines "r \<equiv> if a = pid_namespace_size pm then find_next_zero_bit (page pm) (a - 1) 0 else a"
  shows "0 \<le> r" "r < pid_namespace_size pm" "\<not> bitmap_get (page pm) (nat r)"
proof -
  let ?n = "pid_namespace_size pm"
  have n: "0 < ?n" using ok by (auto simp: pidmap_ok_def)
  have a: "offset \<le> a" "a \<le> ?n" "a < ?n \<Longrightarrow> \<not> bitmap_get (page pm) (nat a)"
    "\<And>j. offset \<le> j \<Longrightarrow> j < a \<Longrightarrow> bitmap_get (page pm) (nat j)"
    using find_next_zero_bit_range [where offset = offset and sz = ?n and bitmap = "page pm"] o unfolding a_def by auto
  have "0 \<le> r \<and> r < ?n \<and> \<not> bitmap_get (page pm) (nat r)"
  proof (cases "a = ?n")
    case False
    then show ?thesis using a o unfolding r_def by auto
  next
    case True
    let ?b = "find_next_zero_bit (page pm) (a - 1) 0"
    have b: "0 \<le> ?b" "?b \<le> a - 1" "?b < a - 1 \<Longrightarrow> \<not> bitmap_get (page pm) (nat ?b)"
      "\<And>j. 0 \<le> j \<Longrightarrow> j < ?b \<Longrightarrow> bitmap_get (page pm) (nat j)"
      using find_next_zero_bit_range [where offset = 0 and sz = "a - 1" and bitmap = "page pm"] True n by auto
    have "\<not> bitmap_get (page pm) (nat ?b)"
    proof
      assume set_b: "bitmap_get (page pm) (nat ?b)"
      then have e: "?b = ?n - 1" using b(2,3) True by linarith
      have "bitmap_get (page pm) i" if "i < pm_size pm" for i
      proof (cases "int i < ?b")
        case True
        then show ?thesis using b(4) [of "int i"] by simp
      next
        case False
        then have "int i = ?b" using that e by linarith
        then show ?thesis using set_b by (metis nat_int)
      qed
      then have "pids pm = {..<pm_size pm}" by (auto simp: pids_def)
      then show False using ok free by (simp add: pidmap_ok_def)
    qed
    then show ?thesis using b True n unfolding r_def by auto
  qed
  then show "0 \<le> r" "r < ?n" "\<not> bitmap_get (page pm) (nat r)" by auto
qed

section \<open>Correctness\<close>

lemma pids_set:
  assumes "pidmap_ok pm" "r < pm_size pm"
  shows "pids (pm\<lparr>page := bitmap_set (page pm) r, nr_free := n, pid_base := b\<rparr>) = insert r (pids pm)"
  using assms by (auto simp: pids_def pidmap_ok_def bm.get_set)

lemma pids_clear:
  assumes "pidmap_ok pm" "r < pm_size pm"
  shows "pids (pm\<lparr>nr_free := n, page := bitmap_clear (page pm) r\<rparr>) = pids pm - {r}"
  using assms by (auto simp: pids_def pidmap_ok_def bm.get_clear)

lemma get_next_pid_ok:
  assumes ok: "pidmap_ok pm" and free: "nr_free pm \<noteq> 0"
  obtains r where "0 \<le> r" "r < pid_namespace_size pm" "nat r \<notin> pids pm"
    "get_next_pid pm = (r, pm\<lparr>page := bitmap_set (page pm) (nat r), nr_free := nr_free pm - 1, pid_base := r\<rparr>)"
proof -
  obtain k where k: "pid_namespace_size pm = 2 ^ k" using ok by (auto simp: pidmap_ok_def)
  let ?n = "pid_namespace_size pm"
  define offset where "offset = (pid_base pm + 1) mod ?n"
  have n: "0 < ?n" using k by simp
  have o: "0 \<le> offset" "offset < ?n" using n by (auto simp: offset_def)
  define a where "a = find_next_zero_bit (page pm) ?n offset"
  define r where "r = (if a = ?n then find_next_zero_bit (page pm) (a - 1) 0 else a)"
  have r: "0 \<le> r" "r < ?n" "\<not> bitmap_get (page pm) (nat r)"
    using search_free [OF ok free o] unfolding a_def r_def by auto
  have "get_next_pid pm = (r, pm\<lparr>page := bitmap_set (page pm) (nat r), nr_free := nr_free pm - 1, pid_base := r\<rparr>)"
    using r free unfolding get_next_pid_def Let_def and_size [OF k] offset_def [symmetric] a_def [symmetric]
      r_def [symmetric] test_and_set_pid_def by auto
  then show ?thesis using that r by (auto simp: pids_def)
qed

lemma pidmap_ok_after_get:
  assumes ok: "pidmap_ok pm" and free: "nr_free pm \<noteq> 0" and r: "0 \<le> r" "r < pid_namespace_size pm" "nat r \<notin> pids pm"
  shows "pidmap_ok (pm\<lparr>page := bitmap_set (page pm) (nat r), nr_free := nr_free pm - 1, pid_base := r\<rparr>)"
proof -
  have "nat r < pm_size pm" using r by auto
  then show ?thesis using assms pids_set [OF ok] by (auto simp: pidmap_ok_def bm.size_set)
qed

text \<open>
  C30: process identifiers are never handed out twice. On a well-formed identifier map of \<open>2^k\<close>
  identifiers, \<open>get_next_pid\<close> returns -1 and changes nothing exactly when every identifier is in
  use; otherwise it returns an identifier that was not in use, records exactly that one more,
  keeps the map well-formed, and releasing that identifier with \<open>free_pid\<close> gives back the
  previous set of identifiers in use and the previous count of free ones, again in a well-formed map.
\<close>

theorem pid_unique:
  assumes ok: "pidmap_ok pm" and step: "get_next_pid pm = (r, pm')"
  shows "if pids pm = {..<pm_size pm} then r = -1 \<and> pm' = pm
    else 0 \<le> r \<and> r < pid_namespace_size pm \<and> nat r \<notin> pids pm \<and> pids pm' = insert (nat r) (pids pm) \<and>
      pidmap_ok pm' \<and>
      (\<exists>pm''. free_pid pm' r = Ok pm'' \<and> pids pm'' = pids pm \<and> nr_free pm'' = nr_free pm \<and> pidmap_ok pm'')"
proof (cases "nr_free pm = 0")
  case True
  then have "card (pids pm) = card {..<pm_size pm}" using ok by (simp add: pidmap_ok_def)
  then have "pids pm = {..<pm_size pm}" by (intro card_subset_eq) (auto simp: pids_def)
  moreover have "get_next_pid pm = (-1, pm)" using True by (simp add: get_next_pid_def Let_def)
  ultimately show ?thesis using step by (metis prod.inject)
next
  case False
  then have ne: "pids pm \<noteq> {..<pm_size pm}" using ok unfolding pidmap_ok_def by (metis add_cancel_left_left card_lessThan)
  obtain k where k: "pid_namespace_size pm = 2 ^ k" using ok by (auto simp: pidmap_ok_def)
  have r: "0 \<le> r" "r < pid_namespace_size pm" "nat r \<notin> pids pm"
    and pm': "pm' = pm\<lparr>page := bitmap_set (page pm) (nat r), nr_free := nr_free pm - 1, pid_base := r\<rparr>"
    by (rule get_next_pid_ok [OF ok False], simp add: step)+
  have lt: "nat r < pm_size pm" using r by auto
  have ok': "pidmap_ok pm'" using pidmap_ok_after_get [OF ok False r] pm' by simp
  have pids': "pids pm' = insert (nat r) (pids pm)" using pids_set [OF ok lt] pm' by simp
  have size': "pid_namespace_size pm' = pid_namespace_size pm" using pm' by simp
  let ?pm = "pm'\<lparr>nr_free := nr_free pm' + 1, page := bitmap_clear (page pm') (nat r)\<rparr>"
  have f: "free_pid pm' r = Ok ?pm"
    using r k size' and_size [of pm' k r] by (simp add: free_pid_def Let_def)
  have p: "pids ?pm = pids pm"
    using pids_clear [OF ok', of "nat r"] lt r(3) size' pids' by (simp add: insert_absorb)
  have n: "nr_free ?pm = nr_free pm" using False pm' by simp
  have b: "bitmap_bits (page ?pm) = bitmap_bits (page pm)" "pid_namespace_size ?pm = pid_namespace_size pm"
    "pid_base ?pm = r"
    unfolding pm' by (simp_all add: bm.size_set bm.size_clear)
  have "-1 \<le> r" using r by simp
  then have "pidmap_ok ?pm" using ok r p n b unfolding pidmap_ok_def by metis
  with f p n have "\<exists>pm''. free_pid pm' r = Ok pm'' \<and> pids pm'' = pids pm \<and> nr_free pm'' = nr_free pm \<and> pidmap_ok pm''"
    by blast
  then show ?thesis using r pids' ok' ne by simp
qed

theorem pid_unique_witness:
  "get_next_pid \<lparr>pid_base = 3, pid_namespace_size = 4, nr_free = 2, page = [5]\<rparr> =
     (1, \<lparr>pid_base = 1, pid_namespace_size = 4, nr_free = 1, page = [7]\<rparr>) \<and>
   pids \<lparr>pid_base = 1, pid_namespace_size = 4, nr_free = 1, page = [7]\<rparr> =
     insert 1 (pids \<lparr>pid_base = 3, pid_namespace_size = 4, nr_free = 2, page = [5]\<rparr>)"
proof -
  let ?pm = "\<lparr>pid_base = 3, pid_namespace_size = 4, nr_free = 2, page = [5 :: BitmapCell]\<rparr>"
  have "pids ?pm = set (filter (bitmap_get [5]) [0..<4])" by (auto simp: pids_def)
  also have "\<dots> = {0, 2}" by (simp add: upt_rec bitmap_get_bit numeral_2_eq_2)
  finally have s: "pids ?pm = {0, 2}" .
  have g: "get_next_pid ?pm = (1, \<lparr>pid_base = 1, pid_namespace_size = 4, nr_free = 1, page = [7]\<rparr>)"
    by code_simp
  have "pidmap_ok ?pm" by (auto simp: pidmap_ok_def s bitmap_bits_def intro: exI [of _ 2])
  from pid_unique [OF this g] s g show ?thesis by (auto split: if_splits)
qed

text \<open>\<open>init_pidmap\<close> clears one cell of the page only; the rest is what the allocator returned.\<close>

lemma init_pidmap_clears_one_cell:
  "65 \<in> pids (init_pidmap [1, 2, 0, 0] 256) \<and> \<not> pidmap_ok (init_pidmap [1, 2, 0, 0] 256)"
proof -
  let ?pm = "init_pidmap [1, 2, 0, 0] 256"
  have "65 \<in> pids ?pm" by (simp add: pids_def init_pidmap_def bitmap_get_bit)
  moreover from this have "card (pids ?pm) \<noteq> 0" by (metis card_0_eq empty_iff finite_pids)
  ultimately show ?thesis by (auto simp: pidmap_ok_def init_pidmap_def)
qed

end
