(* ===== verification/Mem.thy ===== *)
theory Mem
  imports Block_Cache
begin

text \<open>
  The physical memory allocator (\<open>kernel/mem.c\<close>): whole pages on a lock-free stack, smaller blocks
  on one stack per size, both threaded through the free memory itself, reference counts of pages,
  and pages moved to and from the swap area. Memory is a function from byte addresses to bytes; an
  access through a NULL pointer or past the end of a table is \<open>Panic\<close>.
\<close>

section \<open>Memory\<close>

type_synonym memory = "nat \<Rightarrow> u8"

definition load_bytes :: "memory \<Rightarrow> nat \<Rightarrow> nat \<Rightarrow> u8 list" where
  "load_bytes m p n = map m [p..<p + n]"

definition store_bytes :: "nat \<Rightarrow> u8 list \<Rightarrow> memory \<Rightarrow> memory" where
  "store_bytes p bs m = (\<lambda>a. if p \<le> a \<and> a < p + length bs then bs ! (a - p) else m a)"

definition load64 :: "memory \<Rightarrow> nat \<Rightarrow> u64" where
  "load64 m p = le_word (load_bytes m p 8)"

definition store64 :: "nat \<Rightarrow> u64 \<Rightarrow> memory \<Rightarrow> memory" where
  "store64 p w = store_bytes p (le_bytes 8 w)"

lemma length_load_bytes [simp]: "length (load_bytes m p n) = n"
  by (simp add: load_bytes_def)

lemma load_store_same: "n = length bs \<Longrightarrow> load_bytes (store_bytes p bs m) p n = bs"
  by (intro nth_equalityI) (auto simp: load_bytes_def store_bytes_def)

lemma load_store_disjoint:
  "q + n \<le> p \<or> p + length bs \<le> q \<Longrightarrow> load_bytes (store_bytes p bs m) q n = load_bytes m q n"
  by (auto simp: load_bytes_def store_bytes_def)

lemma load64_store64 [simp]: "load64 (store64 p w m) p = w"
  by (simp add: load64_def store64_def load_store_same le_word_le_bytes)

lemma load64_store64_disjoint: "q + 8 \<le> p \<or> p + 8 \<le> q \<Longrightarrow> load64 (store64 p w m) q = load64 m q"
  by (simp add: load64_def store64_def load_store_disjoint)

lemma load64_cong: "(\<And>a. p \<le> a \<Longrightarrow> a < p + 8 \<Longrightarrow> m' a = m a) \<Longrightarrow> load64 m' p = load64 m p"
  by (auto simp: load64_def load_bytes_def intro!: arg_cong [where f = le_word])

section \<open>The allocator\<close>

abbreviation PAGE_SIZE :: nat where "PAGE_SIZE \<equiv> 4096"
abbreviation MIN_BLOCK_SIZE :: nat where "MIN_BLOCK_SIZE \<equiv> 8"
abbreviation MIN_BLOCK_ORDER :: nat where "MIN_BLOCK_ORDER \<equiv> 3"
abbreviation MAX_ORDER :: nat where "MAX_ORDER \<equiv> PAGE_SIZE div MIN_BLOCK_SIZE"
abbreviation PHYSTOP :: nat where "PHYSTOP \<equiv> 0x3f000000"
abbreviation KSPACE_MASK :: nat where "KSPACE_MASK \<equiv> 0xffff000000000000"
abbreviation PAGES_REF_SIZE :: nat where "PAGES_REF_SIZE \<equiv> 16 * (PHYSTOP div PAGE_SIZE)"

definition K2P :: "nat \<Rightarrow> nat" where "K2P a = a - KSPACE_MASK"
definition P2K :: "nat \<Rightarrow> nat" where "P2K a = a + KSPACE_MASK"
definition PAGE_BASE :: "nat \<Rightarrow> nat" where "PAGE_BASE a = a - a mod PAGE_SIZE"

record kmem =
  alloc_page_cnt :: int
  left_pages :: int
  pages :: nat
  free_mem :: "nat list"
  zero_page_ptr :: nat
  page_ref :: "nat \<Rightarrow> int"
  ram :: memory

text \<open>\<open>add_to_queue\<close> and \<open>fetch_from_queue\<close> on nodes that lie in the managed memory.\<close>

definition push_node :: "nat \<Rightarrow> nat \<Rightarrow> memory \<Rightarrow> nat \<times> memory" where
  "push_node node first m = (node, store64 node (of_nat first) m)"

definition pop_node :: "nat \<Rightarrow> memory \<Rightarrow> nat \<times> nat" where
  "pop_node first m = (if first = 0 then (0, 0) else (first, unat (load64 m first)))"

definition push_page :: "nat \<Rightarrow> kmem \<Rightarrow> kmem" where
  "push_page p k = (let (first, m) = push_node p (pages k) (ram k) in k\<lparr>pages := first, ram := m\<rparr>)"

definition push_block :: "nat \<Rightarrow> nat \<Rightarrow> kmem \<Rightarrow> kmem" where
  "push_block idx p k =
     (let (first, m) = push_node p (free_mem k ! idx) (ram k)
      in k\<lparr>free_mem := (free_mem k)[idx := first], ram := m\<rparr>)"

definition pop_block :: "nat \<Rightarrow> kmem \<Rightarrow> nat \<times> kmem" where
  "pop_block idx k =
     (let (p, first) = pop_node (free_mem k ! idx) (ram k)
      in (p, k\<lparr>free_mem := (free_mem k)[idx := first]\<rparr>))"

definition pages_top :: nat where
  "pages_top = P2K PHYSTOP - PAGES_REF_SIZE"

function init_pages_loop :: "nat \<Rightarrow> kmem \<Rightarrow> kmem" where
  "init_pages_loop p k =
     (if p < pages_top
      then init_pages_loop (p + PAGE_SIZE) ((push_page p k)\<lparr>left_pages := left_pages k + 1\<rparr>)
      else k)"
  by pat_completeness auto
termination
  by (relation "measure (\<lambda>(p, k). pages_top - p)") auto

declare init_pages_loop.simps [simp del]

text \<open>\<open>kernel_end\<close> is the address the linker gives the symbol \<open>end\<close>; \<open>k\<close> holds zeroed statics and any memory.\<close>

definition init_pages :: "nat \<Rightarrow> kmem \<Rightarrow> kmem" where
  "init_pages kernel_end k =
     init_pages_loop (PAGE_BASE kernel_end + PAGE_SIZE) (k\<lparr>alloc_page_cnt := 0, left_pages := 0, zero_page_ptr := 0\<rparr>)"

definition page_num :: "nat \<Rightarrow> nat" where
  "page_num p = K2P p div PAGE_SIZE"

definition kalloc_page :: "kmem \<Rightarrow> (nat \<times> kmem) res" where
  "kalloc_page k =
     (let k = k\<lparr>alloc_page_cnt := alloc_page_cnt k + 1, left_pages := left_pages k - 1\<rparr>;
          (ret, first) = pop_node (pages k) (ram k);
          k = k\<lparr>pages := first\<rparr>
      in bnd (assert (ret \<noteq> 0)) (\<lambda>_. Ok (ret, k\<lparr>page_ref := (page_ref k)(page_num ret := 0)\<rparr>)))"

definition kfree_page :: "nat \<Rightarrow> nat \<Rightarrow> kmem \<Rightarrow> kmem" where
  "kfree_page kernel_end p k =
     (if p < PAGE_BASE kernel_end + PAGE_SIZE then k
      else
        let k = k\<lparr>alloc_page_cnt := alloc_page_cnt k - 1,
              page_ref := (page_ref k)(page_num p := page_ref k (page_num p) - 1)\<rparr>
        in if page_ref k (page_num p) \<le> 0 then (push_page p k)\<lparr>left_pages := left_pages k + 1\<rparr> else k)"

definition get_idx :: "nat \<Rightarrow> nat" where
  "get_idx sz = (let idx = sz div 2 ^ MIN_BLOCK_ORDER in if sz = idx * MIN_BLOCK_SIZE then idx - 1 else idx)"

function find_order :: "nat list \<Rightarrow> nat \<Rightarrow> nat" where
  "find_order fm idx = (if idx < MAX_ORDER \<and> fm ! idx = 0 then find_order fm (idx + 1) else idx)"
  by pat_completeness auto
termination
  by (relation "measure (\<lambda>(fm, idx). MAX_ORDER - idx)") auto

declare find_order.simps [simp del]

text \<open>A block of \<open>sz\<close> bytes with the remainder of \<open>rest\<close> bytes behind it, as both branches of \<open>kalloc\<close> leave it.\<close>

definition split_block :: "nat \<Rightarrow> nat \<Rightarrow> nat \<Rightarrow> nat \<Rightarrow> kmem \<Rightarrow> nat \<times> kmem" where
  "split_block addr sz rest pos k =
     (let k = (if rest \<noteq> 0 then push_block (rest div MIN_BLOCK_SIZE - 1) (addr + sz) k else k)
      in (addr + 8, k\<lparr>ram := store64 addr (of_nat pos) (ram k)\<rparr>))"

definition kalloc :: "nat \<Rightarrow> kmem \<Rightarrow> (nat \<times> kmem) res" where
  "kalloc size0 k =
     (let pos = get_idx (size0 + 8);
          sz = (pos + 1) * MIN_BLOCK_SIZE;
          idx = find_order (free_mem k) pos
      in if idx = MAX_ORDER
         then bnd (kalloc_page k) (\<lambda>(new_page, k). Ok (split_block new_page sz (if sz < PAGE_SIZE then PAGE_SIZE - sz else 0) pos k))
         else bnd (assert (idx < MAX_ORDER)) (\<lambda>_.
           let (new_addr, k) = pop_block idx k
           in Ok (split_block new_addr sz ((idx + 1) * MIN_BLOCK_SIZE - sz) pos k)))"

definition kfree :: "nat \<Rightarrow> nat \<Rightarrow> kmem \<Rightarrow> kmem res" where
  "kfree kernel_end p k =
     (let p = p - 8;
          idx = unat (ucast (load64 (ram k) p) :: u32)
      in if idx = MAX_ORDER - 1 then Ok (kfree_page kernel_end p k)
         else bnd (assert (idx < MAX_ORDER)) (\<lambda>_. Ok (push_block idx p k)))"

definition left_page_cnt :: "kmem \<Rightarrow> int" where
  "left_page_cnt k = left_pages k"

definition init_zero_page :: "kmem \<Rightarrow> kmem res" where
  "init_zero_page k =
     bnd (kalloc_page k) (\<lambda>(p, k).
       Ok (k\<lparr>zero_page_ptr := p, ram := store_bytes p (replicate PAGE_SIZE 0) (ram k),
             page_ref := (page_ref k)(page_num p := 1)\<rparr>))"

definition get_zero_page :: "kmem \<Rightarrow> nat" where
  "get_zero_page k = zero_page_ptr k"

definition check_zero_page :: "kmem \<Rightarrow> bool" where
  "check_zero_page k = (\<forall>c\<in>set (load_bytes (ram k) (get_zero_page k) PAGE_SIZE). c = 0)"

section \<open>Pages in the swap area\<close>

definition write_page_to_disk :: "nat \<Rightarrow> memory \<Rightarrow> cache \<Rightarrow> (nat \<times> cache) res" where
  "write_page_to_disk ka m s =
     bnd (find_and_set_8_blocks s) (\<lambda>(bno, s).
     bnd (mfold (\<lambda>i s.
            bnd (cache_acquire (bno + i) s) (\<lambda>s.
            bnd (cache_sync None (bno + i) (put_data (bno + i) (load_bytes m (ka + i * BLOCK_SIZE) BLOCK_SIZE) s)) (\<lambda>(_, s).
              cache_release (bno + i) s))) [0..<8] s) (\<lambda>s.
       Ok (bno, s)))"

definition read_page_from_disk :: "nat \<Rightarrow> nat \<Rightarrow> memory \<Rightarrow> cache \<Rightarrow> (memory \<times> cache) res" where
  "read_page_from_disk ka bno m s =
     bnd (mfold (\<lambda>i (m, s).
            bnd (cache_acquire (bno + i) s) (\<lambda>s.
              let m = store_bytes (ka + i * BLOCK_SIZE) (get_data (bno + i) s) m
              in bnd (cache_release (bno + i) s) (\<lambda>s. Ok (m, s)))) [0..<8] (m, s)) (\<lambda>(m, s).
       Ok (m, release_8_blocks bno s))"

section \<open>Regions\<close>

text \<open>
  The managed memory is divided into regions: free pages, free blocks of \<open>8 (i + 1)\<close> bytes, live
  blocks with a header that holds \<open>i\<close>, and memory that a caller holds, such as a page.
\<close>

datatype owner = FreePage | FreeBlock | LiveBlock | Held

type_synonym region = "owner \<times> nat \<times> nat"

definition apart :: "region \<Rightarrow> region \<Rightarrow> bool" where
  "apart r r' \<longleftrightarrow> (case (r, r') of ((_, p, n), (_, q, m)) \<Rightarrow> p + n \<le> q \<or> q + m \<le> p)"

definition all_apart :: "region set \<Rightarrow> bool" where
  "all_apart R \<longleftrightarrow> (\<forall>r\<in>R. \<forall>r'\<in>R. r \<noteq> r' \<longrightarrow> apart r r')"

lemma apart_simp [simp]: "apart (a, p, n) (b, q, m) \<longleftrightarrow> p + n \<le> q \<or> q + m \<le> p"
  by (simp add: apart_def)

lemma apart_sym: "apart r r' \<Longrightarrow> apart r' r"
  by (auto simp: apart_def split: prod.splits)

lemma all_apartD: "all_apart R \<Longrightarrow> r \<in> R \<Longrightarrow> r' \<in> R \<Longrightarrow> r \<noteq> r' \<Longrightarrow> apart r r'"
  by (simp add: all_apart_def)

lemma all_apart_insert:
  "r \<notin> R \<Longrightarrow> all_apart (insert r R) \<longleftrightarrow> all_apart R \<and> (\<forall>r'\<in>R. apart r r')"
  by (auto simp: all_apart_def intro: apart_sym)

lemma all_apart_fresh:
  "all_apart (insert (a, p, n) R) \<Longrightarrow> (a, p, n) \<notin> R \<Longrightarrow> 0 < n \<Longrightarrow> 0 < m \<Longrightarrow> q \<in> {p..<p + n} \<Longrightarrow> (b, q, m) \<notin> R"
  by (auto simp: all_apart_insert)

lemma all_apart_retag:
  assumes "all_apart (insert (a, p, n) R)" "(a, p, n) \<notin> R" "0 < n"
  shows "all_apart (insert (b, p, n) R)"
proof -
  have "(b, p, n) \<notin> R" using all_apart_fresh [OF assms, of n p b] assms(3) by simp
  then show ?thesis using assms by (auto simp: all_apart_insert apart_def split: prod.splits)
qed

lemma all_apart_split:
  assumes "all_apart (insert (a, p, n + m) R)" "(a, p, n + m) \<notin> R" "0 < n" "0 < m"
  shows "all_apart (insert (a, p, n) (insert (a, p + n, m) R))"
proof -
  have R: "all_apart R" "\<And>r. r \<in> R \<Longrightarrow> apart (a, p, n + m) r"
    using assms(1,2) by (auto simp: all_apart_insert)
  have sub: "apart (a, p, n) r \<and> apart (a, p + n, m) r" if "r \<in> R" for r
    using R(2) [OF that] by (cases r) auto
  have new: "(a, p + n, m) \<notin> R" "(a, p, n) \<notin> R"
    using all_apart_fresh [OF assms(1,2), of m "p + n" a] all_apart_fresh [OF assms(1,2), of n p a] assms(3,4) by simp_all
  then have "(a, p, n) \<notin> insert (a, p + n, m) R" using assms(3) by auto
  then show ?thesis using R(1) sub new assms(3) by (simp add: all_apart_insert)
qed

text \<open>A linked list of nodes in memory.\<close>

primrec chain64 :: "memory \<Rightarrow> nat \<Rightarrow> nat list \<Rightarrow> bool" where
  "chain64 m p [] \<longleftrightarrow> p = 0"
| "chain64 m p (x # xs) \<longleftrightarrow> p = x \<and> x \<noteq> 0 \<and> chain64 m (unat (load64 m x)) xs"

lemma chain64_cong: "(\<And>x. x \<in> set xs \<Longrightarrow> load64 m' x = load64 m x) \<Longrightarrow> chain64 m' p xs = chain64 m p xs"
  by (induction xs arbitrary: p) auto

lemma chain64_empty: "chain64 m p xs \<Longrightarrow> p = 0 \<longleftrightarrow> xs = []"
  by (cases xs) auto

text \<open>\<open>ps\<close> are the free pages, \<open>fs ! i\<close> the free blocks of size index \<open>i\<close>, \<open>L\<close> the live blocks and \<open>H\<close> the held regions.\<close>

definition free_blocks_of :: "nat list list \<Rightarrow> (nat \<times> nat) set" where
  "free_blocks_of fs = {(p, i). i < MAX_ORDER \<and> p \<in> set (fs ! i)}"

definition block_region :: "owner \<Rightarrow> nat \<times> nat \<Rightarrow> region" where
  "block_region a b = (a, fst b, 8 * (snd b + 1))"

definition regions :: "nat list \<Rightarrow> nat list list \<Rightarrow> (nat \<times> nat) set \<Rightarrow> (nat \<times> nat) set \<Rightarrow> region set" where
  "regions ps fs L H =
     (\<lambda>p. (FreePage, p, PAGE_SIZE)) ` set ps \<union> block_region FreeBlock ` free_blocks_of fs \<union>
     block_region LiveBlock ` L \<union> Pair Held ` H"

definition in_page :: "nat \<Rightarrow> region \<Rightarrow> bool" where
  "in_page lo r \<longleftrightarrow> (case r of (_, p, n) \<Rightarrow>
     lo \<le> p \<and> p + n \<le> pages_top \<and> 8 dvd p \<and> 8 \<le> n \<and> p mod PAGE_SIZE + n \<le> PAGE_SIZE)"

definition mem_rep :: "nat \<Rightarrow> nat list \<Rightarrow> nat list list \<Rightarrow> (nat \<times> nat) set \<Rightarrow> (nat \<times> nat) set \<Rightarrow> kmem \<Rightarrow> bool" where
  "mem_rep lo ps fs L H k \<longleftrightarrow>
     length fs = MAX_ORDER \<and> fs ! (MAX_ORDER - 1) = [] \<and> length (free_mem k) = MAX_ORDER \<and> KSPACE_MASK < lo \<and> left_pages k = int (length ps) \<and>
     chain64 (ram k) (pages k) ps \<and> distinct ps \<and>
     (\<forall>i<MAX_ORDER. chain64 (ram k) (free_mem k ! i) (fs ! i) \<and> distinct (fs ! i)) \<and>
     (\<forall>(p, i)\<in>L. i < MAX_ORDER \<and> load64 (ram k) p = of_nat i \<and> (i = MAX_ORDER - 1 \<longrightarrow> page_ref k (page_num p) = 0)) \<and>
     all_apart (regions ps fs L H) \<and> (\<forall>r\<in>regions ps fs L H. in_page lo r)"

lemma mem_repI:
  assumes "length fs = MAX_ORDER" "length (free_mem k) = MAX_ORDER" "KSPACE_MASK < lo" "left_pages k = int (length ps)"
    "chain64 (ram k) (pages k) ps" "distinct ps"
    "\<And>i. i < MAX_ORDER \<Longrightarrow> chain64 (ram k) (free_mem k ! i) (fs ! i)" "\<And>i. i < MAX_ORDER \<Longrightarrow> distinct (fs ! i)"
    "\<And>p i. (p, i) \<in> L \<Longrightarrow> i < MAX_ORDER" "\<And>p i. (p, i) \<in> L \<Longrightarrow> load64 (ram k) p = of_nat i"
    "\<And>p. (p, MAX_ORDER - 1) \<in> L \<Longrightarrow> page_ref k (page_num p) = 0"
    "all_apart (regions ps fs L H)" "\<And>r. r \<in> regions ps fs L H \<Longrightarrow> in_page lo r"
    "fs ! (MAX_ORDER - 1) = []"
  shows "mem_rep lo ps fs L H k"
  using assms unfolding mem_rep_def by auto

lemma mem_repD:
  assumes "mem_rep lo ps fs L H k"
  shows "length fs = MAX_ORDER" "length (free_mem k) = MAX_ORDER" "KSPACE_MASK < lo" "left_pages k = int (length ps)"
    "chain64 (ram k) (pages k) ps" "distinct ps"
    "\<And>i. i < MAX_ORDER \<Longrightarrow> chain64 (ram k) (free_mem k ! i) (fs ! i)" "\<And>i. i < MAX_ORDER \<Longrightarrow> distinct (fs ! i)"
    "\<And>p i. (p, i) \<in> L \<Longrightarrow> i < MAX_ORDER" "\<And>p i. (p, i) \<in> L \<Longrightarrow> load64 (ram k) p = of_nat i"
    "\<And>p. (p, MAX_ORDER - 1) \<in> L \<Longrightarrow> page_ref k (page_num p) = 0"
    "all_apart (regions ps fs L H)" "\<And>r. r \<in> regions ps fs L H \<Longrightarrow> in_page lo r"
    "fs ! (MAX_ORDER - 1) = []"
  using assms unfolding mem_rep_def by auto

lemma regions_page: "regions (p # ps) fs L H = insert (FreePage, p, PAGE_SIZE) (regions ps fs L H)"
  by (simp add: regions_def)

lemma regions_live: "regions ps fs (insert b L) H = insert (block_region LiveBlock b) (regions ps fs L H)"
  by (simp add: regions_def)

lemma regions_held: "regions ps fs L (insert b H) = insert (Held, b) (regions ps fs L H)"
  by (simp add: regions_def)

lemma live_region: "(p, i) \<in> L \<Longrightarrow> (LiveBlock, p, 8 * (i + 1)) \<in> regions ps fs L H"
  using regions_live [of ps fs "(p, i)" L H] unfolding block_region_def fst_conv snd_conv by (metis insertI1 insert_absorb)

lemma free_blocks_of_Cons:
  assumes "i < MAX_ORDER" "length fs = MAX_ORDER" "fs ! i = p # xs"
  shows "free_blocks_of fs = insert (p, i) (free_blocks_of (fs[i := xs]))"
  using assms by (auto simp: free_blocks_of_def nth_list_update split: if_splits)

lemma regions_block:
  assumes "i < MAX_ORDER" "length fs = MAX_ORDER" "fs ! i = p # xs"
  shows "regions ps fs L H = insert (block_region FreeBlock (p, i)) (regions ps (fs[i := xs]) L H)"
  by (simp add: regions_def free_blocks_of_Cons [OF assms])

lemma regions_notin:
  "p \<notin> set ps \<Longrightarrow> (FreePage, p, n) \<notin> regions ps fs L H"
  "p \<notin> set (fs ! i) \<Longrightarrow> block_region FreeBlock (p, i) \<notin> regions ps fs L H"
  "(p, i) \<notin> L \<Longrightarrow> block_region LiveBlock (p, i) \<notin> regions ps fs L H"
  "b \<notin> H \<Longrightarrow> (Held, b) \<notin> regions ps fs L H"
  by (auto simp: regions_def block_region_def free_blocks_of_def)

text \<open>The words the allocator itself uses: list nodes and headers.\<close>

definition own_words :: "nat list \<Rightarrow> nat list list \<Rightarrow> (nat \<times> nat) set \<Rightarrow> nat set" where
  "own_words ps fs L = set ps \<union> fst ` free_blocks_of fs \<union> fst ` L"

lemma own_wordsI:
  "p \<in> set ps \<Longrightarrow> p \<in> own_words ps fs L"
  "i < MAX_ORDER \<Longrightarrow> p \<in> set (fs ! i) \<Longrightarrow> p \<in> own_words ps fs L"
  "(p, i) \<in> L \<Longrightarrow> p \<in> own_words ps fs L"
proof -
  show "p \<in> own_words ps fs L" if "i < MAX_ORDER" "p \<in> set (fs ! i)"
  proof -
    have "(p, i) \<in> free_blocks_of fs" using that by (simp add: free_blocks_of_def)
    then show ?thesis unfolding own_words_def by (metis UnI1 UnI2 fst_conv image_eqI)
  qed
qed (simp_all add: own_words_def rev_image_eqI)

lemma own_words_region:
  assumes "x \<in> own_words ps fs L"
  obtains a n where "(a, x, n) \<in> regions ps fs L H" "a \<noteq> Held"
proof -
  consider "x \<in> set ps" | i where "(x, i) \<in> free_blocks_of fs" | i where "(x, i) \<in> L"
    using assms by (auto simp: own_words_def)
  then show thesis
  proof cases
    case 1
    then show thesis by (intro that [of FreePage PAGE_SIZE]) (simp_all add: regions_def)
  next
    case (2 i)
    then have "block_region FreeBlock (x, i) \<in> regions ps fs L H" by (simp add: regions_def)
    then show thesis by (intro that [of FreeBlock "8 * (i + 1)"]) (simp_all add: block_region_def)
  next
    case (3 i)
    then have "block_region LiveBlock (x, i) \<in> regions ps fs L H" by (simp add: regions_def)
    then show thesis by (intro that [of LiveBlock "8 * (i + 1)"]) (simp_all add: block_region_def)
  qed
qed

lemma mem_rep_frame:
  assumes "mem_rep lo ps fs L H k" "\<And>x. x \<in> own_words ps fs L \<Longrightarrow> load64 m x = load64 (ram k) x"
  shows "mem_rep lo ps fs L H (k\<lparr>ram := m\<rparr>)"
proof (rule mem_repI)
  note d = mem_repD [OF assms(1)]
  show "chain64 (ram (k\<lparr>ram := m\<rparr>)) (pages (k\<lparr>ram := m\<rparr>)) ps"
    using d(5) chain64_cong [of ps m "ram k"] assms(2) by (simp add: own_wordsI)
  show "chain64 (ram (k\<lparr>ram := m\<rparr>)) (free_mem (k\<lparr>ram := m\<rparr>) ! i) (fs ! i)" if "i < MAX_ORDER" for i
    using d(7) [OF that] chain64_cong [of "fs ! i" m "ram k"] assms(2) own_wordsI(2) [OF that] by simp
  show "load64 (ram (k\<lparr>ram := m\<rparr>)) p = of_nat i" if "(p, i) \<in> L" for p i
    using d(10) [OF that] assms(2) own_wordsI(3) [OF that] by simp
qed (use mem_repD [OF assms(1)] in simp_all)

text \<open>A write inside held memory touches none of them.\<close>

lemma held_apart:
  assumes "mem_rep lo ps fs L (insert (p, n) H) k" "x \<in> own_words ps fs L"
  shows "x + 8 \<le> p \<or> p + n \<le> x"
proof -
  note d = mem_repD [OF assms(1)]
  obtain a l where "(a, x, l) \<in> regions ps fs L (insert (p, n) H)" "a \<noteq> Held"
    using assms(2) by (rule own_words_region)
  moreover have "(Held, p, n) \<in> regions ps fs L (insert (p, n) H)" by (simp add: regions_held)
  ultimately have "apart (a, x, l) (Held, p, n)" "8 \<le> l"
    using all_apartD [OF d(12), of "(a, x, l)" "(Held, p, n)"] d(13) [of "(a, x, l)"] by (simp_all add: in_page_def)
  then show ?thesis by auto
qed

lemma write_held_rep:
  assumes "mem_rep lo ps fs L (insert (p, n) H) k" "p \<le> q" "q + length bs \<le> p + n"
  shows "mem_rep lo ps fs L (insert (p, n) H) (k\<lparr>ram := store_bytes q bs (ram k)\<rparr>)"
proof (rule mem_rep_frame [OF assms(1)])
  fix x assume "x \<in> own_words ps fs L"
  then have "x + 8 \<le> p \<or> p + n \<le> x" by (rule held_apart [OF assms(1)])
  then show "load64 (store_bytes q bs (ram k)) x = load64 (ram k) x"
    using assms(2,3) by (intro load64_cong) (auto simp: store_bytes_def)
qed

section \<open>Moves\<close>

text \<open>Every operation is a sequence of moves between the four kinds of region.\<close>

lemma in_page_pos: "in_page lo (a, p, n) \<Longrightarrow> 0 < n"
  by (simp add: in_page_def)

lemma in_page_retag: "in_page lo (a, p, n) \<Longrightarrow> in_page lo (b, p, n)"
  by (simp add: in_page_def)

lemma pop_page_rep:
  assumes rep: "mem_rep lo (p # ps) fs L H k"
  shows "mem_rep lo ps fs L (insert (p, PAGE_SIZE) H)
    (k\<lparr>alloc_page_cnt := c, left_pages := left_pages k - 1, pages := unat (load64 (ram k) p),
       page_ref := (page_ref k)(page_num p := 0)\<rparr>)" (is "mem_rep lo ps fs L ?H ?k")
proof (rule mem_repI)
  note d = mem_repD [OF rep]
  let ?R = "regions ps fs L H"
  have new: "(FreePage, p, PAGE_SIZE) \<notin> ?R" using d(6) by (simp add: regions_notin)
  show "all_apart (regions ps fs L ?H)"
    using all_apart_retag [OF _ new] d(12) by (simp add: regions_held regions_page)
  show "in_page lo r" if "r \<in> regions ps fs L ?H" for r
    using that d(13) [of r] d(13) [of "(FreePage, p, PAGE_SIZE)"] in_page_retag
    by (auto simp: regions_held regions_page)
qed (use mem_repD [OF rep] in simp_all)

lemma push_page_rep:
  assumes rep: "mem_rep lo ps fs L (insert (p, PAGE_SIZE) H) k" and new: "(p, PAGE_SIZE) \<notin> H"
  shows "mem_rep lo (p # ps) fs L H ((push_page p k)\<lparr>left_pages := left_pages k + 1\<rparr>)"
proof -
  let ?m = "store64 p (of_nat (pages k)) (ram k)"
  have rep': "mem_rep lo ps fs L (insert (p, PAGE_SIZE) H) (k\<lparr>ram := ?m\<rparr>)"
    unfolding store64_def by (rule write_held_rep [OF rep]) simp_all
  note d = mem_repD [OF rep'] and R = regions_notin(4) [OF new, of ps fs L]
  have p: "in_page lo (Held, p, PAGE_SIZE)" using d(13) by (simp add: regions_held)
  have "unat (of_nat (pages k) :: u64) = pages k"
  proof (cases ps)
    case (Cons q qs)
    then have "in_page lo (FreePage, q, PAGE_SIZE)" "pages k = q" using d(5) d(13) by (auto simp: regions_page regions_held)
    then have "pages k < 2 ^ 64" by (simp add: in_page_def pages_top_def P2K_def)
    then show ?thesis by (simp add: unat_of_nat)
  qed (use d(5) in simp)
  then have "chain64 ?m p (p # ps)" using d(3,5) p by (simp add: in_page_def)
  moreover have "p \<notin> set ps"
  proof
    assume "p \<in> set ps"
    then have "(FreePage, p, PAGE_SIZE) \<in> regions ps fs L (insert (p, PAGE_SIZE) H)" by (simp add: regions_def)
    then show False using all_apartD [OF d(12), of "(FreePage, p, PAGE_SIZE)" "(Held, p, PAGE_SIZE)"] by (simp add: regions_held)
  qed
  moreover have "all_apart (regions (p # ps) fs L H)"
    using all_apart_retag [OF _ R] d(12) by (simp add: regions_held regions_page)
  moreover have "in_page lo r" if "r \<in> regions (p # ps) fs L H" for r
    using that d(13) [of r] p in_page_retag by (auto simp: regions_held regions_page)
  ultimately show ?thesis
    using d by (intro mem_repI) (simp_all add: push_page_def push_node_def)
qed

lemma chain64_small:
  assumes "mem_rep lo ps fs L H k" "i < MAX_ORDER"
  shows "free_mem k ! i < 2 ^ 64"
proof (cases "fs ! i")
  case Nil
  then show ?thesis using mem_repD(7) [OF assms] by simp
next
  case (Cons q qs)
  then have "block_region FreeBlock (q, i) \<in> regions ps fs L H" "free_mem k ! i = q"
    using mem_repD(7) [OF assms] assms(2) by (auto simp: regions_def free_blocks_of_def)
  then have "in_page lo (FreeBlock, free_mem k ! i, 8 * (i + 1))"
    using mem_repD(13) [OF assms(1)] by (simp add: block_region_def)
  then show ?thesis by (simp add: in_page_def pages_top_def P2K_def)
qed

lemma push_block_rep:
  assumes rep: "mem_rep lo ps fs L (insert (p, 8 * (i + 1)) H) k" and new: "(p, 8 * (i + 1)) \<notin> H" and i': "i < MAX_ORDER - 1"
  shows "mem_rep lo ps (fs[i := p # fs ! i]) L H (push_block i p k)"
proof -
  have i: "i < MAX_ORDER" using i' by simp
  let ?m = "store64 p (of_nat (free_mem k ! i)) (ram k)" and ?fs = "fs[i := p # fs ! i]"
  have rep': "mem_rep lo ps fs L (insert (p, 8 * (i + 1)) H) (k\<lparr>ram := ?m\<rparr>)"
    unfolding store64_def by (rule write_held_rep [OF rep]) simp_all
  note d = mem_repD [OF rep'] and R = regions_notin(4) [OF new, of ps fs L]
  have p: "in_page lo (Held, p, 8 * (i + 1))" using d(13) by (simp add: regions_held)
  have "unat (of_nat (free_mem k ! i) :: u64) = free_mem k ! i"
    using chain64_small [OF rep i] by (simp add: unat_of_nat)
  then have c: "chain64 ?m p (p # fs ! i)" using d(3) d(7) [OF i] p by (simp add: in_page_def)
  have regs: "regions ps ?fs L H = insert (block_region FreeBlock (p, i)) (regions ps fs L H)"
    using regions_block [of i ?fs p "fs ! i"] i d(1) by simp
  have np: "p \<notin> set (fs ! i)"
  proof
    assume "p \<in> set (fs ! i)"
    then have "block_region FreeBlock (p, i) \<in> regions ps fs L (insert (p, 8 * (i + 1)) H)"
      using i by (simp add: regions_def free_blocks_of_def)
    then show False
      using all_apartD [OF d(12), of "block_region FreeBlock (p, i)" "(Held, p, 8 * (i + 1))"]
      by (simp add: regions_held block_region_def)
  qed
  have a: "all_apart (regions ps ?fs L H)"
    using all_apart_retag [OF _ R] d(12) by (simp add: regions_held regs block_region_def)
  have b: "in_page lo r" if "r \<in> regions ps ?fs L H" for r
    using that d(13) [of r] p in_page_retag by (auto simp: regions_held regs block_region_def)
  have l: "length (free_mem k) = MAX_ORDER" using d(2) by simp
  show ?thesis
  proof (rule mem_repI)
    show "chain64 (ram (push_block i p k)) (free_mem (push_block i p k) ! j) (?fs ! j)" if "j < MAX_ORDER" for j
      using c d(1) d(7) [OF that] l i that by (cases "j = i") (auto simp: push_block_def push_node_def)
    show "distinct (?fs ! j)" if "j < MAX_ORDER" for j
      using np d(1) d(8) [OF that] i by (cases "j = i") auto
  qed (use d a b i' in \<open>simp_all add: push_block_def push_node_def\<close>)
qed

lemma pop_block_rep:
  assumes rep: "mem_rep lo ps fs L H k" and i: "i < MAX_ORDER" "fs ! i = p # xs"
  shows "mem_rep lo ps (fs[i := xs]) L (insert (p, 8 * (i + 1)) H)
    (k\<lparr>free_mem := (free_mem k)[i := unat (load64 (ram k) p)]\<rparr>)" (is "mem_rep lo ps ?fs L ?H ?k")
proof -
  note d = mem_repD [OF rep]
  have np: "p \<notin> set xs" "distinct xs" using d(8) [OF i(1)] i(2) by auto
  have c: "chain64 (ram k) (unat (load64 (ram k) p)) xs" using d(7) [OF i(1)] i(2) by auto
  have regs: "regions ps fs L H = insert (block_region FreeBlock (p, i)) (regions ps ?fs L H)"
    by (rule regions_block [OF i(1) d(1) i(2)])
  have R: "block_region FreeBlock (p, i) \<notin> regions ps ?fs L H"
    using np i d(1) by (intro regions_notin) simp
  have a: "all_apart (regions ps ?fs L ?H)"
    using all_apart_retag [of FreeBlock p "8 * (i + 1)" "regions ps ?fs L H" Held] R d(12)
    by (simp add: regions_held regs block_region_def)
  have b: "in_page lo r" if "r \<in> regions ps ?fs L ?H" for r
    using that d(13) [of r] d(13) [of "block_region FreeBlock (p, i)"] in_page_retag
    by (auto simp: regions_held regs block_region_def)
  show ?thesis
  proof (rule mem_repI)
    show "chain64 (ram ?k) (free_mem ?k ! j) (?fs ! j)" if "j < MAX_ORDER" for j
      using c d(1,2) d(7) [OF that] i that by (cases "j = i") auto
    show "distinct (?fs ! j)" if "j < MAX_ORDER" for j
      using np d(1) d(8) [OF that] i by (cases "j = i") auto
    show "?fs ! (MAX_ORDER - 1) = []" using d(1,14) i(2) by (cases "i = MAX_ORDER - 1") auto
  qed (use d a b in simp_all)
qed

lemma in_page_split:
  assumes "in_page lo (a, p, n + m)" "8 \<le> n" "8 \<le> m" "8 dvd n"
  shows "in_page lo (a, p, n)" "in_page lo (a, p + n, m)"
proof -
  have "(p + n) mod PAGE_SIZE = p mod PAGE_SIZE + n"
    using assms by (subst mod_add_left_eq [symmetric]) (simp add: in_page_def)
  then show "in_page lo (a, p, n)" "in_page lo (a, p + n, m)" using assms by (simp_all add: in_page_def)
qed

lemma split_held_rep:
  assumes rep: "mem_rep lo ps fs L (insert (p, n + m) H) k" and new: "(p, n + m) \<notin> H"
    and "8 \<le> n" "8 \<le> m" "8 dvd n"
  shows "mem_rep lo ps fs L (insert (p, n) (insert (p + n, m) H)) k" (is "mem_rep lo ps fs L ?H k")
proof -
  note d = mem_repD [OF rep] and R = regions_notin(4) [OF new, of ps fs L]
  have a: "all_apart (regions ps fs L ?H)"
    using all_apart_split [of Held p n m] R d(12) assms(3,4) by (simp add: regions_held)
  have p: "in_page lo (Held, p, n + m)" using d(13) by (simp add: regions_held)
  have b: "in_page lo r" if "r \<in> regions ps fs L ?H" for r
    using that d(13) [of r] in_page_split [OF p assms(3-5)] by (auto simp: regions_held)
  show ?thesis by (rule mem_repI) (use d a b in simp_all)
qed

lemma mark_live_rep:
  assumes rep: "mem_rep lo ps fs L (insert (p, 8 * (i + 1)) H) k" and new: "(p, 8 * (i + 1)) \<notin> H"
    and i: "i < MAX_ORDER" "i = MAX_ORDER - 1 \<Longrightarrow> page_ref k (page_num p) = 0"
  shows "mem_rep lo ps fs (insert (p, i) L) H (k\<lparr>ram := store64 p (of_nat i) (ram k)\<rparr>)"
    (is "mem_rep lo ps fs ?L H (k\<lparr>ram := ?m\<rparr>)")
proof -
  have rep': "mem_rep lo ps fs L (insert (p, 8 * (i + 1)) H) (k\<lparr>ram := ?m\<rparr>)"
    unfolding store64_def by (rule write_held_rep [OF rep]) simp_all
  note d = mem_repD [OF rep'] and R = regions_notin(4) [OF new, of ps fs L]
  have a: "all_apart (regions ps fs ?L H)"
    using all_apart_retag [OF _ R] d(12) by (simp add: regions_held regions_live block_region_def)
  have b: "in_page lo r" if "r \<in> regions ps fs ?L H" for r
    using that d(13) [of r] d(13) [of "(Held, p, 8 * (i + 1))"] in_page_retag
    by (auto simp: regions_held regions_live block_region_def)
  show ?thesis by (rule mem_repI) (use d a b i in auto)
qed

lemma unmark_live_rep:
  assumes rep: "mem_rep lo ps fs L H k" and L: "(p, i) \<in> L"
  shows "mem_rep lo ps fs (L - {(p, i)}) (insert (p, 8 * (i + 1)) H) k" (is "mem_rep lo ps fs ?L ?H k")
proof -
  note d = mem_repD [OF rep]
  have regs: "regions ps fs L H = insert (block_region LiveBlock (p, i)) (regions ps fs ?L H)"
    using L by (metis insert_Diff regions_live)
  have R: "block_region LiveBlock (p, i) \<notin> regions ps fs ?L H" by (intro regions_notin) simp
  have a: "all_apart (regions ps fs ?L ?H)"
    using all_apart_retag [of LiveBlock p "8 * (i + 1)" "regions ps fs ?L H" Held] R d(12)
    by (simp add: regions_held regs block_region_def)
  have b: "in_page lo r" if "r \<in> regions ps fs ?L ?H" for r
    using that d(13) [of r] d(13) [of "block_region LiveBlock (p, i)"] in_page_retag
    by (auto simp: regions_held regs block_region_def)
  show ?thesis by (rule mem_repI) (use d a b in auto)
qed

lemma in_page_whole:
  assumes "in_page lo (a, p, PAGE_SIZE)" "KSPACE_MASK < lo"
  shows "p = KSPACE_MASK + PAGE_SIZE * page_num p"
proof -
  have "PAGE_SIZE dvd p" "KSPACE_MASK \<le> p" using assms by (auto simp: in_page_def)
  then show ?thesis by (simp add: page_num_def K2P_def dvd_diff_nat)
qed

lemma page_ref_rep:
  assumes rep: "mem_rep lo ps fs L (insert (p, PAGE_SIZE) H) k"
  shows "mem_rep lo ps fs L (insert (p, PAGE_SIZE) H)
    (k\<lparr>alloc_page_cnt := c, page_ref := (page_ref k)(page_num p := v)\<rparr>)" (is "mem_rep lo ps fs L ?H ?k")
proof (rule mem_repI)
  note d = mem_repD [OF rep]
  show "page_ref ?k (page_num q) = 0" if q: "(q, MAX_ORDER - 1) \<in> L" for q
  proof -
    have "block_region LiveBlock (q, MAX_ORDER - 1) \<in> regions ps fs L ?H" using q by (simp add: regions_def)
    then have r: "(LiveBlock, q, PAGE_SIZE) \<in> regions ps fs L ?H" by (simp add: block_region_def)
    have "apart (LiveBlock, q, PAGE_SIZE) (Held, p, PAGE_SIZE)"
      by (rule all_apartD [OF d(12) r]) (simp_all add: regions_held)
    then have "page_num q \<noteq> page_num p"
      using in_page_whole [OF d(13) [OF r] d(3)] in_page_whole [OF d(13) d(3), of Held p] by (auto simp: regions_held)
    then show ?thesis using d(11) [OF q] by simp
  qed
qed (use mem_repD [OF rep] in simp_all)

section \<open>The operations as moves\<close>

lemma held_fresh:
  assumes "mem_rep lo ps fs L H k" "(a, p, n) \<in> regions ps fs L H" "a \<noteq> Held"
  shows "(p, n) \<notin> H"
proof
  assume "(p, n) \<in> H"
  then have "apart (a, p, n) (Held, p, n)"
    using all_apartD [OF mem_repD(12) [OF assms(1)] assms(2), of "(Held, p, n)"] assms(3) by (simp add: regions_def)
  then show False using mem_repD(13) [OF assms(1,2)] by (simp add: in_page_def)
qed

lemma kalloc_page_rep:
  assumes rep: "mem_rep lo ps fs L H k"
  shows "ps = [] \<Longrightarrow> kalloc_page k = Panic"
    and "ps = p # ps' \<Longrightarrow> \<exists>k'. kalloc_page k = Ok (p, k') \<and> mem_rep lo ps' fs L (insert (p, PAGE_SIZE) H) k' \<and>
      (p, PAGE_SIZE) \<notin> H \<and> ram k' = ram k \<and> page_ref k' (page_num p) = 0"
proof -
  show "ps = [] \<Longrightarrow> kalloc_page k = Panic"
    using mem_repD(5) [OF rep] by (simp add: kalloc_page_def pop_node_def Let_def)
  assume ps: "ps = p # ps'"
  then have "pages k = p" "p \<noteq> 0" using mem_repD(5) [OF rep] by auto
  moreover have "(p, PAGE_SIZE) \<notin> H"
    by (rule held_fresh [OF rep, of FreePage]) (simp_all add: ps regions_def)
  ultimately show "\<exists>k'. kalloc_page k = Ok (p, k') \<and> mem_rep lo ps' fs L (insert (p, PAGE_SIZE) H) k' \<and>
      (p, PAGE_SIZE) \<notin> H \<and> ram k' = ram k \<and> page_ref k' (page_num p) = 0"
    using pop_page_rep [OF rep [unfolded ps], of "alloc_page_cnt k + 1"]
    by (simp add: kalloc_page_def pop_node_def Let_def)
qed

lemma kfree_page_rep:
  assumes rep: "mem_rep (PAGE_BASE e + PAGE_SIZE) ps fs L (insert (p, PAGE_SIZE) H) k" and new: "(p, PAGE_SIZE) \<notin> H"
  shows "page_ref k (page_num p) \<le> 1 \<Longrightarrow> mem_rep (PAGE_BASE e + PAGE_SIZE) (p # ps) fs L H (kfree_page e p k)"
    and "\<not> page_ref k (page_num p) \<le> 1 \<Longrightarrow>
      mem_rep (PAGE_BASE e + PAGE_SIZE) ps fs L (insert (p, PAGE_SIZE) H) (kfree_page e p k)"
proof -
  let ?k = "k\<lparr>alloc_page_cnt := alloc_page_cnt k - 1,
    page_ref := (page_ref k)(page_num p := page_ref k (page_num p) - 1)\<rparr>"
  have lo: "\<not> p < PAGE_BASE e + PAGE_SIZE"
    using mem_repD(13) [OF rep, of "(Held, p, PAGE_SIZE)"] by (simp add: regions_held in_page_def)
  have rep': "mem_rep (PAGE_BASE e + PAGE_SIZE) ps fs L (insert (p, PAGE_SIZE) H) ?k" by (rule page_ref_rep [OF rep])
  show "page_ref k (page_num p) \<le> 1 \<Longrightarrow> mem_rep (PAGE_BASE e + PAGE_SIZE) (p # ps) fs L H (kfree_page e p k)"
    using push_page_rep [OF rep' new] lo by (simp add: kfree_page_def Let_def)
  show "\<not> page_ref k (page_num p) \<le> 1 \<Longrightarrow>
      mem_rep (PAGE_BASE e + PAGE_SIZE) ps fs L (insert (p, PAGE_SIZE) H) (kfree_page e p k)"
    using rep' lo by (simp add: kfree_page_def Let_def)
qed

lemma get_idx_bounds:
  assumes "0 < n"
  shows "n \<le> 8 * (get_idx n + 1)" "8 * get_idx n < n"
proof -
  have "n = 8 * (n div 8) + n mod 8" "n mod 8 < 8" by simp_all
  then show "n \<le> 8 * (get_idx n + 1)" "8 * get_idx n < n"
    using assms by (auto simp: get_idx_def Let_def)
qed

lemma find_order_bounds:
  assumes "i \<le> MAX_ORDER"
  shows "i \<le> find_order fm i" "find_order fm i \<le> MAX_ORDER" "find_order fm i < MAX_ORDER \<Longrightarrow> fm ! find_order fm i \<noteq> 0"
proof -
  have "i \<le> find_order fm i \<and> find_order fm i \<le> MAX_ORDER \<and> (find_order fm i < MAX_ORDER \<longrightarrow> fm ! find_order fm i \<noteq> 0)"
    using assms
  proof (induction fm i rule: find_order.induct)
    case (1 fm i)
    show ?case
    proof (cases "i < MAX_ORDER \<and> fm ! i = 0")
      case True
      then have "find_order fm i = find_order fm (i + 1)" by (subst find_order.simps) simp
      then show ?thesis using 1 True by simp
    next
      case False
      then have "find_order fm i = i" by (subst find_order.simps) auto
      then show ?thesis using 1 False by auto
    qed
  qed
  then show "i \<le> find_order fm i" "find_order fm i \<le> MAX_ORDER" "find_order fm i < MAX_ORDER \<Longrightarrow> fm ! find_order fm i \<noteq> 0"
    by auto
qed

lemma split_block_rep:
  assumes rep: "mem_rep lo ps fs L (insert (p, 8 * (i + 1)) H) k" and new: "(p, 8 * (i + 1)) \<notin> H"
    and i: "pos \<le> i" "i < MAX_ORDER" "pos = MAX_ORDER - 1 \<Longrightarrow> page_ref k (page_num p) = 0"
  shows "\<exists>fs' k'. split_block p (8 * (pos + 1)) (8 * (i - pos)) pos k = (p + 8, k') \<and>
    mem_rep lo ps fs' (insert (p, pos) L) H k' \<and> (\<forall>a. a < p \<or> p + 8 * (i + 1) \<le> a \<longrightarrow> ram k' a = ram k a)"
proof (cases "pos = i")
  case True
  then show ?thesis
    using mark_live_rep [OF rep new i(2)] i(3)
    by (intro exI [of _ fs]) (auto simp: split_block_def store64_def store_bytes_def)
next
  case False
  define n where "n = 8 * (pos + 1)"
  define m where "m = 8 * (i - pos)"
  have nm: "8 * (i + 1) = n + m" "8 \<le> n" "8 \<le> m" "8 dvd n" "m = 8 * (i - pos - 1 + 1)" "i - pos - 1 < MAX_ORDER - 1"
    using i False by (auto simp: n_def m_def)
  have rep': "mem_rep lo ps fs L (insert (p, n) (insert (p + n, m) H)) k"
    by (rule split_held_rep [OF rep [unfolded nm(1)] new [unfolded nm(1)] nm(2-4)])
  have d: "all_apart (insert (Held, p, n) (insert (Held, p + n, m) (regions ps fs L H)))"
    "all_apart (insert (Held, p, n + m) (regions ps fs L H))"
    using mem_repD(12) [OF rep'] mem_repD(12) [OF rep] nm(1) by (simp_all add: regions_held)
  have "(Held, p, n + m) \<notin> regions ps fs L H" using new nm(1) by (simp add: regions_notin)
  then have new': "(p, n) \<notin> H" "(p + n, m) \<notin> H"
    using all_apart_fresh [OF d(2), of n p Held] all_apart_fresh [OF d(2), of m "p + n" Held] nm
    by (auto simp: regions_def)
  let ?k1 = "push_block (i - pos - 1) (p + n) k"
  have rep1: "mem_rep lo ps (fs[i - pos - 1 := (p + n) # fs ! (i - pos - 1)]) L (insert (p, n) H) ?k1"
  proof (rule push_block_rep [OF _ _ nm(6)], unfold nm(5) [symmetric])
    show "mem_rep lo ps fs L (insert (p + n, m) (insert (p, n) H)) k" using rep' by (simp only: insert_commute)
    show "(p + n, m) \<notin> insert (p, n) H" using new' nm(2) by simp
  qed
  have ref: "page_ref ?k1 = page_ref k" by (simp add: push_block_def push_node_def)
  have rep2: "mem_rep lo ps (fs[i - pos - 1 := (p + n) # fs ! (i - pos - 1)]) (insert (p, pos) L) H
      (?k1\<lparr>ram := store64 p (of_nat pos) (ram ?k1)\<rparr>)"
    by (rule mark_live_rep) (use rep1 new' i False in \<open>auto simp: n_def ref\<close>)
  have "split_block p n m pos k = (p + 8, ?k1\<lparr>ram := store64 p (of_nat pos) (ram ?k1)\<rparr>)"
    using nm by (simp add: split_block_def Let_def)
  then show ?thesis
    using rep2 nm unfolding n_def [symmetric] m_def [symmetric]
    by (intro exI) (auto simp: push_block_def push_node_def store64_def store_bytes_def)
qed

text \<open>What an allocation does: a free region is taken, a live block is made at its start and the rest is free again.\<close>

definition carved ::
  "nat \<Rightarrow> nat list \<Rightarrow> nat list list \<Rightarrow> (nat \<times> nat) set \<Rightarrow> (nat \<times> nat) set \<Rightarrow> kmem \<Rightarrow> nat \<Rightarrow> nat \<Rightarrow> kmem \<Rightarrow> bool" where
  "carved lo ps fs L H k pos r k' \<longleftrightarrow> (\<exists>p n ps' fs' a. r = p + 8 \<and> mem_rep lo ps' fs' (insert (p, pos) L) H k' \<and>
     (a, p, n) \<in> regions ps fs L H \<and> a \<in> {FreePage, FreeBlock} \<and> 8 * (pos + 1) \<le> n \<and>
     (\<forall>x. x < p \<or> p + n \<le> x \<longrightarrow> ram k' x = ram k x))"

lemma carvedI:
  assumes "mem_rep lo ps' fs' (insert (p, pos) L) H k'" "(a, p, n) \<in> regions ps fs L H" "a \<in> {FreePage, FreeBlock}"
    "8 * (pos + 1) \<le> n" "\<And>x. x < p \<or> p + n \<le> x \<Longrightarrow> ram k' x = ram k x"
  shows "carved lo ps fs L H k pos (p + 8) k'"
  unfolding carved_def using assms by blast

lemma carve_page:
  assumes rep: "mem_rep lo ps fs L H k" and pos: "pos \<le> MAX_ORDER - 1" and ps: "ps = p # ps'"
  obtains k1 k' where "kalloc_page k = Ok (p, k1)"
    "split_block p (8 * (pos + 1)) (8 * (MAX_ORDER - 1 - pos)) pos k1 = (p + 8, k')" "carved lo ps fs L H k pos (p + 8) k'"
proof -
  have sz: "8 * (MAX_ORDER - 1 + 1) = PAGE_SIZE" by simp
  obtain k1 where k1: "kalloc_page k = Ok (p, k1)" "mem_rep lo ps' fs L (insert (p, 8 * (MAX_ORDER - 1 + 1)) H) k1"
    "(p, 8 * (MAX_ORDER - 1 + 1)) \<notin> H" "ram k1 = ram k" "page_ref k1 (page_num p) = 0"
    using kalloc_page_rep(2) [OF rep ps] unfolding sz by blast
  obtain fs' k' where s: "split_block p (8 * (pos + 1)) (8 * (MAX_ORDER - 1 - pos)) pos k1 = (p + 8, k')"
    "mem_rep lo ps' fs' (insert (p, pos) L) H k'" "\<And>x. x < p \<or> p + 8 * (MAX_ORDER - 1 + 1) \<le> x \<Longrightarrow> ram k' x = ram k1 x"
    using split_block_rep [OF k1(2,3) pos _ k1(5)] by auto
  have "carved lo ps fs L H k pos (p + 8) k'"
  proof (rule carvedI [OF s(2)])
    show "(FreePage, p, PAGE_SIZE) \<in> regions ps fs L H" by (simp add: ps regions_page)
    show "ram k' x = ram k x" if "x < p \<or> p + PAGE_SIZE \<le> x" for x using s(3) that k1(4) unfolding sz by simp
  qed (use pos in simp_all)
  then show thesis using that k1(1) s(1) by blast
qed

lemma carve_block:
  assumes rep: "mem_rep lo ps fs L H k" and i: "pos \<le> i" "i < MAX_ORDER" "free_mem k ! i \<noteq> 0"
  obtains p k1 k' where "pop_block i k = (p, k1)"
    "split_block p (8 * (pos + 1)) (8 * (i - pos)) pos k1 = (p + 8, k')" "carved lo ps fs L H k pos (p + 8) k'"
proof -
  note d = mem_repD [OF rep]
  obtain p xs where xs: "fs ! i = p # xs" "free_mem k ! i = p" "p \<noteq> 0"
    using d(7) [OF i(2)] i(3) by (cases "fs ! i") auto
  have r: "(FreeBlock, p, 8 * (i + 1)) \<in> regions ps fs L H"
    using regions_block [OF i(2) d(1) xs(1)] by (simp add: block_region_def)
  have new: "(p, 8 * (i + 1)) \<notin> H" by (rule held_fresh [OF rep r]) simp
  have small: "pos \<noteq> MAX_ORDER - 1" using i(1,2) xs(1) d(14) by (cases "i = MAX_ORDER - 1") auto
  let ?k = "k\<lparr>free_mem := (free_mem k)[i := unat (load64 (ram k) p)]\<rparr>"
  obtain fs' k' where s: "split_block p (8 * (pos + 1)) (8 * (i - pos)) pos ?k = (p + 8, k')"
    "mem_rep lo ps fs' (insert (p, pos) L) H k'" "\<And>x. x < p \<or> p + 8 * (i + 1) \<le> x \<Longrightarrow> ram k' x = ram ?k x"
    using split_block_rep [OF pop_block_rep [OF rep i(2) xs(1)] new i(1,2)] small by auto
  have "carved lo ps fs L H k pos (p + 8) k'"
    by (rule carvedI [OF s(2) r]) (use s(3) i(1) in simp_all)
  moreover have "pop_block i k = (p, ?k)" using xs by (simp add: pop_block_def pop_node_def)
  ultimately show thesis using that s(1) by blast
qed

lemma kalloc_rep:
  assumes rep: "mem_rep lo ps fs L H k" and sz: "sz \<le> PAGE_SIZE - 8"
  shows "(\<exists>r k'. kalloc sz k = Ok (r, k') \<and> carved lo ps fs L H k (get_idx (sz + 8)) r k') \<or> kalloc sz k = Panic \<and> ps = []"
proof -
  define pos where "pos = get_idx (sz + 8)"
  have pos: "pos \<le> MAX_ORDER - 1" using get_idx_bounds [of "sz + 8"] sz by (simp add: pos_def)
  define i where "i = find_order (free_mem k) pos"
  have i: "pos \<le> i" "i \<le> MAX_ORDER" "i < MAX_ORDER \<Longrightarrow> free_mem k ! i \<noteq> 0"
    using find_order_bounds [of pos "free_mem k"] pos unfolding i_def by auto
  have K: "kalloc sz k = (if i = MAX_ORDER
      then bnd (kalloc_page k) (\<lambda>(p, k). Ok (split_block p (8 * (pos + 1)) (8 * (MAX_ORDER - 1 - pos)) pos k))
      else bnd (assert (i < MAX_ORDER)) (\<lambda>_. case pop_block i k of (p, k) \<Rightarrow> Ok (split_block p (8 * (pos + 1)) (8 * (i - pos)) pos k)))"
  proof -
    have "(if (pos + 1) * 8 < PAGE_SIZE then PAGE_SIZE - (pos + 1) * 8 else 0) = 8 * (MAX_ORDER - 1 - pos)"
      using pos by (auto simp: diff_mult_distrib2)
    moreover have "(i + 1) * 8 - (pos + 1) * 8 = 8 * (i - pos)" by simp
    ultimately show ?thesis
      unfolding kalloc_def Let_def pos_def [symmetric] i_def [symmetric] by (simp only: mult.commute [of _ 8])
  qed
  show ?thesis
  proof (cases "i = MAX_ORDER")
    case True
    show ?thesis
    proof (cases ps)
      case Nil
      then show ?thesis using K True kalloc_page_rep(1) [OF rep] by simp
    next
      case (Cons p ps')
      show ?thesis
        by (rule carve_page [OF rep pos Cons]) (use K True in \<open>simp add: pos_def\<close>)
    qed
  next
    case False
    then have i': "i < MAX_ORDER" using i(2) by simp
    show ?thesis
      by (rule carve_block [OF rep i(1) i' i(3) [OF i']]) (use K False i' in \<open>simp add: pos_def\<close>)
  qed
qed

lemma kfree_rep:
  assumes rep: "mem_rep (PAGE_BASE e + PAGE_SIZE) ps fs L H k" and L: "(p, i) \<in> L"
  shows "\<exists>ps' fs' k'. kfree e (p + 8) k = Ok k' \<and> mem_rep (PAGE_BASE e + PAGE_SIZE) ps' fs' (L - {(p, i)}) H k' \<and>
    (\<forall>x. x < p \<or> p + 8 * (i + 1) \<le> x \<longrightarrow> ram k' x = ram k x)"
proof -
  note d = mem_repD [OF rep]
  have i: "i < MAX_ORDER" "load64 (ram k) p = of_nat i" using d(9,10) [OF L] by auto
  then have idx: "unat (ucast (load64 (ram k) p) :: u32) = i" by (simp add: unsigned_ucast_eq unat_of_nat take_bit_nat_eq_self)
  have "block_region LiveBlock (p, i) \<in> regions ps fs L H" using L by (simp add: regions_def)
  then have new: "(p, 8 * (i + 1)) \<notin> H" using held_fresh [OF rep, of LiveBlock p] by (simp add: block_region_def)
  have rep': "mem_rep (PAGE_BASE e + PAGE_SIZE) ps fs (L - {(p, i)}) (insert (p, 8 * (i + 1)) H) k"
    by (rule unmark_live_rep [OF rep L])
  show ?thesis
  proof (cases "i = MAX_ORDER - 1")
    case True
    then have sz: "8 * (i + 1) = PAGE_SIZE" by simp
    have "page_ref k (page_num p) \<le> 1" using d(11) [of p] L True by simp
    then have "mem_rep (PAGE_BASE e + PAGE_SIZE) (p # ps) fs (L - {(p, i)}) H (kfree_page e p k)"
      using kfree_page_rep(1) [OF rep' [unfolded sz] new [unfolded sz]] by blast
    moreover have "kfree e (p + 8) k = Ok (kfree_page e p k)" using True idx by (simp add: kfree_def)
    moreover have "ram (kfree_page e p k) x = ram k x" if "x < p \<or> p + PAGE_SIZE \<le> x" for x
      using that by (auto simp: kfree_page_def push_page_def push_node_def store64_def store_bytes_def Let_def)
    ultimately show ?thesis unfolding sz by blast
  next
    case False
    have "mem_rep (PAGE_BASE e + PAGE_SIZE) ps (fs[i := p # fs ! i]) (L - {(p, i)}) H (push_block i p k)"
      by (rule push_block_rep [OF rep' new]) (use i(1) False in simp)
    moreover have "kfree e (p + 8) k = Ok (push_block i p k)" using False idx i(1) by (simp add: kfree_def)
    moreover have "ram (push_block i p k) x = ram k x" if "x < p \<or> p + 8 * (i + 1) \<le> x" for x
      using that by (auto simp: push_block_def push_node_def store64_def store_bytes_def)
    ultimately show ?thesis by blast
  qed
qed

text \<open>A write to the payload of a live block.\<close>

lemma write_live_rep:
  assumes rep: "mem_rep lo ps fs L H k" and L: "(p, i) \<in> L" and w: "p + 8 \<le> q" "q + length bs \<le> p + 8 * (i + 1)"
  shows "mem_rep lo ps fs L H (k\<lparr>ram := store_bytes q bs (ram k)\<rparr>)"
proof (rule mem_rep_frame [OF rep])
  fix x assume "x \<in> own_words ps fs L"
  then obtain a n where x: "(a, x, n) \<in> regions ps fs L H" by (rule own_words_region)
  have "block_region LiveBlock (p, i) \<in> regions ps fs L H" using L by (simp add: regions_def)
  then have "(a, x, n) = (LiveBlock, p, 8 * (i + 1)) \<or> apart (a, x, n) (LiveBlock, p, 8 * (i + 1))"
    using all_apartD [OF mem_repD(12) [OF rep] x, of "(LiveBlock, p, 8 * (i + 1))"] unfolding block_region_def fst_conv snd_conv
    by blast
  moreover have "8 \<le> n" using mem_repD(13) [OF rep x] by (simp add: in_page_def)
  ultimately have "x + 8 \<le> q \<or> q + length bs \<le> x" using w by auto
  then show "load64 (store_bytes q bs (ram k)) x = load64 (ram k) x"
    by (intro load64_cong) (auto simp: store_bytes_def)
qed

section \<open>Start-up\<close>

lemma add_held_rep:
  assumes rep: "mem_rep lo ps fs L H k" and new: "in_page lo (Held, p, n)" "\<And>r. r \<in> regions ps fs L H \<Longrightarrow> apart (Held, p, n) r"
  shows "mem_rep lo ps fs L (insert (p, n) H) k"
proof -
  note d = mem_repD [OF rep]
  have "(Held, p, n) \<notin> regions ps fs L H" using new(2) [of "(Held, p, n)"] in_page_pos [OF new(1)] by auto
  then have a: "all_apart (regions ps fs L (insert (p, n) H))" using new(2) d(12) by (simp add: regions_held all_apart_insert)
  have b: "in_page lo r" if "r \<in> regions ps fs L (insert (p, n) H)" for r using that d(13) [of r] new(1) by (auto simp: regions_held)
  show ?thesis by (rule mem_repI) (use d a b in simp_all)
qed

lemma pages_top_aligned: "pages_top mod PAGE_SIZE = 0"
  by (simp add: pages_top_def P2K_def)

lemma init_pages_loop_rep:
  assumes "mem_rep lo ps fs L {} k" "lo \<le> p" "PAGE_SIZE dvd p" "\<And>a q n. (a, q, n) \<in> regions ps fs L {} \<Longrightarrow> q + n \<le> p"
  shows "\<exists>ps'. mem_rep lo ps' fs L {} (init_pages_loop p k)"
  using assms
proof (induction p k arbitrary: ps rule: init_pages_loop.induct)
  case (1 p k)
  show ?case
  proof (cases "p < pages_top")
    case False
    then show ?thesis using 1 by (subst init_pages_loop.simps) auto
  next
    case True
    have top: "p + PAGE_SIZE \<le> pages_top"
    proof -
      obtain a b where "p = PAGE_SIZE * a" "pages_top = PAGE_SIZE * b" using 1(4) pages_top_aligned by (auto simp: dvd_def)
      moreover from this have "a < b" using True by simp
      ultimately show ?thesis by simp
    qed
    then have "in_page lo (Held, p, PAGE_SIZE)" using 1(3,4) dvd_trans [of 8 PAGE_SIZE p] by (auto simp: in_page_def)
    then have "mem_rep lo ps fs L {(p, PAGE_SIZE)} k"
      by (rule add_held_rep [OF 1(2)]) (use 1(5) in fastforce)
    then have rep: "mem_rep lo (p # ps) fs L {} ((push_page p k)\<lparr>left_pages := left_pages k + 1\<rparr>)"
      by (rule push_page_rep) simp
    have "\<exists>ps'. mem_rep lo ps' fs L {} (init_pages_loop (p + PAGE_SIZE) ((push_page p k)\<lparr>left_pages := left_pages k + 1\<rparr>))"
    proof (rule 1(1) [OF True rep])
      show "q + n \<le> p + PAGE_SIZE" if "(a, q, n) \<in> regions (p # ps) fs L {}" for a q n
        using that 1(5) [of a q n] by (auto simp: regions_page)
    qed (use 1(3,4) in \<open>auto intro: dvd_add\<close>)
    then show ?thesis using True by (subst init_pages_loop.simps) simp
  qed
qed

text \<open>The statics of \<open>mem.c\<close> before the early initialisation: no free lists.\<close>

definition boot_mem :: "kmem \<Rightarrow> bool" where
  "boot_mem k \<longleftrightarrow> pages k = 0 \<and> free_mem k = replicate MAX_ORDER 0"

lemma init_pages_rep:
  assumes "boot_mem k" "KSPACE_MASK \<le> PAGE_BASE e"
  shows "\<exists>ps. mem_rep (PAGE_BASE e + PAGE_SIZE) ps (replicate MAX_ORDER []) {} {} (init_pages e k)"
proof -
  have r: "regions [] (replicate MAX_ORDER []) {} {} = {}"
    by (simp add: regions_def free_blocks_of_def)
  have "mem_rep (PAGE_BASE e + PAGE_SIZE) [] (replicate MAX_ORDER []) {} {}
      (k\<lparr>alloc_page_cnt := 0, left_pages := 0, zero_page_ptr := 0\<rparr>)"
    by (rule mem_repI) (use assms r in \<open>simp_all add: boot_mem_def all_apart_def\<close>)
  moreover have "PAGE_SIZE dvd PAGE_BASE e + PAGE_SIZE" 
    unfolding PAGE_BASE_def by (intro dvd_add) (simp_all add: dvd_minus_mod)
  ultimately show ?thesis unfolding init_pages_def by (rule init_pages_loop_rep [OF _ order_refl]) (metis r empty_iff)
qed

section \<open>Safety of the allocator\<close>

text \<open>
  Everything a kernel may do with the allocator: allocate and free blocks and pages, share a page
  by raising its reference count, and write to the memory it was given. \<open>L\<close> are the live blocks
  with their size index, \<open>H\<close> the pages in use.
\<close>

inductive mem_reachable :: "nat \<Rightarrow> (nat \<times> nat) set \<Rightarrow> (nat \<times> nat) set \<Rightarrow> kmem \<Rightarrow> bool" for e where
  boot: "boot_mem k \<Longrightarrow> KSPACE_MASK \<le> PAGE_BASE e \<Longrightarrow> mem_reachable e {} {} (init_pages e k)"
| alloc: "mem_reachable e L H k \<Longrightarrow> sz \<le> PAGE_SIZE - 8 \<Longrightarrow> kalloc sz k = Ok (r, k') \<Longrightarrow>
    mem_reachable e (insert (r - 8, get_idx (sz + 8)) L) H k'"
| free: "mem_reachable e L H k \<Longrightarrow> (p, i) \<in> L \<Longrightarrow> kfree e (p + 8) k = Ok k' \<Longrightarrow> mem_reachable e (L - {(p, i)}) H k'"
| alloc_page: "mem_reachable e L H k \<Longrightarrow> kalloc_page k = Ok (p, k') \<Longrightarrow> mem_reachable e L (insert (p, PAGE_SIZE) H) k'"
| free_page: "mem_reachable e L H k \<Longrightarrow> (p, PAGE_SIZE) \<in> H \<Longrightarrow>
    mem_reachable e L (if page_ref k (page_num p) \<le> 1 then H - {(p, PAGE_SIZE)} else H) (kfree_page e p k)"
| share: "mem_reachable e L H k \<Longrightarrow> (p, PAGE_SIZE) \<in> H \<Longrightarrow>
    mem_reachable e L H (k\<lparr>page_ref := (page_ref k)(page_num p := page_ref k (page_num p) + 1)\<rparr>)"
| write_block: "mem_reachable e L H k \<Longrightarrow> (p, i) \<in> L \<Longrightarrow> p + 8 \<le> q \<Longrightarrow> q + length bs \<le> p + 8 * (i + 1) \<Longrightarrow>
    mem_reachable e L H (k\<lparr>ram := store_bytes q bs (ram k)\<rparr>)"
| write_page: "mem_reachable e L H k \<Longrightarrow> (p, n) \<in> H \<Longrightarrow> p \<le> q \<Longrightarrow> q + length bs \<le> p + n \<Longrightarrow>
    mem_reachable e L H (k\<lparr>ram := store_bytes q bs (ram k)\<rparr>)"

lemma mem_reachable_rep:
  "mem_reachable e L H k \<Longrightarrow> \<exists>ps fs. mem_rep (PAGE_BASE e + PAGE_SIZE) ps fs L H k"
proof (induction rule: mem_reachable.induct)
  case (boot k)
  then show ?case using init_pages_rep by blast
next
  case (alloc L H k sz r k')
  then obtain ps fs where "mem_rep (PAGE_BASE e + PAGE_SIZE) ps fs L H k" by blast
  then have "carved (PAGE_BASE e + PAGE_SIZE) ps fs L H k (get_idx (sz + 8)) r k'"
    using kalloc_rep alloc by fastforce
  then obtain p ps' fs' where "r = p + 8" "mem_rep (PAGE_BASE e + PAGE_SIZE) ps' fs' (insert (p, get_idx (sz + 8)) L) H k'"
    unfolding carved_def by blast
  then show ?case by (metis add_diff_cancel_right')
next
  case (free L H k p i k')
  then show ?case using kfree_rep by fastforce
next
  case (alloc_page L H k p k')
  then obtain ps fs where rep: "mem_rep (PAGE_BASE e + PAGE_SIZE) ps fs L H k" by blast
  then show ?case using kalloc_page_rep [OF rep] alloc_page by (cases ps) fastforce+
next
  case (free_page L H k p)
  then obtain ps fs where "mem_rep (PAGE_BASE e + PAGE_SIZE) ps fs L (insert (p, PAGE_SIZE) (H - {(p, PAGE_SIZE)})) k"
    by (metis insert_Diff)
  note f = kfree_page_rep [OF this]
  show ?case
  proof (cases "page_ref k (page_num p) \<le> 1")
    case True
    then show ?thesis using f(1) by auto
  next
    case False
    then show ?thesis using f(2) free_page(2) by (auto simp: insert_absorb)
  qed
next
  case (share L H k p)
  then obtain ps fs where "mem_rep (PAGE_BASE e + PAGE_SIZE) ps fs L (insert (p, PAGE_SIZE) H) k" by (metis insert_absorb)
  note page_ref_rep [OF this, where c = "alloc_page_cnt k" and v = "page_ref k (page_num p) + 1"]
  moreover have "k\<lparr>alloc_page_cnt := alloc_page_cnt k, page_ref := f\<rparr> = k\<lparr>page_ref := f\<rparr>" for f by (cases k) simp
  ultimately show ?case using share(2) by (auto simp: insert_absorb)
next
  case (write_block L H k p i q bs)
  then show ?case using write_live_rep by blast
next
  case (write_page L H k p n q bs)
  then obtain ps fs where "mem_rep (PAGE_BASE e + PAGE_SIZE) ps fs L (insert (p, n) H) k" by (metis insert_absorb)
  from write_held_rep [OF this] show ?case using write_page(2-) by (auto simp: insert_absorb)
qed

lemma carved_apart:
  assumes rep: "mem_rep lo ps fs L H k" and c: "carved lo ps fs L H k pos r k'"
  shows "8 \<le> r" "in_page lo (LiveBlock, r - 8, 8 * (pos + 1))"
    and "\<And>p i. (p, i) \<in> L \<Longrightarrow> r + 8 * pos \<le> p \<or> p + 8 * (i + 1) \<le> r - 8"
    and "\<And>p n. (p, n) \<in> H \<Longrightarrow> r + 8 * pos \<le> p \<or> p + n \<le> r - 8"
    and "\<And>p i a. (p, i) \<in> L \<Longrightarrow> p \<le> a \<Longrightarrow> a < p + 8 * (i + 1) \<Longrightarrow> ram k' a = ram k a"
    and "\<And>p n a. (p, n) \<in> H \<Longrightarrow> p \<le> a \<Longrightarrow> a < p + n \<Longrightarrow> ram k' a = ram k a"
proof -
  obtain p0 n0 ps' fs' a0 where c: "r = p0 + 8" "mem_rep lo ps' fs' (insert (p0, pos) L) H k'"
    "(a0, p0, n0) \<in> regions ps fs L H" "a0 \<in> {FreePage, FreeBlock}" "8 * (pos + 1) \<le> n0"
    "\<And>x. x < p0 \<or> p0 + n0 \<le> x \<Longrightarrow> ram k' x = ram k x"
    using c unfolding carved_def by blast
  show "8 \<le> r" using c(1) by simp
  show "in_page lo (LiveBlock, r - 8, 8 * (pos + 1))"
    using mem_repD(13) [OF c(2), of "block_region LiveBlock (p0, pos)"] c(1) by (simp add: regions_live block_region_def)
  have L: "p0 + n0 \<le> p \<or> p + 8 * (i + 1) \<le> p0" if "(p, i) \<in> L" for p i
    using all_apartD [OF mem_repD(12) [OF rep] c(3) live_region [OF that]] c(4) by auto
  have H: "p0 + n0 \<le> p \<or> p + n \<le> p0" if "(p, n) \<in> H" for p n
  proof -
    have "(Held, p, n) \<in> regions ps fs L H" using that by (simp add: regions_def)
    then show ?thesis using all_apartD [OF mem_repD(12) [OF rep] c(3), of "(Held, p, n)"] c(4) by auto
  qed
  show "r + 8 * pos \<le> p \<or> p + 8 * (i + 1) \<le> r - 8" if "(p, i) \<in> L" for p i using L [OF that] c(1,5) by auto
  show "r + 8 * pos \<le> p \<or> p + n \<le> r - 8" if "(p, n) \<in> H" for p n using H [OF that] c(1,5) by auto
  show "ram k' a = ram k a" if "(p, i) \<in> L" "p \<le> a" "a < p + 8 * (i + 1)" for p i a
    using L [OF that(1)] that(2,3) by (intro c(6)) auto
  show "ram k' a = ram k a" if "(p, n) \<in> H" "p \<le> a" "a < p + n" for p n a
    using H [OF that(1)] that(2,3) by (intro c(6)) auto
qed

text \<open>
  C31: the block allocator is memory-safe. After any sequence of allocations, releases, page sharing
  and writes inside allocated memory that starts from the initial free list, \<open>kalloc\<close> of at most
  4088 bytes succeeds while a free page is left, and the block it returns is aligned, lies with its
  header inside one page, overlaps no live block and no page in use, and no byte of those changes;
  \<open>kfree\<close> of a live block succeeds and changes no byte outside that block.
\<close>

theorem kalloc_safe:
  assumes "mem_reachable e L H k" "sz \<le> PAGE_SIZE - 8"
  shows "(left_page_cnt k > 0 \<longrightarrow> (\<exists>r k'. kalloc sz k = Ok (r, k'))) \<and>
    (\<forall>r k'. kalloc sz k = Ok (r, k') \<longrightarrow>
       8 dvd r \<and> 8 \<le> r \<and> (r - 8) mod PAGE_SIZE + 8 + sz \<le> PAGE_SIZE \<and>
       (\<forall>(p, i)\<in>L. (r + sz \<le> p \<or> p + 8 * (i + 1) \<le> r - 8) \<and> (\<forall>a\<in>{p..<p + 8 * (i + 1)}. ram k' a = ram k a)) \<and>
       (\<forall>(p, n)\<in>H. (r + sz \<le> p \<or> p + n \<le> r - 8) \<and> (\<forall>a\<in>{p..<p + n}. ram k' a = ram k a))) \<and>
    (\<forall>(p, i)\<in>L. \<exists>k'. kfree e (p + 8) k = Ok k' \<and> (\<forall>a. a \<notin> {p..<p + 8 * (i + 1)} \<longrightarrow> ram k' a = ram k a))"
proof -
  obtain ps fs where rep: "mem_rep (PAGE_BASE e + PAGE_SIZE) ps fs L H k" using mem_reachable_rep [OF assms(1)] by blast
  have ok: "\<exists>r k'. kalloc sz k = Ok (r, k')" if "left_page_cnt k > 0"
    using kalloc_rep [OF rep assms(2)] mem_repD(4) [OF rep] that by (auto simp: left_page_cnt_def)
  define pos where "pos = get_idx (sz + 8)"
  have pos: "sz \<le> 8 * pos" using get_idx_bounds [of "sz + 8"] by (simp add: pos_def)
  have post: "8 dvd r \<and> 8 \<le> r \<and> (r - 8) mod PAGE_SIZE + 8 + sz \<le> PAGE_SIZE \<and>
       (\<forall>(p, i)\<in>L. (r + sz \<le> p \<or> p + 8 * (i + 1) \<le> r - 8) \<and> (\<forall>a\<in>{p..<p + 8 * (i + 1)}. ram k' a = ram k a)) \<and>
       (\<forall>(p, n)\<in>H. (r + sz \<le> p \<or> p + n \<le> r - 8) \<and> (\<forall>a\<in>{p..<p + n}. ram k' a = ram k a))"
    if "kalloc sz k = Ok (r, k')" for r k'
  proof -
    have "carved (PAGE_BASE e + PAGE_SIZE) ps fs L H k pos r k'"
      using kalloc_rep [OF rep assms(2)] that by (auto simp: pos_def)
    note c = carved_apart [OF rep this]
    have "8 dvd (r - 8) + 8" using c(2) by (intro dvd_add) (simp_all add: in_page_def)
    then have "8 dvd r" using c(1) by simp
    moreover have "(r - 8) mod PAGE_SIZE + 8 + sz \<le> PAGE_SIZE" using c(2) pos by (simp add: in_page_def)
    moreover have "r + sz \<le> p \<or> p + 8 * (i + 1) \<le> r - 8" if "(p, i) \<in> L" for p i
      using c(3) [OF that] pos by linarith
    moreover have "r + sz \<le> p \<or> p + n \<le> r - 8" if "(p, n) \<in> H" for p n using c(4) [OF that] pos by linarith
    ultimately show ?thesis using c(1,5,6) by auto
  qed
  have "\<exists>k'. kfree e (p + 8) k = Ok k' \<and> (\<forall>a. a \<notin> {p..<p + 8 * (i + 1)} \<longrightarrow> ram k' a = ram k a)" if "(p, i) \<in> L" for p i
    using kfree_rep [OF rep that] by (auto simp: not_less)
  then show ?thesis using ok post by blast
qed

lemma left_pages_init: "left_pages k \<le> left_pages (init_pages_loop p k)"
proof (induction p k rule: init_pages_loop.induct)
  case (1 p k)
  then show ?case by (cases "p < pages_top") (simp_all add: init_pages_loop.simps [of p k])
qed

theorem kalloc_safe_witness:
  "let e = KSPACE_MASK + 0x100000;
       k = init_pages e \<lparr>alloc_page_cnt = 7, left_pages = 7, pages = 0, free_mem = replicate MAX_ORDER 0,
             zero_page_ptr = 0, page_ref = (\<lambda>_. 0), ram = (\<lambda>_. 85)\<rparr>
   in \<exists>r k'. kalloc 100 k = Ok (r, k') \<and> 8 dvd r"
proof -
  let ?e = "KSPACE_MASK + 0x100000"
  let ?b = "\<lparr>alloc_page_cnt = 7, left_pages = 7, pages = 0, free_mem = replicate MAX_ORDER 0,
             zero_page_ptr = 0, page_ref = (\<lambda>_. 0), ram = (\<lambda>_. 85)\<rparr>"
  have base: "PAGE_BASE ?e = ?e" by (simp add: PAGE_BASE_def)
  have r: "mem_reachable ?e {} {} (init_pages ?e ?b)"
    by (rule mem_reachable.boot) (simp add: boot_mem_def, simp add: PAGE_BASE_def)
  have "?e + PAGE_SIZE < pages_top" by (simp add: pages_top_def P2K_def)
  then have "left_page_cnt (init_pages ?e ?b) \<ge> 1"
    unfolding init_pages_def base left_page_cnt_def
    by (subst init_pages_loop.simps) (simp add: order_trans [OF _ left_pages_init])
  then show ?thesis using kalloc_safe [OF r, of 100] unfolding Let_def by fastforce
qed

section \<open>Swapping a page out and in\<close>

text \<open>A block written straight to the device: the cache and the disk both hold the new data.\<close>

lemma write_through:
  assumes inv: "cache_inv s" and n: "n \<notin> held s" and d: "length d = BLOCK_SIZE"
  obtains s1 s2 s3 where "cache_acquire n s = Ok s1" "cache_sync None n (put_data n d s1) = Ok (None, s2)"
    "cache_release n s2 = Ok s3" "cache_inv s3" "held s3 = held s" "lview s3 = (lview s)(n := d)"
    "swap_bitmap s3 = swap_bitmap s"
proof -
  obtain s1 where s1: "cache_acquire n s = Ok s1" "cache_inv s1" "lview s1 = lview s" "held s1 = insert n (held s)" "env s1 = env s"
    using bc.acquire_ok [OF inv n] by auto
  have h: "n \<in> held s1" using s1(4) by simp
  note w = bc.write_ok [OF s1(2) h d]
  let ?s = "put_data n d s1"
  have gd: "get_data n ?s = d" using bc.data_ok [of n ?s] w h by simp
  have blk: "block_at (device_write n ?s) = block_at ?s" "disk (device_write n ?s) = (disk ?s)(n := d)"
    by (simp_all add: device_write_def dev_write_def block_at_def gd fun_eq_iff)
  have v: "lview (device_write n ?s) = lview ?s"
  proof (rule ext)
    fix m
    have "block_at ?s n \<noteq> None" using h w by (auto simp: held_def)
    then show "lview (device_write n ?s) m = lview ?s m" by (cases "m = n") (auto simp: lview_def blk split: option.splits)
  qed
  have hd: "held (device_write n ?s) = held ?s" by (simp add: held_def blk)
  have inv2: "cache_inv (device_write n ?s)"
  proof -
    have "cache_inv ?s" using w by blast
    note c = cache_invD [OF this]
    have "coherent (device_write n ?s)"
    proof -
      have "n \<in> held ?s" using w h by simp
      then obtain b where "block_at ?s n = Some b" "b_acquired b" by (auto simp: held_def)
      then show ?thesis using c(3) unfolding coherent_def blk by auto
    qed
    moreover have "blocks_ok (device_write n ?s)" using c(2) d unfolding blocks_ok_def blk by auto
    moreover have "lru_ok (device_write n ?s)" "log_ok (device_write n ?s)"
      using c(1,4) by (simp_all add: lru_ok_def log_ok_def logged_def pinned_def blk) (simp_all add: device_write_def dev_write_def)
    ultimately show ?thesis by (simp add: cache_inv_def)
  qed
  have cl: "clean n (device_write n ?s)" using v w by (simp add: clean_def blk)
  obtain s3 where s3: "cache_release n (device_write n ?s) = Ok s3" "cache_inv s3" "lview s3 = lview (device_write n ?s)"
    "held s3 = held (device_write n ?s) - {n}" "env s3 = env (device_write n ?s)"
    using bc.release_ok [OF inv2 _ cl] hd w h by auto
  show thesis
  proof (rule that [OF s1(1) _ s3(1,2)])
    show "cache_sync None n ?s = Ok (None, device_write n ?s)" by (simp add: cache_sync_def)
    show "held s3 = held s" using s3(4) hd w s1(4) n by auto
    show "lview s3 = (lview s)(n := d)" using s3(3) v w s1(3) by simp
    have "env ?s = env s" using w s1(5) by simp
    then show "swap_bitmap s3 = swap_bitmap s" using s3(5) by (simp add: env_def device_write_def dev_write_def)
  qed
qed

abbreviation page_block :: "memory \<Rightarrow> nat \<Rightarrow> nat \<Rightarrow> u8 list" where
  "page_block m ka i \<equiv> load_bytes m (ka + i * BLOCK_SIZE) BLOCK_SIZE"

lemma write_page_loop:
  assumes inv: "cache_inv s" and free: "\<And>i. i < 8 \<Longrightarrow> bno + i \<notin> held s"
  shows "\<exists>s'. mfold (\<lambda>i s. bnd (cache_acquire (bno + i) s) (\<lambda>s.
            bnd (cache_sync None (bno + i) (put_data (bno + i) (page_block m ka i) s)) (\<lambda>(_, s).
              cache_release (bno + i) s))) [0..<8] s = Ok s' \<and>
    cache_inv s' \<and> held s' = held s \<and> swap_bitmap s' = swap_bitmap s \<and>
    lview s' = (\<lambda>n. if bno \<le> n \<and> n - bno \<in> set [0..<8] then page_block m ka (n - bno) else lview s n)"
proof (rule mfold_invariant)
  show "cache_inv s \<and> held s = held s \<and> swap_bitmap s = swap_bitmap s \<and>
    lview s = (\<lambda>n. if bno \<le> n \<and> n - bno \<in> set [] then page_block m ka (n - bno) else lview s n)"
    using inv by simp
next
  fix ys y zs t
  assume xs: "[0..<8] = ys @ y # zs" and t: "cache_inv t \<and> held t = held s \<and> swap_bitmap t = swap_bitmap s \<and>
    lview t = (\<lambda>n. if bno \<le> n \<and> n - bno \<in> set ys then page_block m ka (n - bno) else lview s n)"
  have "y \<in> set [0..<8]" unfolding xs by simp
  then have "bno + y \<notin> held t" using free t by simp
  then obtain t1 t2 t3 where u: "cache_acquire (bno + y) t = Ok t1"
    "cache_sync None (bno + y) (put_data (bno + y) (page_block m ka y) t1) = Ok (None, t2)"
    "cache_release (bno + y) t2 = Ok t3" "cache_inv t3" "held t3 = held t"
    "lview t3 = (lview t)(bno + y := page_block m ka y)" "swap_bitmap t3 = swap_bitmap t"
    using write_through [of t "bno + y" "page_block m ka y"] t by auto
  moreover have "lview t3 = (\<lambda>n. if bno \<le> n \<and> n - bno \<in> set (ys @ [y]) then page_block m ka (n - bno) else lview s n)"
    unfolding u(6) using t by (auto simp: fun_eq_iff)
  ultimately show "\<exists>s'. bnd (cache_acquire (bno + y) t) (\<lambda>s.
      bnd (cache_sync None (bno + y) (put_data (bno + y) (page_block m ka y) s)) (\<lambda>(_, s). cache_release (bno + y) s)) = Ok s' \<and>
    cache_inv s' \<and> held s' = held s \<and> swap_bitmap s' = swap_bitmap s \<and>
    lview s' = (\<lambda>n. if bno \<le> n \<and> n - bno \<in> set (ys @ [y]) then page_block m ka (n - bno) else lview s n)"
    using t by auto
qed

lemma read_page_loop:
  assumes inv: "cache_inv s" and free: "\<And>i. i < 8 \<Longrightarrow> bno + i \<notin> held s"
  shows "\<exists>r. mfold (\<lambda>i (m, s). bnd (cache_acquire (bno + i) s) (\<lambda>s.
              let m = store_bytes (ka + i * BLOCK_SIZE) (get_data (bno + i) s) m
              in bnd (cache_release (bno + i) s) (\<lambda>s. Ok (m, s)))) [0..<8] (m, s) = Ok r \<and>
    (case r of (m', s') \<Rightarrow> cache_inv s' \<and> held s' = held s \<and> swap_bitmap s' = swap_bitmap s \<and> lview s' = lview s \<and>
      (\<forall>i\<in>set [0..<8]. page_block m' ka i = lview s (bno + i)) \<and>
      (\<forall>a. a < ka \<or> ka + PAGE_SIZE \<le> a \<longrightarrow> m' a = m a))"
proof (rule mfold_invariant)
  show "case (m, s) of (m', s') \<Rightarrow> cache_inv s' \<and> held s' = held s \<and> swap_bitmap s' = swap_bitmap s \<and> lview s' = lview s \<and>
      (\<forall>i\<in>set []. page_block m' ka i = lview s (bno + i)) \<and> (\<forall>a. a < ka \<or> ka + PAGE_SIZE \<le> a \<longrightarrow> m' a = m a)"
    using inv by simp
next
  fix ys y zs r
  assume xs: "[0..<8] = ys @ y # zs" and t: "case r of (m', s') \<Rightarrow> cache_inv s' \<and> held s' = held s \<and>
      swap_bitmap s' = swap_bitmap s \<and> lview s' = lview s \<and>
      (\<forall>i\<in>set ys. page_block m' ka i = lview s (bno + i)) \<and> (\<forall>a. a < ka \<or> ka + PAGE_SIZE \<le> a \<longrightarrow> m' a = m a)"
  obtain m1 t where r: "r = (m1, t)" by (cases r)
  have "y \<in> set [0..<8]" unfolding xs by simp
  moreover have "distinct (ys @ y # zs)" by (metis distinct_upt xs)
  ultimately have y: "y < 8" "y \<notin> set ys" "bno + y \<notin> held t" using free t r by auto
  obtain t1 t2 where u: "cache_acquire (bno + y) t = Ok t1" "get_data (bno + y) t1 = lview t (bno + y)"
    "cache_release (bno + y) t1 = Ok t2" "cache_inv t2" "lview t2 = lview t" "held t2 = held t" "env t2 = env t"
    using bc.read_block [of t "bno + y"] t y(3) r by (metis (no_types, lifting) case_prodD)
  have len: "length (lview s (bno + y)) = BLOCK_SIZE" using bc.length_view [OF inv] by simp
  let ?m = "store_bytes (ka + y * BLOCK_SIZE) (lview s (bno + y)) m1"
  have "page_block ?m ka i = lview s (bno + i)" if "i \<in> set (ys @ [y])" for i
  proof (cases "i = y")
    case True
    then show ?thesis using len by (simp add: load_store_same)
  next
    case False
    then have "page_block ?m ka i = page_block m1 ka i"
      using slots_disjoint [of i y BLOCK_SIZE] len by (intro load_store_disjoint) auto
    then show ?thesis using t r that False by simp
  qed
  moreover have "?m a = m a" if "a < ka \<or> ka + PAGE_SIZE \<le> a" for a
    using that t r y(1) len by (auto simp: store_bytes_def)
  ultimately show "\<exists>s'. (case r of (m, s) \<Rightarrow> bnd (cache_acquire (bno + y) s) (\<lambda>s.
      let m = store_bytes (ka + y * BLOCK_SIZE) (get_data (bno + y) s) m
      in bnd (cache_release (bno + y) s) (\<lambda>s. Ok (m, s)))) = Ok s' \<and>
    (case s' of (m', s') \<Rightarrow> cache_inv s' \<and> held s' = held s \<and> swap_bitmap s' = swap_bitmap s \<and> lview s' = lview s \<and>
      (\<forall>i\<in>set (ys @ [y]). page_block m' ka i = lview s (bno + i)) \<and> (\<forall>a. a < ka \<or> ka + PAGE_SIZE \<le> a \<longrightarrow> m' a = m a))"
    using u t r by (simp add: env_def)
qed

lemma swap_bitmap_upd:
  "cache_inv (s\<lparr>swap_bitmap := x\<rparr>) \<longleftrightarrow> cache_inv s" "held (s\<lparr>swap_bitmap := x\<rparr>) = held s" "lview (s\<lparr>swap_bitmap := x\<rparr>) = lview s"
  by (simp_all add: cache_inv_def lru_ok_def blocks_ok_def coherent_def log_ok_def logged_def pinned_def
      held_def lview_def block_at_def fun_eq_iff split: option.splits)

lemma release_8_blocks_keeps:
  "cache_inv (release_8_blocks b s) \<longleftrightarrow> cache_inv s" "held (release_8_blocks b s) = held s" "lview (release_8_blocks b s) = lview s"
  by (simp_all add: release_8_blocks_def swap_bitmap_upd)

lemma find_and_set_8_blocks_keeps:
  assumes "find_and_set_8_blocks s = Ok (b, s')"
  shows "cache_inv s' \<longleftrightarrow> cache_inv s" "held s' = held s" "lview s' = lview s"
proof -
  obtain bm where "s' = s\<lparr>swap_bitmap := bm\<rparr>"
    using assms by (auto simp: find_and_set_8_blocks_def bnd_eq_Ok simp del: upt_rec_numeral)
  then show "cache_inv s' \<longleftrightarrow> cache_inv s" "held s' = held s" "lview s' = lview s" by (simp_all add: swap_bitmap_upd)
qed

lemma swap_used_cong: "swap_bitmap s = swap_bitmap t \<Longrightarrow> swap_used s = swap_used t"
  by (simp add: swap_used_def fun_eq_iff)

lemma page_blocks_eq:
  assumes "\<And>i. i < 8 \<Longrightarrow> page_block m' ka' i = page_block m ka i"
  shows "load_bytes m' ka' PAGE_SIZE = load_bytes m ka PAGE_SIZE"
proof (rule nth_equalityI)
  fix j assume "j < length (load_bytes m' ka' PAGE_SIZE)"
  then have j: "j < PAGE_SIZE" by simp
  have "page_block m' ka' (j div BLOCK_SIZE) ! (j mod BLOCK_SIZE) = page_block m ka (j div BLOCK_SIZE) ! (j mod BLOCK_SIZE)"
    using assms [of "j div BLOCK_SIZE"] j by simp
  then have "m' (ka' + j) = m (ka + j)" by (simp add: load_bytes_def add.assoc)
  then show "load_bytes m' ka' PAGE_SIZE ! j = load_bytes m ka PAGE_SIZE ! j" using j by (simp add: load_bytes_def)
qed simp

text \<open>
  C32: a page survives the trip to the swap area. While eight consecutive swap blocks are free and no
  swap block is held, \<open>write_page_to_disk\<close> stores the page in eight free swap blocks, which
  become used, and changes no other block; \<open>read_page_from_disk\<close> at any later frame restores exactly the
  4096 bytes there, changes no other memory, and leaves the swap blocks free as before.
\<close>

theorem swap_page_roundtrip:
  assumes "cache_inv s" "length (swap_bitmap s) = 32" "\<forall>n. SWAP_START \<le> n \<and> n < SWAP_END \<longrightarrow> n \<notin> held s"
    and "SWAP_START \<le> r0" "r0 + 8 \<le> SWAP_END" "\<forall>j. r0 \<le> j \<and> j < r0 + 8 \<longrightarrow> \<not> swap_used s j"
  shows "\<exists>bno s'. write_page_to_disk ka m s = Ok (bno, s') \<and> SWAP_START \<le> bno \<and> bno + 8 \<le> SWAP_END \<and>
    (\<forall>j\<in>{SWAP_START..<SWAP_END}. swap_used s' j \<longleftrightarrow> swap_used s j \<or> bno \<le> j \<and> j < bno + 8) \<and>
    (\<forall>j. bno \<le> j \<and> j < bno + 8 \<longrightarrow> \<not> swap_used s j) \<and> (\<forall>n. n < bno \<or> bno + 8 \<le> n \<longrightarrow> lview s' n = lview s n) \<and>
    (\<forall>ka' m1. \<exists>m2 s2. read_page_from_disk ka' bno m1 s' = Ok (m2, s2) \<and>
       load_bytes m2 ka' PAGE_SIZE = load_bytes m ka PAGE_SIZE \<and> (\<forall>a. a < ka' \<or> ka' + PAGE_SIZE \<le> a \<longrightarrow> m2 a = m1 a) \<and>
       (\<forall>j\<in>{SWAP_START..<SWAP_END}. swap_used s2 j \<longleftrightarrow> swap_used s j) \<and> cache_inv s2 \<and> lview s2 = lview s')"
proof -
  note [simp del] = upt_rec_numeral
  obtain bno s1 where f: "find_and_set_8_blocks s = Ok (bno, s1)" "SWAP_START \<le> bno" "bno + 8 \<le> SWAP_END"
    "\<forall>j. bno \<le> j \<and> j < bno + 8 \<longrightarrow> \<not> swap_used s j"
    "\<forall>j\<in>{SWAP_START..<SWAP_END}. swap_used s1 j \<longleftrightarrow> swap_used s j \<or> bno \<le> j \<and> j < bno + 8"
    "\<forall>j\<in>{SWAP_START..<SWAP_END}. swap_used (release_8_blocks bno s1) j \<longleftrightarrow> swap_used s j"
    using swap_blocks_correct [OF assms(2,4-6)] by blast
  note k = find_and_set_8_blocks_keeps [OF f(1)]
  have free: "bno + i \<notin> held s1" if "i < 8" for i
  proof -
    have "SWAP_START \<le> bno + i" "bno + i < SWAP_END" using that f(2,3) by linarith+
    then show ?thesis using k(2) assms(3) by blast
  qed
  obtain s' where w: "write_page_to_disk ka m s = Ok (bno, s')" "cache_inv s'" "held s' = held s1" "swap_bitmap s' = swap_bitmap s1"
    "lview s' = (\<lambda>n. if bno \<le> n \<and> n - bno \<in> set [0..<8] then page_block m ka (n - bno) else lview s1 n)"
    using write_page_loop [of s1 bno m ka] assms(1) k(1) free f(1) by (auto simp: write_page_to_disk_def)
  have r: "\<exists>m2 s2. read_page_from_disk ka' bno m1 s' = Ok (m2, s2) \<and>
       load_bytes m2 ka' PAGE_SIZE = load_bytes m ka PAGE_SIZE \<and> (\<forall>a. a < ka' \<or> ka' + PAGE_SIZE \<le> a \<longrightarrow> m2 a = m1 a) \<and>
       (\<forall>j\<in>{SWAP_START..<SWAP_END}. swap_used s2 j \<longleftrightarrow> swap_used s j) \<and> cache_inv s2 \<and> lview s2 = lview s'" for ka' m1
  proof -
    obtain m2 t where r: "read_page_from_disk ka' bno m1 s' = Ok (m2, release_8_blocks bno t)" "cache_inv t"
      "swap_bitmap t = swap_bitmap s'" "lview t = lview s'" "\<And>i. i < 8 \<Longrightarrow> page_block m2 ka' i = lview s' (bno + i)"
      "\<forall>a. a < ka' \<or> ka' + PAGE_SIZE \<le> a \<longrightarrow> m2 a = m1 a"
      using read_page_loop [of s' bno ka' m1] w(2,3) free by (auto simp: read_page_from_disk_def)
    have "page_block m2 ka' i = page_block m ka i" if "i < 8" for i using r(5) [OF that] that by (simp add: w(5))
    then have "load_bytes m2 ka' PAGE_SIZE = load_bytes m ka PAGE_SIZE" by (rule page_blocks_eq)
    moreover have "swap_used (release_8_blocks bno t) = swap_used (release_8_blocks bno s1)"
      by (rule swap_used_cong) (simp add: release_8_blocks_def r(3) w(4))
    ultimately show ?thesis using r f(6) by (auto simp: release_8_blocks_keeps)
  qed
  have "swap_used s' = swap_used s1" by (rule swap_used_cong [OF w(4)])
  moreover have "lview s' n = lview s n" if "n < bno \<or> bno + 8 \<le> n" for n using that by (auto simp: w(5) k(3))
  ultimately show ?thesis using w(1) f(2-5) r by auto
qed

theorem swap_page_roundtrip_witness:
  "\<exists>bno s' m2 s2. write_page_to_disk 4096 (\<lambda>a. of_nat a) (fresh_cache demo_sb demo_disk) = Ok (bno, s') \<and>
     read_page_from_disk 8192 bno (\<lambda>_. 0) s' = Ok (m2, s2) \<and> load_bytes m2 8192 PAGE_SIZE = load_bytes (\<lambda>a. of_nat a) 4096 PAGE_SIZE"
proof -
  have z: "swap_bitmap (fresh_cache demo_sb demo_disk) = bytes_of (replicate 4 0)"
    by (simp add: fresh_cache_def bytes_of_def le_bytes_def numeral_eq_Suc)
  have "\<not> swap_used (fresh_cache demo_sb demo_disk) j" if "800 \<le> j" "j < 808" for j
    using that bitmap_get_zero [of "j - 800" 4] by (simp add: swap_used_def z)
  then have free: "\<forall>j. 800 \<le> j \<and> j < 800 + 8 \<longrightarrow> \<not> swap_used (fresh_cache demo_sb demo_disk) j" by simp
  have lo: "SWAP_START \<le> 800" and hi: "800 + 8 \<le> SWAP_END" by simp_all
  have len: "length (swap_bitmap (fresh_cache demo_sb demo_disk)) = 32" by (simp add: z)
  have h: "\<forall>n. SWAP_START \<le> n \<and> n < SWAP_END \<longrightarrow> n \<notin> held (fresh_cache demo_sb demo_disk)" by simp
  obtain bno s' where w: "write_page_to_disk 4096 (\<lambda>a. of_nat a) (fresh_cache demo_sb demo_disk) = Ok (bno, s')"
    and r: "\<forall>ka' m1. \<exists>m2 s2. read_page_from_disk ka' bno m1 s' = Ok (m2, s2) \<and>
       load_bytes m2 ka' PAGE_SIZE = load_bytes (\<lambda>a. of_nat a) 4096 PAGE_SIZE"
    using swap_page_roundtrip [OF demo_inv len h lo hi free, of 4096 "\<lambda>a. of_nat a"]
    by (elim exE conjE) (rule that, assumption, meson)
  from r obtain m2 s2 where "read_page_from_disk 8192 bno (\<lambda>_. 0) s' = Ok (m2, s2)"
    "load_bytes m2 8192 PAGE_SIZE = load_bytes (\<lambda>a. of_nat a) 4096 PAGE_SIZE" by blast
  with w show ?thesis by blast
qed

end
