(* ===== verification/RBTree.thy ===== *)
theory RBTree
  imports Kernel_Prelude "HOL-Library.Multiset"
begin

text \<open>
  The intrusive red-black tree (\<open>common/rbtree.c\<close>): nodes are addresses, a tree is the memory of
  the nodes together with the root pointer. The parent pointer and the colour share a word. The two
  mirror-image branches of the source are one definition with the side as a parameter. A loop that
  follows pointers is a \<open>partial_function\<close>: \<open>None\<close> means that it does not return.
\<close>

section \<open>Nodes\<close>

record rb_node_ =
  parent_color :: u64
  rb_right :: u64
  rb_left :: u64

record rb_tree =
  rb_nodes :: "u64 \<Rightarrow> rb_node_"
  rb_root :: u64

datatype side = SL | SR

primrec opp :: "side \<Rightarrow> side" where
  "opp SL = SR"
| "opp SR = SL"

primrec kid_of :: "side \<Rightarrow> rb_node_ \<Rightarrow> u64" where
  "kid_of SL n = rb_left n"
| "kid_of SR n = rb_right n"

primrec with_kid :: "side \<Rightarrow> u64 \<Rightarrow> rb_node_ \<Rightarrow> rb_node_" where
  "with_kid SL p n = n\<lparr>rb_left := p\<rparr>"
| "with_kid SR p n = n\<lparr>rb_right := p\<rparr>"

definition upd_node :: "u64 \<Rightarrow> (rb_node_ \<Rightarrow> rb_node_) \<Rightarrow> rb_tree \<Rightarrow> rb_tree" where
  "upd_node a f h = h\<lparr>rb_nodes := (rb_nodes h)(a := f (rb_nodes h a))\<rparr>"

definition rb_child :: "side \<Rightarrow> u64 \<Rightarrow> rb_tree \<Rightarrow> u64" where
  "rb_child d a h = kid_of d (rb_nodes h a)"

definition set_child :: "side \<Rightarrow> u64 \<Rightarrow> u64 \<Rightarrow> rb_tree \<Rightarrow> rb_tree" where
  "set_child d a p = upd_node a (with_kid d p)"

definition pcw :: "u64 \<Rightarrow> rb_tree \<Rightarrow> u64" where
  "pcw a h = parent_color (rb_nodes h a)"

definition set_pc :: "u64 \<Rightarrow> u64 \<Rightarrow> rb_tree \<Rightarrow> rb_tree" where
  "set_pc a v = upd_node a (\<lambda>n. n\<lparr>parent_color := v\<rparr>)"

abbreviation RB_RED :: u64 where "RB_RED \<equiv> 0"
abbreviation RB_BLACK :: u64 where "RB_BLACK \<equiv> 1"

definition parent_of_pc :: "u64 \<Rightarrow> u64" where
  "parent_of_pc v = v AND NOT 3"

definition is_black_pc :: "u64 \<Rightarrow> bool" where
  "is_black_pc v \<longleftrightarrow> v AND 1 \<noteq> 0"

definition rb_parent :: "u64 \<Rightarrow> rb_tree \<Rightarrow> u64" where
  "rb_parent a h = parent_of_pc (pcw a h)"

definition rb_color :: "u64 \<Rightarrow> rb_tree \<Rightarrow> u64" where
  "rb_color a h = pcw a h AND 1"

definition rb_is_black :: "u64 \<Rightarrow> rb_tree \<Rightarrow> bool" where
  "rb_is_black a h = is_black_pc (pcw a h)"

definition rb_is_red :: "u64 \<Rightarrow> rb_tree \<Rightarrow> bool" where
  "rb_is_red a h = (\<not> is_black_pc (pcw a h))"

definition rb_set_black :: "u64 \<Rightarrow> rb_tree \<Rightarrow> rb_tree" where
  "rb_set_black a h = set_pc a (pcw a h OR RB_BLACK) h"

definition rb_red_parent :: "u64 \<Rightarrow> rb_tree \<Rightarrow> u64" where
  "rb_red_parent a h = pcw a h"

definition rb_set_parent :: "u64 \<Rightarrow> u64 \<Rightarrow> rb_tree \<Rightarrow> rb_tree" where
  "rb_set_parent a p h = set_pc a (rb_color a h OR p) h"

definition rb_set_parent_color :: "u64 \<Rightarrow> u64 \<Rightarrow> u64 \<Rightarrow> rb_tree \<Rightarrow> rb_tree" where
  "rb_set_parent_color a p color h = set_pc a (p OR color) h"

text \<open>\<open>if (tmp) rb_set_parent_color(tmp, p, color)\<close>\<close>

definition paint_if :: "u64 \<Rightarrow> u64 \<Rightarrow> u64 \<Rightarrow> rb_tree \<Rightarrow> rb_tree" where
  "paint_if a p color h = (if a \<noteq> 0 then rb_set_parent_color a p color h else h)"

definition rb_change_child :: "u64 \<Rightarrow> u64 \<Rightarrow> u64 \<Rightarrow> rb_tree \<Rightarrow> rb_tree" where
  "rb_change_child old new parent h =
     (if parent \<noteq> 0
      then if rb_child SL parent h = old then set_child SL parent new h else set_child SR parent new h
      else h\<lparr>rb_root := new\<rparr>)"

definition rb_rotate_set_parents :: "u64 \<Rightarrow> u64 \<Rightarrow> u64 \<Rightarrow> rb_tree \<Rightarrow> rb_tree" where
  "rb_rotate_set_parents old new color h =
     (let parent = rb_parent old h;
          h = set_pc new (pcw old h) h;
          h = rb_set_parent_color old new color h
      in rb_change_child old new parent h)"

section \<open>Insertion\<close>

text \<open>
  The rotations of \<open>__rb_insert_fix\<close> when the uncle is black; \<open>parent\<close> is the child of \<open>gparent\<close>
  on side \<open>d\<close>. Case 2 turns an inner node into an outer one, case 3 rotates at the grandparent.
\<close>

definition insert_inner :: "side \<Rightarrow> u64 \<Rightarrow> u64 \<Rightarrow> rb_tree \<Rightarrow> rb_tree" where
  "insert_inner d node parent h =
     (let tmp = rb_child d node h;
          h = set_child (opp d) parent tmp h;
          h = paint_if tmp parent RB_BLACK h;
          h = set_child d node parent h
      in rb_set_parent_color parent node RB_RED h)"

definition insert_outer :: "side \<Rightarrow> u64 \<Rightarrow> u64 \<Rightarrow> u64 \<Rightarrow> rb_tree \<Rightarrow> rb_tree" where
  "insert_outer d parent gparent tmp h =
     (let h = set_child d gparent tmp h;
          h = paint_if tmp gparent RB_BLACK h;
          h = set_child (opp d) parent gparent h
      in rb_rotate_set_parents gparent parent RB_RED h)"

definition insert_rotate :: "side \<Rightarrow> u64 \<Rightarrow> u64 \<Rightarrow> u64 \<Rightarrow> rb_tree \<Rightarrow> rb_tree" where
  "insert_rotate d node parent gparent h =
     (let tmp = rb_child (opp d) parent h
      in if node = tmp
         then let h = insert_inner d node parent h in insert_outer d node gparent (rb_child (opp d) node h) h
         else insert_outer d parent gparent tmp h)"

partial_function (option) rb_insert_fix :: "u64 \<Rightarrow> u64 \<Rightarrow> rb_tree \<Rightarrow> rb_tree option" where
  "rb_insert_fix node parent h =
     (if parent = 0 then Some ((rb_set_parent_color node 0 RB_BLACK h)\<lparr>rb_root := node\<rparr>)
      else if rb_is_black parent h then Some h
      else
        let gparent = rb_red_parent parent h;
            tmp = rb_child SR gparent h;
            d = (if parent \<noteq> tmp then SL else SR);
            tmp = rb_child (opp d) gparent h
        in if tmp \<noteq> 0 \<and> rb_is_red tmp h
           then
             let h = rb_set_parent_color tmp gparent RB_BLACK h;
                 h = rb_set_parent_color parent gparent RB_BLACK h;
                 parent = rb_parent gparent h;
                 h = rb_set_parent_color gparent parent RB_RED h
             in rb_insert_fix gparent parent h
           else Some (insert_rotate d node parent gparent h))"

partial_function (option) rb_insert_loop ::
  "(u64 \<Rightarrow> u64 \<Rightarrow> bool) \<Rightarrow> u64 \<Rightarrow> u64 \<Rightarrow> rb_tree \<Rightarrow> (bool \<times> rb_tree) option" where
  "rb_insert_loop cmp node nw h =
     (if nw = 0 then Some (True, h)
      else
        let d = (if cmp node nw then Some SL else if cmp nw node then Some SR else None)
        in case d of
             None \<Rightarrow> Some (False, h)
           | Some d \<Rightarrow>
               let nw' = rb_child d nw h;
                   h = (if nw' = 0 then set_pc node nw (set_child d nw node h) else h)
               in rb_insert_loop cmp node nw' h)"

definition rb_insert :: "(u64 \<Rightarrow> u64 \<Rightarrow> bool) \<Rightarrow> u64 \<Rightarrow> rb_tree \<Rightarrow> (int \<times> rb_tree) option" where
  "rb_insert cmp node h =
     (let nw = rb_root h;
          h = set_child SL node 0 (set_child SR node 0 h);
          h = set_pc node 0 h
      in Option.bind (rb_insert_loop cmp node nw h) (\<lambda>(fresh, h).
           if fresh then map_option (Pair 0) (rb_insert_fix node (rb_red_parent node h) h)
           else Some (-1, h)))"

section \<open>Removal\<close>

partial_function (option) leftmost_below :: "u64 \<Rightarrow> u64 \<Rightarrow> u64 \<Rightarrow> rb_tree \<Rightarrow> (u64 \<times> u64) option" where
  "leftmost_below parent successor tmp h =
     (if tmp = 0 then Some (parent, successor) else leftmost_below successor tmp (rb_child SL tmp h) h)"

text \<open>\<open>__rb_erase\<close> for a node with two children, after the search of the successor.\<close>

definition erase_splice :: "u64 \<Rightarrow> u64 \<Rightarrow> u64 \<Rightarrow> u64 \<Rightarrow> rb_tree \<Rightarrow> u64 \<times> rb_tree" where
  "erase_splice node successor parent child2 h =
     (let tmp = rb_child SL node h;
          h = set_child SL successor tmp h;
          h = rb_set_parent tmp successor h;
          v = pcw node h;
          h = rb_change_child node successor (parent_of_pc v) h
      in if child2 \<noteq> 0
         then (0, rb_set_parent_color child2 parent RB_BLACK (set_pc successor v h))
         else
           let pc2 = pcw successor h;
               h = set_pc successor v h
           in (if is_black_pc pc2 then parent else 0, h))"

definition rb_erase_node :: "u64 \<Rightarrow> rb_tree \<Rightarrow> (u64 \<times> rb_tree) option" where
  "rb_erase_node node h =
     (let right = rb_child SR node h;
          tmp = rb_child SL node h
      in if tmp = 0 then
           let v = pcw node h;
               parent = parent_of_pc v;
               h = rb_change_child node right parent h
           in Some (if right \<noteq> 0 then (0, set_pc right v h) else (if is_black_pc v then parent else 0, h))
         else if right = 0 then
           let v = pcw node h;
               h = set_pc tmp v h
           in Some (0, rb_change_child node tmp (parent_of_pc v) h)
         else if rb_child SL right h = 0
         then Some (erase_splice node right right (rb_child SR right h) h)
         else
           Option.bind (leftmost_below right right (rb_child SL right h) h) (\<lambda>(parent, successor).
             let child2 = rb_child SR successor h;
                 h = set_child SL parent child2 h;
                 h = set_child SR successor right h;
                 h = rb_set_parent right successor h
             in Some (erase_splice node successor parent child2 h)))"

text \<open>
  One turn of \<open>__rb_erase_fix\<close>, where the subtree of \<open>parent\<close> on side \<open>d\<close> is short of a black
  node: the red sibling, then the recolouring or the rotations. The result says whether the loop
  goes on with the parent.
\<close>

definition erase_red_sibling :: "side \<Rightarrow> u64 \<Rightarrow> u64 \<Rightarrow> rb_tree \<Rightarrow> u64 \<times> rb_tree" where
  "erase_red_sibling d parent sibling h =
     (if rb_is_red sibling h then
        let tmp1 = rb_child d sibling h;
            h = set_child (opp d) parent tmp1 h;
            h = rb_set_parent_color tmp1 parent RB_BLACK h;
            h = set_child d sibling parent h;
            h = rb_rotate_set_parents parent sibling RB_RED h
        in (tmp1, h)
      else (sibling, h))"

definition erase_rotate :: "side \<Rightarrow> u64 \<Rightarrow> u64 \<Rightarrow> u64 \<Rightarrow> rb_tree \<Rightarrow> rb_tree" where
  "erase_rotate d parent sibling tmp1 h =
     (let tmp2 = rb_child d sibling h;
          h = set_child (opp d) parent tmp2 h;
          h = (if tmp2 \<noteq> 0 then rb_set_parent tmp2 parent h else h);
          h = set_child d sibling parent h;
          h = rb_set_parent_color tmp1 sibling RB_BLACK h
      in rb_rotate_set_parents parent sibling RB_BLACK h)"

definition erase_inner_red :: "side \<Rightarrow> u64 \<Rightarrow> u64 \<Rightarrow> u64 \<Rightarrow> rb_tree \<Rightarrow> rb_tree" where
  "erase_inner_red d parent sibling tmp2 h =
     (let tmp1 = rb_child (opp d) tmp2 h;
          h = set_child d sibling tmp1 h;
          h = paint_if tmp1 sibling RB_BLACK h;
          h = set_child (opp d) tmp2 sibling h
      in set_child (opp d) parent tmp2 h)"

definition black_or_null :: "u64 \<Rightarrow> rb_tree \<Rightarrow> bool" where
  "black_or_null a h \<longleftrightarrow> a = 0 \<or> rb_is_black a h"

partial_function (option) rb_erase_fix :: "u64 \<Rightarrow> u64 \<Rightarrow> rb_tree \<Rightarrow> rb_tree option" where
  "rb_erase_fix node parent h =
     (let sibling = rb_child SR parent h;
          d = (if node \<noteq> sibling then SL else SR);
          (sibling, h) = erase_red_sibling d parent (rb_child (opp d) parent h) h;
          tmp1 = rb_child (opp d) sibling h;
          tmp2 = rb_child d sibling h
      in if black_or_null tmp1 h then
           if black_or_null tmp2 h then
             let h = rb_set_parent_color sibling parent RB_RED h
             in if rb_is_red parent h then Some (rb_set_black parent h)
                else
                  let node = parent;
                      parent = rb_parent node h
                  in if parent \<noteq> 0 then rb_erase_fix node parent h else Some h
           else Some (erase_rotate d parent tmp2 sibling (erase_inner_red d parent sibling tmp2 h))
         else Some (erase_rotate d parent sibling tmp1 h))"

definition rb_erase :: "u64 \<Rightarrow> rb_tree \<Rightarrow> rb_tree option" where
  "rb_erase node h =
     Option.bind (rb_erase_node node h) (\<lambda>(rebalance, h).
       if rebalance \<noteq> 0 then rb_erase_fix 0 rebalance h else Some h)"

section \<open>Search\<close>

partial_function (option) rb_lookup_loop :: "(u64 \<Rightarrow> u64 \<Rightarrow> bool) \<Rightarrow> u64 \<Rightarrow> u64 \<Rightarrow> rb_tree \<Rightarrow> u64 option" where
  "rb_lookup_loop cmp node nw h =
     (if nw = 0 then Some 0
      else if cmp node nw then rb_lookup_loop cmp node (rb_child SL nw h) h
      else if cmp nw node then rb_lookup_loop cmp node (rb_child SR nw h) h
      else Some nw)"

definition rb_lookup :: "(u64 \<Rightarrow> u64 \<Rightarrow> bool) \<Rightarrow> u64 \<Rightarrow> rb_tree \<Rightarrow> u64 option" where
  "rb_lookup cmp node h = rb_lookup_loop cmp node (rb_root h) h"

partial_function (option) rb_first_loop :: "u64 \<Rightarrow> rb_tree \<Rightarrow> u64 option" where
  "rb_first_loop n h = (if rb_child SL n h = 0 then Some n else rb_first_loop (rb_child SL n h) h)"

definition rb_first :: "rb_tree \<Rightarrow> u64 option" where
  "rb_first h = (if rb_root h = 0 then Some 0 else rb_first_loop (rb_root h) h)"

section \<open>Abstract trees\<close>

text \<open>
  A tree of node addresses, and the path from a subtree up to the root: a frame records the side
  on which the subtree hangs, the colour and address of the node above it and the other subtree.
\<close>

datatype color = Red | Black

datatype rtree = Leaf | Node color rtree u64 rtree

datatype frame = Frame side color u64 rtree

primrec bit_of :: "color \<Rightarrow> u64" where
  "bit_of Red = RB_RED"
| "bit_of Black = RB_BLACK"

primrec root_of :: "rtree \<Rightarrow> u64" where
  "root_of Leaf = 0"
| "root_of (Node c l a r) = a"

primrec col :: "rtree \<Rightarrow> color" where
  "col Leaf = Black"
| "col (Node c l a r) = c"

primrec inorder :: "rtree \<Rightarrow> u64 list" where
  "inorder Leaf = []"
| "inorder (Node c l a r) = inorder l @ a # inorder r"

primrec mk :: "side \<Rightarrow> color \<Rightarrow> rtree \<Rightarrow> u64 \<Rightarrow> rtree \<Rightarrow> rtree" where
  "mk SL c near a far = Node c near a far"
| "mk SR c near a far = Node c far a near"

fun plug :: "rtree \<Rightarrow> frame list \<Rightarrow> rtree" where
  "plug t [] = t"
| "plug t (Frame d c a s # k) = plug (mk d c t a s) k"

primrec paint :: "color \<Rightarrow> rtree \<Rightarrow> rtree" where
  "paint c Leaf = Leaf"
| "paint c (Node c' l a r) = Node c l a r"

text \<open>Every path has the same number of black nodes, and a red node has black children.\<close>

primrec bal :: "nat \<Rightarrow> rtree \<Rightarrow> bool" where
  "bal n Leaf \<longleftrightarrow> n = 0"
| "bal n (Node c l a r) \<longleftrightarrow> (if c = Black then n > 0 \<and> bal (n - 1) l \<and> bal (n - 1) r else bal n l \<and> bal n r)"

primrec no_red_red :: "rtree \<Rightarrow> bool" where
  "no_red_red Leaf \<longleftrightarrow> True"
| "no_red_red (Node c l a r) \<longleftrightarrow> (c = Red \<longrightarrow> col l = Black \<and> col r = Black) \<and> no_red_red l \<and> no_red_red r"

definition rbt_ok :: "rtree \<Rightarrow> bool" where
  "rbt_ok t \<longleftrightarrow> (\<exists>n. bal n t) \<and> no_red_red t \<and> col t = Black"

fun kbal :: "nat \<Rightarrow> frame list \<Rightarrow> bool" where
  "kbal n [] \<longleftrightarrow> True"
| "kbal n (Frame d c a s # k) \<longleftrightarrow> bal n s \<and> kbal (if c = Black then n + 1 else n) k"

fun kcol :: "frame list \<Rightarrow> color" where
  "kcol [] = Red"
| "kcol (Frame d c a s # k) = c"

fun kok :: "frame list \<Rightarrow> bool" where
  "kok [] \<longleftrightarrow> True"
| "kok (Frame d c a s # k) \<longleftrightarrow> no_red_red s \<and> (c = Red \<longrightarrow> col s = Black \<and> kcol k = Black) \<and> kok k"

section \<open>Reading and writing nodes\<close>

named_theorems rb_simps

lemma opp_simps [simp]: "opp (opp d) = d" "opp d \<noteq> d" "d \<noteq> opp d"
  by (cases d; simp)+

lemma with_kid_simps: "kid_of d (with_kid e p n) = (if d = e then p else kid_of d n)" "parent_color (with_kid e p n) = parent_color n"
  by (cases d; cases e; simp) (cases e; simp)

lemma kid_parent_color: "kid_of d (n\<lparr>parent_color := v\<rparr>) = kid_of d n"
  by (cases d) simp_all

lemma set_child_simps [rb_simps]:
  "rb_child d a (set_child e b p h) = (if a = b \<and> d = e then p else rb_child d a h)"
  "pcw a (set_child e b p h) = pcw a h" "rb_root (set_child e b p h) = rb_root h"
  by (auto simp: rb_child_def pcw_def set_child_def upd_node_def with_kid_simps)

lemma set_pc_simps [rb_simps]:
  "rb_child d a (set_pc b v h) = rb_child d a h" "pcw a (set_pc b v h) = (if a = b then v else pcw a h)"
  "rb_root (set_pc b v h) = rb_root h"
  by (auto simp: rb_child_def pcw_def set_pc_def upd_node_def kid_parent_color)

lemma set_root_simps [rb_simps]:
  "rb_child d a (h\<lparr>rb_root := p\<rparr>) = rb_child d a h" "pcw a (h\<lparr>rb_root := p\<rparr>) = pcw a h" "rb_root (h\<lparr>rb_root := p\<rparr>) = p"
  by (simp_all add: rb_child_def pcw_def)

definition addr_ok :: "u64 \<Rightarrow> bool" where
  "addr_ok a \<longleftrightarrow> a \<noteq> 0 \<and> a AND 3 = 0"

lemma addr_ok_bits:
  assumes "p = 0 \<or> addr_ok p"
  shows "\<not> bit p 0" "\<not> bit p 1"
proof -
  have "p AND 3 = 0" using assms by (auto simp: addr_ok_def)
  then have b: "\<And>n. bit p n \<Longrightarrow> bit (3 :: u64) n \<Longrightarrow> False" by (metis bit_0_eq bit_and_iff bot_apply bot_bool_def)
  show "\<not> bit p 0" "\<not> bit p 1" using b [of 0] b [of 1] by (auto simp: bit_1_iff bit_numeral_rec)
qed

lemma pc_decode [rb_simps]:
  assumes "p = 0 \<or> addr_ok p"
  shows "parent_of_pc (p OR bit_of c) = p" "is_black_pc (p OR bit_of c) \<longleftrightarrow> c = Black" "(p OR bit_of c) AND 1 = bit_of c"
proof -
  note b = addr_ok_bits [OF assms]
  have three: "bit (3 :: u64) n \<longleftrightarrow> n = 0 \<or> n = 1" for n
    by (cases n; cases "n - 1") (auto simp: bit_numeral_rec bit_1_iff)
  show "parent_of_pc (p OR bit_of c) = p"
    unfolding parent_of_pc_def using b
    by (cases c; intro bit_eqI; simp only: bit_and_iff bit_or_iff bit_not_iff bit_1_iff bit_0_eq three bit_of.simps) (auto intro: gr0I)
  show one: "(p OR bit_of c) AND 1 = bit_of c"
    using b by (cases c; intro bit_eqI) (auto simp: bit_and_iff bit_or_iff bit_1_iff intro: gr0I)
  show "is_black_pc (p OR bit_of c) \<longleftrightarrow> c = Black" unfolding is_black_pc_def one by (cases c) auto
qed

section \<open>Trees in memory\<close>

primrec rep :: "rb_tree \<Rightarrow> u64 \<Rightarrow> rtree \<Rightarrow> bool" where
  "rep h p Leaf \<longleftrightarrow> True"
| "rep h p (Node c l a r) \<longleftrightarrow> pcw a h = p OR bit_of c \<and> rb_child SL a h = root_of l \<and> rb_child SR a h = root_of r \<and>
     rep h a l \<and> rep h a r"

fun kpar :: "frame list \<Rightarrow> u64" where
  "kpar [] = 0"
| "kpar (Frame d c a s # k) = a"

fun krep :: "rb_tree \<Rightarrow> u64 \<Rightarrow> frame list \<Rightarrow> bool" where
  "krep h p [] \<longleftrightarrow> rb_root h = p"
| "krep h p (Frame d c a s # k) \<longleftrightarrow> pcw a h = kpar k OR bit_of c \<and> rb_child d a h = p \<and>
     rb_child (opp d) a h = root_of s \<and> rep h a s \<and> krep h a k"

fun kaddrs :: "frame list \<Rightarrow> u64 list" where
  "kaddrs [] = []"
| "kaddrs (Frame d c a s # k) = a # inorder s @ kaddrs k"

definition zrep :: "rb_tree \<Rightarrow> rtree \<Rightarrow> frame list \<Rightarrow> bool" where
  "zrep h t k \<longleftrightarrow> rep h (kpar k) t \<and> krep h (root_of t) k \<and> distinct (inorder t @ kaddrs k) \<and>
     (\<forall>a\<in>set (inorder t @ kaddrs k). addr_ok a)"

lemma mk_simps [simp]:
  "root_of (mk d c t a s) = a" "col (mk d c t a s) = c" "set (inorder (mk d c t a s)) = insert a (set (inorder t) \<union> set (inorder s))"
  "rep h p (mk d c t a s) \<longleftrightarrow> pcw a h = p OR bit_of c \<and> rb_child d a h = root_of t \<and> rb_child (opp d) a h = root_of s \<and> rep h a t \<and> rep h a s"
  "distinct (inorder (mk d c t a s)) \<longleftrightarrow> distinct (inorder t) \<and> distinct (inorder s) \<and> a \<notin> set (inorder t) \<and> a \<notin> set (inorder s) \<and>
     set (inorder t) \<inter> set (inorder s) = {}"
  "no_red_red (mk d c t a s) \<longleftrightarrow> (c = Red \<longrightarrow> col t = Black \<and> col s = Black) \<and> no_red_red t \<and> no_red_red s"
  "bal n (mk d c t a s) \<longleftrightarrow> (if c = Black then n > 0 \<and> bal (n - 1) t \<and> bal (n - 1) s else bal n t \<and> bal n s)"
  by (cases d; auto)+

lemma zrep_step: "zrep h t (Frame d c a s # k) \<longleftrightarrow> zrep h (mk d c t a s) k"
  by (auto simp: zrep_def)

lemma zrep_plug: "zrep h t k \<longleftrightarrow> zrep h (plug t k) []"
  by (induction t k rule: plug.induct) (simp_all add: zrep_step)

definition same :: "rb_tree \<Rightarrow> rb_tree \<Rightarrow> u64 \<Rightarrow> bool" where
  "same h h' a \<longleftrightarrow> pcw a h' = pcw a h \<and> (\<forall>d. rb_child d a h' = rb_child d a h)"

lemma rep_frame: "rep h p t \<Longrightarrow> (\<And>a. a \<in> set (inorder t) \<Longrightarrow> same h h' a) \<Longrightarrow> rep h' p t"
  by (induction t arbitrary: p) (auto simp: same_def)

lemma krep_frame:
  "krep h p k \<Longrightarrow> (\<And>a. a \<in> set (kaddrs k) \<Longrightarrow> same h h' a) \<Longrightarrow> rb_root h' = rb_root h \<Longrightarrow> krep h' p k"
proof (induction h p k rule: krep.induct)
  case (2 h p d c a s k)
  have "rep h' a s" by (rule rep_frame [of h]) (use 2(2,3) in simp_all)
  moreover have "krep h' a k" by (rule 2(1)) (use 2(2-) in simp_all)
  ultimately show ?case using 2(2) 2(3) [of a] by (simp add: same_def)
qed simp

lemma root_of_in: "root_of t = 0 \<or> root_of t \<in> set (inorder t)"
  by (cases t) auto

lemma change_child_simps [rb_simps]:
  "pcw a (rb_change_child old new p h) = pcw a h"
  "rb_child d a (rb_change_child old new p h) =
     (if a = p \<and> p \<noteq> 0 \<and> d = (if rb_child SL p h = old then SL else SR) then new else rb_child d a h)"
  "p \<noteq> 0 \<Longrightarrow> rb_root (rb_change_child old new p h) = rb_root h"
  by (auto simp: rb_change_child_def rb_simps)

text \<open>Replacing the subtree at the hole: the frame above points to the new root.\<close>

lemma change_child_krep:
  assumes k: "krep h old k" "distinct (kaddrs k)" "\<forall>a\<in>set (kaddrs k). addr_ok a" and old: "old \<noteq> 0" "old \<notin> set (kaddrs k)"
  shows "krep (rb_change_child old new (kpar k) h) new k"
proof (cases k)
  case Nil
  then show ?thesis by (simp add: rb_change_child_def)
next
  case (Cons f k')
  obtain d c a s where f: "f = Frame d c a s" by (cases f)
  let ?h = "rb_change_child old new a h"
  have a: "a \<noteq> 0" "a \<notin> set (inorder s)" "a \<notin> set (kaddrs k')" "root_of s \<noteq> old"
    using k old root_of_in [of s] by (auto simp: Cons f addr_ok_def)
  have ch: "rb_child d a ?h = new" "rb_child (opp d) a ?h = root_of s"
    using k(1) a(1,4) by (cases d; simp add: Cons f rb_change_child_def rb_simps)+
  have "rep ?h a s" by (rule rep_frame [of h]) (use k(1) a in \<open>auto simp: Cons f same_def rb_simps\<close>)
  moreover have "krep ?h a k'"
    by (rule krep_frame [of h]) (use k(1) a in \<open>auto simp: Cons f same_def rb_simps\<close>)
  ultimately show ?thesis using k(1) ch by (simp add: Cons f rb_simps)
qed

lemma kpar_ok: "\<forall>a\<in>set (kaddrs k). addr_ok a \<Longrightarrow> kpar k = 0 \<or> addr_ok (kpar k)"
  by (cases k rule: kpar.cases) auto

lemma kpar_in: "kpar k = 0 \<or> kpar k \<in> set (kaddrs k)"
  by (cases k rule: kpar.cases) auto

lemma kpar_zero: "\<forall>a\<in>set (kaddrs k). addr_ok a \<Longrightarrow> kpar k = 0 \<longleftrightarrow> k = []"
  by (cases k rule: kpar.cases) (auto simp: addr_ok_def)

text \<open>
  A rotation that makes \<open>new\<close> the root of the subtree that \<open>old\<close> was the root of: the rest of the
  tree sees the new root, which takes over the parent and the colour.
\<close>

lemma rotate_set_parents:
  fixes w :: u64
  assumes k: "krep h old k" "distinct (kaddrs k)" "\<forall>a\<in>set (kaddrs k). addr_ok a"
    and old: "old \<noteq> 0" "old \<notin> set (kaddrs k)" "new \<notin> set (kaddrs k)" "pcw old h = kpar k OR bit_of c" and "old \<noteq> new"
  defines "h' \<equiv> rb_rotate_set_parents old new w h"
  shows "krep h' new k" "pcw new h' = kpar k OR bit_of c" "pcw old h' = new OR w"
    "\<And>a d. a \<notin> set (kaddrs k) \<Longrightarrow> rb_child d a h' = rb_child d a h"
    "\<And>a. a \<noteq> old \<Longrightarrow> a \<noteq> new \<Longrightarrow> a \<notin> set (kaddrs k) \<Longrightarrow> same h h' a"
proof -
  let ?h = "rb_set_parent_color old new w (set_pc new (pcw old h) h)"
  have par: "rb_parent old h = kpar k" by (simp add: rb_parent_def old(4) rb_simps kpar_ok [OF k(3)])
  have h': "h' = rb_change_child old new (kpar k) ?h" by (simp add: h'_def rb_rotate_set_parents_def par)
  have "krep ?h old k"
    by (rule krep_frame [OF k(1)]) (use old in \<open>auto simp: same_def rb_set_parent_color_def rb_simps\<close>)
  then show "krep h' new k" unfolding h' using change_child_krep k(2,3) old(1,2) by blast
  show "pcw new h' = kpar k OR bit_of c" "pcw old h' = new OR w"
    using assms(8) old(4) by (simp_all add: h' rb_set_parent_color_def rb_simps)
  have p: "\<And>a. a \<noteq> old \<Longrightarrow> a \<noteq> new \<Longrightarrow> pcw a h' = pcw a h"
    by (simp add: h' rb_set_parent_color_def rb_simps)
  show c: "rb_child d a h' = rb_child d a h" if "a \<notin> set (kaddrs k)" for a d
    using that kpar_in [of k] by (auto simp: h' rb_set_parent_color_def rb_simps)
  show "same h h' a" if "a \<noteq> old" "a \<noteq> new" "a \<notin> set (kaddrs k)" for a
    using p [OF that(1,2)] c [OF that(3)] by (simp add: same_def)
qed

lemma paint_if_simps [rb_simps]:
  "pcw a (paint_if b p v h) = (if a = b \<and> b \<noteq> 0 then p OR v else pcw a h)" "rb_child d a (paint_if b p v h) = rb_child d a h"
  "rb_root (paint_if b p v h) = rb_root h"
  by (auto simp: paint_if_def rb_set_parent_color_def rb_simps)

lemma set_parent_color_simps [rb_simps]:
  "pcw a (rb_set_parent_color b p v h) = (if a = b then p OR v else pcw a h)"
  "rb_child d a (rb_set_parent_color b p v h) = rb_child d a h" "rb_root (rb_set_parent_color b p v h) = rb_root h"
  by (auto simp: rb_set_parent_color_def rb_simps)

text \<open>A subtree that gets a new parent and, being black, is painted black.\<close>

lemma rep_adopt:
  assumes "rep h p t" "distinct (inorder t)" "\<And>a. a \<in> set (inorder t) \<Longrightarrow> a \<noteq> root_of t \<Longrightarrow> same h h' a"
    "\<And>d. rb_child d (root_of t) h' = rb_child d (root_of t) h" "root_of t \<noteq> 0 \<Longrightarrow> pcw (root_of t) h' = q OR bit_of c"
    "0 \<notin> set (inorder t)"
  shows "rep h' q (paint c t)"
proof (cases t)
  case (Node c' l a r)
  have "rep h' a l" by (rule rep_frame [of h]) (use assms Node in auto)
  moreover have "rep h' a r" by (rule rep_frame [of h]) (use assms Node in auto)
  ultimately show ?thesis using assms Node by auto
qed simp

lemma paint_simps [simp]: "root_of (paint c t) = root_of t" "inorder (paint c t) = inorder t" "col t = c \<Longrightarrow> paint c t = t"
  "no_red_red t \<Longrightarrow> no_red_red (paint Black t)" "col (paint Black t) = Black"
  by (cases t; simp)+

lemma zrepD:
  assumes "zrep h t k"
  shows "rep h (kpar k) t" "krep h (root_of t) k" "distinct (inorder t)" "distinct (kaddrs k)" "set (inorder t) \<inter> set (kaddrs k) = {}"
    "\<And>a. a \<in> set (inorder t) \<Longrightarrow> addr_ok a" "\<forall>a\<in>set (kaddrs k). addr_ok a" "0 \<notin> set (inorder t)" "0 \<notin> set (kaddrs k)"
  using assms by (auto simp: zrep_def addr_ok_def)

lemma heap_eqI:
  assumes "\<And>a. pcw a h = pcw a h'" "\<And>a d. rb_child d a h = rb_child d a h'" "rb_root h = rb_root h'"
  shows "h = h'"
proof -
  have "rb_nodes h a = rb_nodes h' a" for a
    using assms(1) [of a] assms(2) [of SL a] assms(2) [of SR a] by (simp add: pcw_def rb_child_def)
  then show ?thesis using assms(3) by (cases h; cases h') (auto simp: fun_eq_iff)
qed

lemma rotate_simps:
  "pcw a (rb_rotate_set_parents old new w h) = (if a = old then new OR w else if a = new then pcw old h else pcw a h)"
  "rb_child d a (rb_rotate_set_parents old new w h) =
     (if a = rb_parent old h \<and> rb_parent old h \<noteq> 0 \<and> d = (if rb_child SL (rb_parent old h) h = old then SL else SR)
      then new else rb_child d a h)"
  "rb_root (rb_rotate_set_parents old new w h) = (if rb_parent old h = 0 then new else rb_root h)"
  by (simp_all add: rb_rotate_set_parents_def Let_def rb_simps) (simp add: rb_change_child_def rb_simps)

lemma rotate_cong:
  assumes "pcw old h = pcw old h'" "\<And>a. a \<noteq> new \<Longrightarrow> pcw a h = pcw a h'" "\<And>a d. rb_child d a h = rb_child d a h'" "rb_root h = rb_root h'"
  shows "rb_rotate_set_parents old new w h = rb_rotate_set_parents old new w h'"
  by (rule heap_eqI) (simp_all add: rotate_simps rb_parent_def assms)

lemma inorder_plug_cong: "inorder t = inorder t' \<Longrightarrow> inorder (plug t k) = inorder (plug t' k)"
proof (induction t k arbitrary: t' rule: plug.induct)
  case (2 t d c a s k)
  then have "inorder (mk d c t a s) = inorder (mk d c t' a s)" by (cases d) simp_all
  then show ?case using 2 by simp
qed simp

lemma Node_as_mk: "Node c l a r = mk d c (if d = SL then l else r) a (if d = SL then r else l)"
  by (cases d) simp_all

lemma plug_bal: "bal n t \<Longrightarrow> kbal n k \<Longrightarrow> \<exists>m. bal m (plug t k)"
proof (induction t k arbitrary: n rule: plug.induct)
  case (2 t d c a s k)
  have "bal (if c = Black then n + 1 else n) (mk d c t a s)" using 2 by auto
  then show ?case using 2 by auto
qed auto

lemma plug_no_red_red: "no_red_red t \<Longrightarrow> kok k \<Longrightarrow> (col t = Red \<Longrightarrow> kcol k = Black) \<Longrightarrow> no_red_red (plug t k)"
proof (induction t k rule: plug.induct)
  case (2 t d c a s k)
  then show ?case using color.exhaust [of "col t"] by (auto simp: split: if_splits)
qed auto

lemma plug_col: "kok k \<Longrightarrow> (k = [] \<Longrightarrow> col t = Black) \<Longrightarrow> col (plug t k) = Black"
proof (induction t k rule: plug.induct)
  case (2 t d c a s k)
  then show ?case by (cases c; cases k) auto
qed auto

lemma plug_rbt_ok:
  assumes "bal n t" "kbal n k" "no_red_red t" "kok k" "col t = Red \<Longrightarrow> kcol k = Black"
  shows "rbt_ok (plug t k)"
proof -
  have "k = [] \<Longrightarrow> col t = Black" using assms(5) by (cases "col t") auto
  then show ?thesis using plug_bal assms plug_no_red_red plug_col by (auto simp: rbt_ok_def)
qed

text \<open>The nodes before and after the hole, in order.\<close>

fun kl :: "frame list \<Rightarrow> u64 list" where
  "kl [] = []"
| "kl (Frame d c a s # k) = kl k @ (if d = SR then inorder s @ [a] else [])"

fun kr :: "frame list \<Rightarrow> u64 list" where
  "kr [] = []"
| "kr (Frame d c a s # k) = (if d = SL then a # inorder s else []) @ kr k"

lemma inorder_plug: "inorder (plug t k) = kl k @ inorder t @ kr k"
proof (induction t k rule: plug.induct)
  case (2 t d c a s k)
  then show ?case by (cases d) auto
qed simp

lemma set_kaddrs: "set (kaddrs k) = set (kl k) \<union> set (kr k)"
proof (induction k rule: kl.induct)
  case (2 d c a s k)
  then show ?case by (cases d) auto
qed simp

lemma zrep_same:
  assumes "zrep h t k" "\<And>a. a \<in> set (inorder t) \<union> set (kaddrs k) \<Longrightarrow> same h h' a" "rb_root h' = rb_root h"
  shows "zrep h' t k"
proof -
  note D = zrepD [OF assms(1)]
  have "rep h' (kpar k) t" by (rule rep_frame [OF D(1)]) (use assms(2) in auto)
  moreover have "krep h' (root_of t) k" by (rule krep_frame [OF D(2)]) (use assms(2,3) in auto)
  ultimately show ?thesis using assms(1) by (simp add: zrep_def)
qed

text \<open>A rearrangement of the same nodes keeps them distinct.\<close>

lemma mset_mk: "mset (inorder (mk d c t a s)) = add_mset a (mset (inorder t) + mset (inorder s))"
  by (cases d) simp_all

lemma zrep_perm:
  assumes "zrep h t k" "rep h' (kpar k') t'" "krep h' (root_of t') k'"
    "mset (inorder t') + mset (kaddrs k') = mset (inorder t) + mset (kaddrs k)"
  shows "zrep h' t' k'"
proof -
  have m: "mset (inorder t' @ kaddrs k') = mset (inorder t @ kaddrs k)" using assms(4) by simp
  have "distinct (inorder t' @ kaddrs k')" using assms(1) mset_eq_imp_distinct_iff [OF m] by (simp only: zrep_def)
  moreover have "set (inorder t' @ kaddrs k') = set (inorder t @ kaddrs k)" by (rule mset_eq_setD [OF m])
  ultimately show ?thesis using assms(1-3) unfolding zrep_def by metis
qed

end
