(* ===== verification/RBTree_Insert.thy ===== *)
theory RBTree_Insert
  imports RBTree
begin

text \<open>
  Insertion into the red-black tree: the pointer code leaves a red-black tree with the node added
  in its place.
\<close>

section \<open>Insertion is correct\<close>

lemma insert_outer_rep:
  assumes z: "zrep h A (Frame d Red p s # Frame d Black g u # k)" and s: "col s = Black"
  shows "zrep (insert_outer d p g (root_of s) h) (mk d Black A p (mk d Red s g u)) k"
proof -
  note D = zrepD [OF z]
  have g: "g \<noteq> p" "g \<notin> set (kaddrs k)" "p \<notin> set (kaddrs k)" "g \<noteq> 0" "root_of s \<noteq> g" "root_of s \<noteq> p" "root_of s \<notin> set (kaddrs k)"
    using D(4,9) root_of_in [of s] by auto
  define h3 where "h3 = set_child (opp d) p g (paint_if (root_of s) g RB_BLACK (set_child d g (root_of s) h))"
  define h' where "h' = rb_rotate_set_parents g p RB_RED h3"
  have h': "insert_outer d p g (root_of s) h = h'" by (simp add: insert_outer_def h'_def h3_def)
  have k: "krep h3 g k"
    by (rule krep_frame [of h]) (use D(2) g in \<open>auto simp: same_def h3_def rb_simps\<close>)
  have dk: "distinct (kaddrs k)" "\<forall>a\<in>set (kaddrs k). addr_ok a" using D(4,7) by auto
  have pg: "pcw g h3 = kpar k OR bit_of Black" using D(2) g by (simp add: h3_def rb_simps)
  note R = rotate_set_parents [OF k dk g(4,2,3) pg g(1), where w = RB_RED, folded h'_def]
  have keep: "same h h' a" if "a \<noteq> g" "a \<noteq> p" "a \<noteq> root_of s" "a \<notin> set (kaddrs k)" for a
    using R(5) [OF that(1,2,4)] that by (auto simp: same_def h3_def rb_simps)
  have A: "rep h' p A"
    by (rule rep_frame [of h]) (use D(1,5) root_of_in [of s] D(8) in \<open>auto intro!: keep\<close>)
  have U: "rep h' g u"
    by (rule rep_frame [of h]) (use D(2,4,9) root_of_in [of s] in \<open>auto intro!: keep\<close>)
  have rs: "rb_child e (root_of s) h' = rb_child e (root_of s) h" "root_of s \<noteq> 0 \<Longrightarrow> pcw (root_of s) h' = g OR bit_of Black" for e
    using R(5) [of "root_of s"] g by (auto simp: same_def h3_def rb_simps)
  have "rep h' g (paint Black s)"
    by (rule rep_adopt [of h p]) (use D(2,4,9) rs in \<open>auto intro!: keep\<close>)
  then have S: "rep h' g s" using s by simp
  show ?thesis
    unfolding h' zrep_def using A U S R(1-3) R(4) [OF g(2)] R(4) [OF g(3)] D g
    by (auto simp: h3_def rb_simps)
qed

lemma insert_inner_rep:
  assumes z: "zrep h (mk d Red x n y) (Frame (opp d) Red p s # Frame d Black g u # k)" and x: "col x = Black"
  shows "zrep (set_pc n (g OR RB_RED) (set_child d g n (insert_inner d n p h))) (mk d Red s p x) (Frame d Red n y # Frame d Black g u # k)"
proof -
  note D = zrepD [OF z]
  have ch: "rb_child d n h = root_of x" using D(1) by simp
  have ne: "n \<noteq> p" "n \<noteq> g" "p \<noteq> g" "root_of x \<noteq> n" "root_of x \<noteq> p" "root_of x \<noteq> g" "n \<noteq> 0" "p \<noteq> 0" "g \<noteq> 0"
    using D(3,4,5,8,9) root_of_in [of x] by auto
  define h' where "h' = set_pc n (g OR RB_RED) (set_child d g n (insert_inner d n p h))"
  have h: "h' = set_pc n (g OR RB_RED) (set_child d g n (rb_set_parent_color p n RB_RED (set_child d n p
    (paint_if (root_of x) p RB_BLACK (set_child (opp d) p (root_of x) h)))))"
    by (simp add: h'_def insert_inner_def ch Let_def)
  have keep: "same h h' a" if "a \<noteq> n" "a \<noteq> p" "a \<noteq> g" "a \<noteq> root_of x" for a
    using that by (auto simp: h same_def rb_simps)
  have r: "krep h g k" "rep h p s" "rep h g u" "rep h n y" "rep h n x" using D(1,2) by simp_all
  note dis = D(3,4,5,8,9) root_of_in [of x]
  have K: "krep h' g k" by (rule krep_frame [OF r(1)]) (rule keep, use dis in \<open>auto simp: h rb_simps\<close>)
  have S: "rep h' p s" by (rule rep_frame [OF r(2)], rule keep) (use dis in auto)
  have U: "rep h' g u" by (rule rep_frame [OF r(3)], rule keep) (use dis in auto)
  have Y: "rep h' n y" by (rule rep_frame [OF r(4)], rule keep) (use dis in auto)
  have rx: "rb_child e (root_of x) h' = rb_child e (root_of x) h" "root_of x \<noteq> 0 \<Longrightarrow> pcw (root_of x) h' = p OR bit_of Black" for e
    using ne by (auto simp: h rb_simps)
  have "rep h' p (paint Black x)"
    by (rule rep_adopt [OF r(5)]) (use dis rx in \<open>auto intro!: keep\<close>)
  then have X: "rep h' p x" using x by simp
  have f: "pcw p h' = n OR bit_of Red" "pcw n h' = g OR bit_of Red" "pcw g h' = kpar k OR bit_of Black"
    "rb_child d p h' = root_of s" "rb_child (opp d) p h' = root_of x" "rb_child d n h' = p" "rb_child (opp d) n h' = root_of y"
    "rb_child d g h' = n" "rb_child (opp d) g h' = root_of u"
    using ne D(1,2) by (simp_all add: h rb_simps)
  show ?thesis
    unfolding h'_def [symmetric] by (rule zrep_perm [OF z]) (use K S U Y X f in \<open>simp_all add: mset_mk\<close>)
qed

lemma insert_outer_patch:
  assumes "n \<noteq> g"
  shows "insert_outer d n g t (set_pc n v (set_child d g w h)) = insert_outer d n g t h"
  unfolding insert_outer_def Let_def using assms by (intro rotate_cong) (auto simp: rb_simps)

text \<open>What the rotations turn the subtree at the grandparent into.\<close>

lemma insert_rotate_rep:
  assumes z: "zrep h A (Frame e Red p s # Frame d Black g u # k)" and A: "A = Node Red l n r" "col l = Black" "col r = Black"
    and s: "col s = Black"
  obtains t where "zrep (insert_rotate d n p g h) t k" "inorder t = inorder (mk d Black (mk e Red A p s) g u)" "col t = Black"
    "\<And>m. bal m A \<Longrightarrow> bal m s \<Longrightarrow> bal m u \<Longrightarrow> bal (m + 1) t"
    "no_red_red A \<Longrightarrow> no_red_red s \<Longrightarrow> no_red_red u \<Longrightarrow> col u = Black \<Longrightarrow> no_red_red t"
proof (cases "e = d")
  case True
  let ?t = "mk d Black A p (mk d Red s g u)"
  have "n \<noteq> root_of s" using zrepD(3,5,8) [OF z] A(1) root_of_in [of s] by auto
  then have "insert_rotate d n p g h = insert_outer d p g (root_of s) h"
    using zrepD(2) [OF z] True by (simp add: insert_rotate_def)
  then have "zrep (insert_rotate d n p g h) ?t k" using insert_outer_rep z s True by simp
  then show thesis
  proof (rule that)
    show "inorder ?t = inorder (mk d Black (mk e Red A p s) g u)" using True by (cases d) simp_all
  qed (use A s in auto)
next
  case False
  then have e: "e = opp d" by (cases d; cases e) auto
  define x where "x = (if d = SL then l else r)"
  define y where "y = (if d = SL then r else l)"
  have A': "A = mk d Red x n y" using A(1) Node_as_mk [of Red l n r d] by (simp add: x_def y_def)
  have xy: "col x = Black" "col y = Black" using A(2,3) by (auto simp: x_def y_def)
  let ?t = "mk d Black (mk d Red s p x) n (mk d Red y g u)"
  have z': "zrep h (mk d Red x n y) (Frame (opp d) Red p s # Frame d Black g u # k)" using z e A' by simp
  note D = zrepD [OF z']
  have ng: "n \<noteq> g" "n \<noteq> p" using D(5) by auto
  have i: "zrep (set_pc n (g OR RB_RED) (set_child d g n (insert_inner d n p h))) (mk d Red s p x) (Frame d Red n y # Frame d Black g u # k)"
    by (rule insert_inner_rep [OF z' xy(1)])
  have ch: "rb_child (opp d) n (insert_inner d n p h) = root_of y"
    using D(1) ng by (simp add: insert_inner_def Let_def rb_simps)
  have "insert_rotate d n p g h = insert_outer d n g (root_of y) (insert_inner d n p h)"
    using D(2) ch by (simp add: insert_rotate_def)
  then have "zrep (insert_rotate d n p g h) ?t k"
    using insert_outer_rep [OF i xy(2)] insert_outer_patch [OF ng(1)] by simp
  then show thesis
  proof (rule that)
    show "inorder ?t = inorder (mk d Black (mk e Red A p s) g u)" using e A' by (cases d) simp_all
  qed (use A' xy s in auto)
qed

lemma insert_recolor_rep:
  assumes z: "zrep h A (Frame e Red p s # Frame d Black g (Node Red ul v ur) # k)"
  shows "zrep (set_pc g (kpar k OR RB_RED) (set_pc p (g OR RB_BLACK) (set_pc v (g OR RB_BLACK) h)))
    (mk d Red (mk e Black A p s) g (Node Black ul v ur)) k"
proof -
  define h' where "h' = set_pc g (kpar k OR RB_RED) (set_pc p (g OR RB_BLACK) (set_pc v (g OR RB_BLACK) h))"
  note D = zrepD [OF z]
  have r: "krep h g k" "rep h p A" "rep h p s" "rep h v ul" "rep h v ur" using D(1,2) by simp_all
  have ne: "g \<noteq> p" "g \<noteq> v" "p \<noteq> v" using D(4) by auto
  have keep: "same h h' a" if "a \<noteq> g" "a \<noteq> p" "a \<noteq> v" for a using that by (simp add: same_def h'_def rb_simps)
  have K: "krep h' g k" by (rule krep_frame [OF r(1)]) (rule keep, use D(4) in \<open>auto simp: h'_def rb_simps\<close>)
  have A: "rep h' p A" by (rule rep_frame [OF r(2)], rule keep) (use D(5) in auto)
  have S: "rep h' p s" by (rule rep_frame [OF r(3)], rule keep) (use D(4) in auto)
  have U: "rep h' v ul" "rep h' v ur" by (rule rep_frame [OF r(4)], rule keep, use D(4) in auto) (rule rep_frame [OF r(5)], rule keep, use D(4) in auto)
  have "pcw g h' = kpar k OR bit_of Red" "pcw p h' = g OR bit_of Black" "pcw v h' = g OR bit_of Black" "\<And>f a. rb_child f a h' = rb_child f a h"
    using ne by (simp_all add: h'_def rb_simps)
  then show ?thesis unfolding zrep_def h'_def [symmetric] using K A S U D by auto
qed

lemma insert_fix_step:
  assumes z: "zrep h (Node Red l n r) (Frame e Red p s # Frame d Black g u # k)"
  shows "rb_insert_fix n p h =
    (if col u = Red
     then rb_insert_fix g (kpar k) (set_pc g (kpar k OR RB_RED) (set_pc p (g OR RB_BLACK) (set_pc (root_of u) (g OR RB_BLACK) h)))
     else Some (insert_rotate d n p g h))"
proof -
  note D = zrepD [OF z]
  have f: "pcw p h = g OR bit_of Red" "pcw g h = kpar k OR bit_of Black" "rb_child d g h = p" "rb_child (opp d) g h = root_of u" "rep h g u"
    using D(2) by simp_all
  have p: "p \<noteq> 0" "g \<noteq> p" "p \<noteq> root_of u" "g \<noteq> root_of u" using D(4,9) root_of_in [of u] by auto
  have ok: "g = 0 \<or> addr_ok g" "kpar k = 0 \<or> addr_ok (kpar k)" using D(7) kpar_ok [of k] by auto
  have red: "\<not> rb_is_black p h" unfolding rb_is_black_def f(1) by (simp add: pc_decode(2) [OF ok(1)] del: bit_of.simps)
  have side: "(if p \<noteq> rb_child SR g h then SL else SR) = d" using f(3,4) p(3) by (cases d) auto
  have gp: "rb_red_parent p h = g" by (simp add: rb_red_parent_def f(1))
  have u: "(root_of u \<noteq> 0 \<and> rb_is_red (root_of u) h) \<longleftrightarrow> col u = Red"
  proof (cases u)
    case (Node c ul v ur)
    then have "v \<noteq> 0" "pcw v h = g OR bit_of c" using f(5) D(9) by auto
    then show ?thesis using Node by (simp add: rb_is_red_def pc_decode(2) [OF ok(1)] del: bit_of.simps) (cases c; simp)
  qed simp
  have par: "rb_parent g (rb_set_parent_color p g RB_BLACK (rb_set_parent_color (root_of u) g RB_BLACK h)) = kpar k"
    using p f(2) by (simp add: rb_parent_def rb_simps pc_decode(1) [OF ok(2)] del: bit_of.simps)
  show ?thesis
    using p(1) by (subst rb_insert_fix.simps) (simp add: red gp side f(4) u par Let_def, simp add: rb_set_parent_color_def)
qed

lemma insert_fix_ok:
  assumes "zrep h (Node Red l n r) k" "bal m (Node Red l n r)" "no_red_red (Node Red l n r)" "kbal m k" "kok k"
  shows "\<exists>h' t. rb_insert_fix n (kpar k) h = Some h' \<and> zrep h' t [] \<and> inorder t = inorder (plug (Node Red l n r) k) \<and> rbt_ok t"
  using assms
proof (induction "length k" arbitrary: h l n r k m rule: less_induct)
  case less
  note z = less.prems(1)
  show ?case
  proof (cases k)
    case Nil
    let ?h = "(rb_set_parent_color n 0 RB_BLACK h)\<lparr>rb_root := n\<rparr>"
    have n: "n \<notin> set (inorder l)" "n \<notin> set (inorder r)" "rep h n l" "rep h n r" using zrepD(1,3) [OF z] by auto
    have "rep ?h n l" "rep ?h n r"
      by (rule rep_frame [OF n(3)], use n in \<open>auto simp: same_def rb_simps\<close>) (rule rep_frame [OF n(4)], use n in \<open>auto simp: same_def rb_simps\<close>)
    then have "zrep ?h (Node Black l n r) []"
      using z by (auto simp: zrep_def Nil rb_simps)
    moreover have "rbt_ok (Node Black l n r)" using less.prems(2,3) by (auto simp: rbt_ok_def intro!: exI [of _ "m + 1"])
    moreover have "rb_insert_fix n (kpar k) h = Some ?h" by (subst rb_insert_fix.simps) (simp add: Nil)
    ultimately show ?thesis using Nil by auto
  next
    case (Cons f k')
    obtain e c p s where f: "f = Frame e c p s" by (cases f)
    show ?thesis
    proof (cases c)
      case Black
      have "pcw p h = kpar k' OR bit_of Black" using zrepD(2) [OF z] by (simp add: Cons f Black)
      moreover have "kpar k' = 0 \<or> addr_ok (kpar k')" using zrepD(7) [OF z] by (intro kpar_ok) (simp add: Cons f)
      ultimately have "rb_is_black p h" by (simp add: rb_is_black_def pc_decode(2) del: bit_of.simps)
      then have "rb_insert_fix n (kpar k) h = Some h" using zrepD(9) [OF z] by (subst rb_insert_fix.simps) (auto simp: Cons f)
      moreover have "rbt_ok (plug (Node Red l n r) k)"
        by (rule plug_rbt_ok) (use less.prems Cons f Black in auto)
      ultimately show ?thesis using z zrep_plug by blast
    next
      case Red
      obtain d g u k'' where k': "k' = Frame d Black g u # k''"
        using less.prems(5) by (cases k' rule: kcol.cases) (auto simp: Cons f Red)
      have z: "zrep h (Node Red l n r) (Frame e Red p s # Frame d Black g u # k'')" using z by (simp add: Cons f Red k')
      have s: "col s = Black" using less.prems(5) by (simp add: Cons f Red)
      note step = insert_fix_step [OF z]
      let ?A = "Node Red l n r"
      show ?thesis
      proof (cases "col u")
        case Black
        obtain t where t: "zrep (insert_rotate d n p g h) t k''" "inorder t = inorder (mk d Black (mk e Red ?A p s) g u)" "col t = Black"
          "\<And>m. bal m ?A \<Longrightarrow> bal m s \<Longrightarrow> bal m u \<Longrightarrow> bal (m + 1) t" "no_red_red ?A \<Longrightarrow> no_red_red s \<Longrightarrow> no_red_red u \<Longrightarrow> col u = Black \<Longrightarrow> no_red_red t"
          by (rule insert_rotate_rep [OF z refl _ _ s]) (use less.prems(3) in auto)
        have "rbt_ok (plug t k'')"
          by (rule plug_rbt_ok [of "m + 1"]) (use t(3-5) less.prems(2-5) Black in \<open>auto simp: Cons f Red k'\<close>)
        moreover have "inorder (plug t k'') = inorder (plug ?A k)" using inorder_plug_cong [OF t(2)] by (simp add: Cons f Red k')
        ultimately show ?thesis using step t(1) zrep_plug Black by (auto simp: Cons f)
      next
        case Red: Red
        then obtain ul v ur where u: "u = Node Red ul v ur" by (cases u) auto
        let ?t = "mk d Red (mk e Black ?A p s) g (Node Black ul v ur)"
        define h1 where "h1 = set_pc g (kpar k'' OR RB_RED) (set_pc p (g OR RB_BLACK) (set_pc v (g OR RB_BLACK) h))"
        obtain l' r' where t: "?t = Node Red l' g r'" by (cases d) auto
        have "zrep h1 (Node Red l' g r') k''" using insert_recolor_rep [OF z [unfolded u]] unfolding h1_def t .
        moreover have "bal (m + 1) ?t" "no_red_red ?t" "kbal (m + 1) k''" "kok k''"
          using less.prems(2-5) by (auto simp: Cons f \<open>c = Red\<close> k' u)
        ultimately obtain h' t' where "rb_insert_fix g (kpar k'') h1 = Some h'" "zrep h' t' []" "inorder t' = inorder (plug ?t k'')" "rbt_ok t'"
          using less.hyps [of k'' h1 l' g r' "m + 1"] unfolding t by (auto simp: Cons k')
        moreover have "inorder (plug ?t k'') = inorder (plug ?A k)"
          using inorder_plug_cong [of ?t "mk d Black (mk e Red ?A p s) g u" k''] by (cases d; cases e) (auto simp: Cons f \<open>c = Red\<close> k' u)
        ultimately show ?thesis using step by (auto simp: Cons f u h1_def)
      qed
    qed
  qed
qed

text \<open>A new red leaf in an empty place.\<close>

lemma link_rep:
  assumes z: "zrep h Leaf (Frame d c a s # k)" and n: "n \<notin> set (kaddrs (Frame d c a s # k))" "addr_ok n" "\<And>e. rb_child e n h = 0"
  shows "zrep (set_pc n a (set_child d a n h)) (Node Red Leaf n Leaf) (Frame d c a s # k)"
proof -
  define h' where "h' = set_pc n a (set_child d a n h)"
  note D = zrepD [OF z]
  have r: "rep h a s" "krep h a k" "pcw a h = kpar k OR bit_of c" "rb_child (opp d) a h = root_of s" using D(2) by simp_all
  have na: "n \<noteq> a" using n(1) by simp
  have keep: "same h h' b" if "b \<noteq> n" "b \<noteq> a" for b using that by (simp add: same_def h'_def rb_simps)
  have "rep h' a s" by (rule rep_frame [OF r(1)], rule keep) (use D(4) n(1) in auto)
  moreover have "krep h' a k" by (rule krep_frame [OF r(2)]) (rule keep, use D(4) n(1) in \<open>auto simp: h'_def rb_simps\<close>)
  moreover have "pcw n h' = a OR bit_of Red" "rb_child SL n h' = 0" "rb_child SR n h' = 0" "pcw a h' = kpar k OR bit_of c"
    "rb_child d a h' = n" "rb_child (opp d) a h' = root_of s"
    using na r(3,4) n(3) by (simp_all add: h'_def rb_simps)
  ultimately show ?thesis unfolding zrep_def h'_def [symmetric] using D(4,7) n(1,2) by simp
qed

definition cmp_trans :: "u64 set \<Rightarrow> (u64 \<Rightarrow> u64 \<Rightarrow> bool) \<Rightarrow> bool" where
  "cmp_trans S cmp \<longleftrightarrow> (\<forall>a\<in>S. \<forall>b\<in>S. \<forall>c\<in>S. cmp a b \<longrightarrow> cmp b c \<longrightarrow> cmp a c)"

lemma cmp_transD: "cmp_trans S cmp \<Longrightarrow> cmp a b \<Longrightarrow> cmp b c \<Longrightarrow> a \<in> S \<Longrightarrow> b \<in> S \<Longrightarrow> c \<in> S \<Longrightarrow> cmp a c"
  unfolding cmp_trans_def by blast

lemma insert_loop_ok:
  assumes "zrep h t k" "t \<noteq> Leaf" "n \<notin> set (inorder (plug t k))" "addr_ok n" "\<And>e. rb_child e n h = 0"
    and "sorted_wrt cmp (inorder (plug t k))" "cmp_trans (insert n (set (inorder (plug t k)))) cmp"
    and "\<forall>a\<in>set (kl k). cmp a n" "\<forall>a\<in>set (kr k). cmp n a"
  shows "(\<exists>h' k'. rb_insert_loop cmp n (root_of t) h = Some (True, h') \<and> zrep h' (Node Red Leaf n Leaf) k' \<and> plug Leaf k' = plug t k \<and>
      (\<forall>a\<in>set (kl k'). cmp a n) \<and> (\<forall>a\<in>set (kr k'). cmp n a)) \<or>
    (\<exists>a\<in>set (inorder t). \<not> cmp n a \<and> \<not> cmp a n) \<and> rb_insert_loop cmp n (root_of t) h = Some (False, h)"
  using assms
proof (induction t arbitrary: k)
  case (Node c l a r)
  note z = Node.prems(1)
  have a: "a \<noteq> 0" "rb_child SL a h = root_of l" "rb_child SR a h = root_of r" using zrepD(1,8) [OF z] by auto
  have unf: "rb_insert_loop cmp n (root_of (Node c l a r)) h =
    (if cmp n a then rb_insert_loop cmp n (root_of l) (if root_of l = 0 then set_pc n a (set_child SL a n h) else h)
     else if cmp a n then rb_insert_loop cmp n (root_of r) (if root_of r = 0 then set_pc n a (set_child SR a n h) else h)
     else Some (False, h))"
    by (subst rb_insert_loop.simps) (simp add: a)
  have io: "inorder (plug (Node c l a r) k) = kl k @ (inorder l @ a # inorder r) @ kr k" by (simp add: inorder_plug)
  have zero: "root_of x = 0 \<longleftrightarrow> x = Leaf" if "x = l \<or> x = r" for x using zrepD(8) [OF z] that by (cases x) auto
  note T = cmp_transD [OF Node.prems(7) [unfolded io]] and S = Node.prems(6) [unfolded io]
  have step: ?case if d: "d = SL \<and> x = l \<and> y = r \<and> cmp n a \<or> d = SR \<and> x = r \<and> y = l \<and> \<not> cmp n a \<and> cmp a n"
    and IH: "\<And>k. zrep h x k \<Longrightarrow> x \<noteq> Leaf \<Longrightarrow> n \<notin> set (inorder (plug x k)) \<Longrightarrow> addr_ok n \<Longrightarrow> (\<And>e. rb_child e n h = 0) \<Longrightarrow>
      sorted_wrt cmp (inorder (plug x k)) \<Longrightarrow> cmp_trans (insert n (set (inorder (plug x k)))) cmp \<Longrightarrow>
      \<forall>a\<in>set (kl k). cmp a n \<Longrightarrow> \<forall>a\<in>set (kr k). cmp n a \<Longrightarrow>
      (\<exists>h' k'. rb_insert_loop cmp n (root_of x) h = Some (True, h') \<and> zrep h' (Node Red Leaf n Leaf) k' \<and> plug Leaf k' = plug x k \<and>
      (\<forall>a\<in>set (kl k'). cmp a n) \<and> (\<forall>a\<in>set (kr k'). cmp n a)) \<or>
      (\<exists>a\<in>set (inorder x). \<not> cmp n a \<and> \<not> cmp a n) \<and> rb_insert_loop cmp n (root_of x) h = Some (False, h)"
    for d x y
  proof -
    let ?k = "Frame d c a y # k"
    have m: "mk d c x a y = Node c l a r" using d by auto
    have z': "zrep h x ?k" using z m by (simp add: zrep_step)
    have p: "plug x ?k = plug (Node c l a r) k" by (simp add: m)
    have lr: "\<forall>b\<in>set (kl ?k). cmp b n" "\<forall>b\<in>set (kr ?k). cmp n b"
      using d Node.prems(8,9) S by (auto simp: sorted_wrt_append intro: T)
    show ?thesis
    proof (cases "x = Leaf")
      case True
      let ?h = "set_pc n a (set_child d a n h)"
      have "zrep ?h (Node Red Leaf n Leaf) ?k"
        by (rule link_rep) (use z' True Node.prems(3-5) d in \<open>auto simp: inorder_plug set_kaddrs\<close>)
      moreover have "rb_insert_loop cmp n (root_of (Node c l a r)) h = Some (True, ?h)"
        unfolding unf using d True by (auto simp: rb_insert_loop.simps)
      moreover have "plug Leaf ?k = plug (Node c l a r) k" using p True by simp
      ultimately show ?thesis using lr by blast
    next
      case False
      have eq: "rb_insert_loop cmp n (root_of (Node c l a r)) h = rb_insert_loop cmp n (root_of x) h"
        unfolding unf using d False zero by auto
      have sub: "set (inorder x) \<subseteq> set (inorder (Node c l a r))" using d by auto
      note I = IH [OF z' False _ Node.prems(4,5) _ _ lr, unfolded p, OF Node.prems(3,6,7)]
      show ?thesis unfolding eq using I sub by blast
    qed
  qed
  consider "cmp n a" | "\<not> cmp n a" "cmp a n" | "\<not> cmp n a" "\<not> cmp a n" by blast
  then show ?case
  proof cases
    case 1
    then show ?thesis using step [of SL l r] Node.IH(1) by blast
  next
    case 2
    then show ?thesis using step [of SR r l] Node.IH(2) by blast
  next
    case 3
    then show ?thesis using unf by auto
  qed
qed simp

lemma sorted_insert:
  assumes "sorted_wrt cmp (xs @ ys)" "\<forall>a\<in>set xs. cmp a n" "\<forall>a\<in>set ys. cmp n a"
  shows "sorted_wrt cmp (xs @ n # ys)"
  using assms by (simp add: sorted_wrt_append)

text \<open>A red-black tree in memory.\<close>

definition tree_ok :: "rb_tree \<Rightarrow> rtree \<Rightarrow> bool" where
  "tree_ok h t \<longleftrightarrow> zrep h t [] \<and> rbt_ok t"

lemma plug_kok:
  assumes "no_red_red (plug t k)" "col (plug t k) = Black"
  shows "kok k \<and> no_red_red t \<and> (col t = Red \<longrightarrow> kcol k = Black)"
  using assms
proof (induction t k rule: plug.induct)
  case (2 t d c a s k)
  then have "kok k \<and> no_red_red (mk d c t a s) \<and> (c = Red \<longrightarrow> kcol k = Black)" by simp
  then show ?case by (cases c) simp_all
qed simp

lemma plug_kbal: "bal m (plug t k) \<Longrightarrow> \<exists>n. bal n t \<and> kbal n k"
proof (induction t k arbitrary: m rule: plug.induct)
  case (2 t d c a s k)
  then obtain n where "bal n (mk d c t a s)" "kbal n k" by auto
  then show ?case by (intro exI [of _ "if c = Black then n - 1 else n"]) (simp split: if_splits)
qed auto

lemma rb_insert_ok:
  assumes T: "tree_ok h t" and n: "n \<notin> set (inorder t)" "addr_ok n"
    and cmp: "sorted_wrt cmp (inorder t)" "cmp_trans (insert n (set (inorder t))) cmp"
  shows "(\<exists>a\<in>set (inorder t). \<not> cmp n a \<and> \<not> cmp a n) \<and> (\<exists>h'. rb_insert cmp n h = Some (-1, h') \<and> tree_ok h' t) \<or>
    (\<forall>a\<in>set (inorder t). cmp n a \<or> cmp a n) \<and>
    (\<exists>h' t'. rb_insert cmp n h = Some (0, h') \<and> tree_ok h' t' \<and> sorted_wrt cmp (inorder t') \<and> set (inorder t') = insert n (set (inorder t)))"
proof -
  define h0 where "h0 = set_pc n 0 (set_child SL n 0 (set_child SR n 0 h))"
  have c0: "rb_child e n h0 = 0" for e by (cases e) (simp_all add: h0_def rb_simps)
  have p0: "pcw n h0 = 0" by (simp add: h0_def rb_simps)
  have z0: "zrep h0 t []"
    by (rule zrep_same [of h]) (use T n(1) in \<open>auto simp: tree_ok_def h0_def same_def rb_simps\<close>)
  have ok: "rbt_ok t" using T by (simp add: tree_ok_def)
  have root: "rb_root h = root_of t" using T by (simp add: tree_ok_def zrep_def)
  have ins: "rb_insert cmp n h = Option.bind (rb_insert_loop cmp n (root_of t) h0) (\<lambda>(fresh, h).
      if fresh then map_option (Pair 0) (rb_insert_fix n (pcw n h) h) else Some (-1, h))"
    unfolding rb_insert_def rb_red_parent_def by (simp add: root h0_def Let_def)
  have fin: "\<exists>h' t'. rb_insert cmp n h = Some (0, h') \<and> tree_ok h' t' \<and> sorted_wrt cmp (inorder t') \<and> set (inorder t') = insert n (set (inorder t))"
    if l: "rb_insert_loop cmp n (root_of t) h0 = Some (True, h1)" and z: "zrep h1 (Node Red Leaf n Leaf) k" and p: "plug Leaf k = t"
      and lr: "\<forall>a\<in>set (kl k). cmp a n" "\<forall>a\<in>set (kr k). cmp n a" for h1 k
  proof -
    obtain m where m: "bal m (Node Red Leaf n Leaf)" "kbal m k"
      using ok plug_kbal [of _ Leaf k] unfolding rbt_ok_def p by auto
    moreover have "kok k" using ok plug_kok [of Leaf k] unfolding rbt_ok_def p by blast
    ultimately obtain h' t' where f: "rb_insert_fix n (kpar k) h1 = Some h'" "zrep h' t' []"
      "inorder t' = inorder (plug (Node Red Leaf n Leaf) k)" "rbt_ok t'"
      using insert_fix_ok [OF z m(1)] by auto
    have "pcw n h1 = kpar k" using zrepD(1) [OF z] by simp
    then have "rb_insert cmp n h = Some (0, h')" using l f(1) by (simp add: ins)
    moreover have io: "inorder t' = kl k @ n # kr k" "inorder t = kl k @ kr k"
      using f(3) inorder_plug [of "Node Red Leaf n Leaf" k] inorder_plug [of Leaf k] p by simp_all
    moreover have "sorted_wrt cmp (inorder t')" unfolding io by (rule sorted_insert [OF cmp(1) [unfolded io] lr])
    ultimately show ?thesis using f(2,4) by (auto simp: tree_ok_def)
  qed
  show ?thesis
  proof (cases "t = Leaf")
    case True
    then have "rb_insert_loop cmp n (root_of t) h0 = Some (True, h0)" by (simp add: rb_insert_loop.simps)
    then have "rb_insert cmp n h = Some (0, (rb_set_parent_color n 0 RB_BLACK h0)\<lparr>rb_root := n\<rparr>)"
      using p0 by (simp add: ins rb_insert_fix.simps)
    moreover have "tree_ok ((rb_set_parent_color n 0 RB_BLACK h0)\<lparr>rb_root := n\<rparr>) (Node Black Leaf n Leaf)"
      using c0 n(2) by (simp add: tree_ok_def zrep_def rbt_ok_def rb_simps exI [of _ 1])
    ultimately show ?thesis using True by (intro disjI2) auto
  next
    case False
    show ?thesis
    proof (cases "\<exists>h1 k. rb_insert_loop cmp n (root_of t) h0 = Some (True, h1) \<and> zrep h1 (Node Red Leaf n Leaf) k \<and> plug Leaf k = plug t [] \<and>
        (\<forall>a\<in>set (kl k). cmp a n) \<and> (\<forall>a\<in>set (kr k). cmp n a)")
      case True
      then obtain h1 k where r: "rb_insert_loop cmp n (root_of t) h0 = Some (True, h1)" "zrep h1 (Node Red Leaf n Leaf) k"
        "plug Leaf k = t" "\<forall>a\<in>set (kl k). cmp a n" "\<forall>a\<in>set (kr k). cmp n a" by auto
      have "inorder t = kl k @ kr k" using inorder_plug [of Leaf k] r(3) by simp
      then have "\<forall>a\<in>set (inorder t). cmp n a \<or> cmp a n" using r(4,5) by auto
      then show ?thesis using fin [OF r] by blast
    next
      case no: False
      have prem: "n \<notin> set (inorder (plug t []))" "sorted_wrt cmp (inorder (plug t []))" "cmp_trans (insert n (set (inorder (plug t [])))) cmp"
        "\<forall>a\<in>set (kl []). cmp a n" "\<forall>a\<in>set (kr []). cmp n a"
        using n(1) cmp by simp_all
      have "(\<exists>a\<in>set (inorder t). \<not> cmp n a \<and> \<not> cmp a n) \<and> rb_insert_loop cmp n (root_of t) h0 = Some (False, h0)"
        using insert_loop_ok [OF z0 False prem(1) n(2) c0 prem(2-)] no by blast
      moreover have "tree_ok h0 t" using z0 ok by (simp add: tree_ok_def)
      ultimately show ?thesis by (auto simp: ins)
    qed
  qed
qed

end
