(* ===== verification/RBTree_Erase.thy ===== *)
theory RBTree_Erase
  imports RBTree_Insert
begin

text \<open>
  Removal from the red-black tree, search and the least element: the pointer code leaves a red-black
  tree without the node.
\<close>

section \<open>The rotations of \<open>__rb_erase_fix\<close>\<close>

lemma set_parent_simps [rb_simps]:
  "pcw a (rb_set_parent b p h) = (if a = b then rb_color b h OR p else pcw a h)"
  "rb_child d a (rb_set_parent b p h) = rb_child d a h" "rb_root (rb_set_parent b p h) = rb_root h"
  by (auto simp: rb_set_parent_def rb_simps)

lemma red_sibling_rep:
  assumes z: "zrep h A (Frame d Black p (mk d Red x q y) # k)" and x: "col x = Black" "x \<noteq> Leaf"
  shows "\<exists>h'. erase_red_sibling d p q h = (root_of x, h') \<and> zrep h' A (Frame d Red p x # Frame d Black q y # k)"
proof -
  note D = zrepD [OF z]
  have f: "pcw q h = p OR bit_of Red" "rb_child d q h = root_of x" "rb_child (opp d) q h = root_of y" "pcw p h = kpar k OR bit_of Black"
    "rb_child d p h = root_of A" "rep h p A" "rep h q x" "rep h q y" "krep h p k"
    using D(1,2) by simp_all
  have ok: "p = 0 \<or> addr_ok p" using D(7) by simp
  have rx: "root_of x \<noteq> 0" "root_of x \<in> set (inorder x)" using x(2) D(9) by (cases x; auto)+
  have ne: "p \<noteq> q" "p \<noteq> 0" "p \<notin> set (kaddrs k)" "q \<notin> set (kaddrs k)" "root_of x \<noteq> p" "root_of x \<noteq> q" "root_of x \<notin> set (kaddrs k)"
    using D(4,9) rx by auto
  define h3 where "h3 = set_child d q p (rb_set_parent_color (root_of x) p RB_BLACK (set_child (opp d) p (root_of x) h))"
  define h' where "h' = rb_rotate_set_parents p q RB_RED h3"
  have "rb_is_red q h" by (simp add: rb_is_red_def f(1) pc_decode(2) [OF ok] del: bit_of.simps)
  then have e: "erase_red_sibling d p q h = (root_of x, h')"
    by (simp add: erase_red_sibling_def f(2) h'_def h3_def Let_def)
  have k3: "krep h3 p k"
    by (rule krep_frame [OF f(9)]) (use ne in \<open>auto simp: same_def h3_def rb_simps\<close>)
  have dk: "distinct (kaddrs k)" "\<forall>a\<in>set (kaddrs k). addr_ok a" using D(4,7) by auto
  have p3: "pcw p h3 = kpar k OR bit_of Black" using f(4) ne by (simp add: h3_def rb_simps)
  note R = rotate_set_parents [OF k3 dk ne(2,3,4) p3 ne(1), where w = RB_RED, folded h'_def]
  have keep: "same h h' a" if "a \<noteq> p" "a \<noteq> q" "a \<noteq> root_of x" "a \<notin> set (kaddrs k)" for a
    using R(5) [OF that(1,2,4)] that by (simp add: same_def h3_def rb_simps)
  note dis = D(3,4,5,9) rx
  have A: "rep h' p A" by (rule rep_frame [OF f(6)], rule keep) (use dis in auto)
  have Y: "rep h' q y" by (rule rep_frame [OF f(8)], rule keep) (use dis in auto)
  have c: "rb_child e (root_of x) h' = rb_child e (root_of x) h" "pcw (root_of x) h' = p OR bit_of Black" for e
    using R(5) [of "root_of x"] ne by (auto simp: same_def h3_def rb_simps)
  have "rep h' p (paint Black x)"
    by (rule rep_adopt [OF f(7)]) (use dis c in \<open>auto intro!: keep\<close>)
  then have X: "rep h' p x" using x(1) by simp
  have "rb_child d p h' = root_of A" "rb_child (opp d) p h' = root_of x" "rb_child d q h' = p" "rb_child (opp d) q h' = root_of y"
    using R(4) [OF ne(3)] R(4) [OF ne(4)] f ne by (simp_all add: h3_def rb_simps)
  then have "zrep h' A (Frame d Red p x # Frame d Black q y # k)"
    by (intro zrep_perm [OF z]) (use A Y X R(1-3) in \<open>simp_all add: mset_mk\<close>)
  then show ?thesis using e by blast
qed

lemma erase_rotate_rep:
  assumes z: "zrep h A (Frame d c p (mk d cs x q y) # k)" and y: "y \<noteq> Leaf"
  shows "zrep (erase_rotate d p q (root_of y) h) (mk d c (mk d Black A p x) q (paint Black y)) k"
proof -
  note D = zrepD [OF z]
  have f: "rb_child d q h = root_of x" "rb_child (opp d) q h = root_of y" "pcw p h = kpar k OR bit_of c"
    "rb_child d p h = root_of A" "rep h p A" "rep h q x" "rep h q y" "krep h p k"
    using D(1,2) by simp_all
  have okq: "q = 0 \<or> addr_ok q" using D(7) by simp
  have ry: "root_of y \<noteq> 0" "root_of y \<in> set (inorder y)" using y D(9) by (cases y; auto)+
  have rx: "root_of x \<noteq> root_of y" "root_of x \<noteq> p" "root_of x \<noteq> q" "root_of x \<notin> set (kaddrs k)"
    using D(4,9) ry root_of_in [of x] by auto
  have ne: "p \<noteq> q" "p \<noteq> 0" "p \<notin> set (kaddrs k)" "q \<notin> set (kaddrs k)" "root_of y \<noteq> p" "root_of y \<noteq> q" "root_of y \<notin> set (kaddrs k)"
    using D(4,9) ry by auto
  define h2 where "h2 = set_child (opp d) p (root_of x) h"
  define h3 where "h3 = rb_set_parent_color (root_of y) q RB_BLACK (set_child d q p (if root_of x \<noteq> 0 then rb_set_parent (root_of x) p h2 else h2))"
  define h' where "h' = rb_rotate_set_parents p q RB_BLACK h3"
  have e: "erase_rotate d p q (root_of y) h = h'"
    by (simp add: erase_rotate_def f(1) h'_def h3_def h2_def Let_def)
  have k3: "krep h3 p k"
    by (rule krep_frame [OF f(8)]) (use ne rx in \<open>auto simp: same_def h3_def h2_def rb_simps\<close>)
  have dk: "distinct (kaddrs k)" "\<forall>a\<in>set (kaddrs k). addr_ok a" using D(4,7) by auto
  have p3: "pcw p h3 = kpar k OR bit_of c" using f(3) ne rx by (simp add: h3_def h2_def rb_simps)
  note R = rotate_set_parents [OF k3 dk ne(2,3,4) p3 ne(1), where w = RB_BLACK, folded h'_def]
  have keep: "same h h' a" if "a \<noteq> p" "a \<noteq> q" "a \<noteq> root_of x" "a \<noteq> root_of y" "a \<notin> set (kaddrs k)" for a
    using R(5) [OF that(1,2,5)] that by (simp add: same_def h3_def h2_def rb_simps)
  note dis = D(3,4,5,8,9) ry root_of_in [of x]
  have A: "rep h' p A" by (rule rep_frame [OF f(5)], rule keep) (use dis in auto)
  have cy: "rb_child e (root_of y) h' = rb_child e (root_of y) h" "pcw (root_of y) h' = q OR bit_of Black" for e
    using R(5) [of "root_of y"] ne by (auto simp: same_def h3_def h2_def rb_simps)
  have Y: "rep h' q (paint Black y)"
    by (rule rep_adopt [OF f(7)]) (use dis cy in \<open>auto intro!: keep\<close>)
  have cx: "rb_child e (root_of x) h' = rb_child e (root_of x) h" "root_of x \<noteq> 0 \<Longrightarrow> pcw (root_of x) h' = p OR bit_of (col x)" for e
  proof -
    have s: "same h3 h' (root_of x)" using R(5) rx by blast
    then show "rb_child e (root_of x) h' = rb_child e (root_of x) h"
      using rx ne(2) by (auto simp: same_def h3_def h2_def rb_simps)
    assume nz: "root_of x \<noteq> 0"
    then have "pcw (root_of x) h = q OR bit_of (col x)" using f(6) by (cases x) simp_all
    then have "rb_color (root_of x) h2 = bit_of (col x)" by (simp add: rb_color_def h2_def rb_simps pc_decode(3) [OF okq])
    then show "pcw (root_of x) h' = p OR bit_of (col x)"
      using s rx nz by (simp add: same_def h3_def rb_simps or.commute)
  qed
  have "rep h' p (paint (col x) x)"
    by (rule rep_adopt [OF f(6)]) (use dis cx in \<open>auto intro!: keep\<close>)
  then have X: "rep h' p x" by simp
  have "rb_child d p h' = root_of A" "rb_child (opp d) p h' = root_of x" "rb_child d q h' = p" "rb_child (opp d) q h' = root_of y"
    using R(4) [OF ne(3)] R(4) [OF ne(4)] f ne by (simp_all add: h3_def h2_def rb_simps)
  then show ?thesis
    unfolding e by (intro zrep_perm [OF z]) (use A Y X R(1-3) in \<open>simp_all add: mset_mk\<close>)
qed

text \<open>Case 3: the near nephew \<open>v\<close> comes between the parent and the sibling; its link and colour words are set later.\<close>

lemma inner_red_rep:
  assumes z: "zrep h A (Frame d c p (mk d Black (mk d Red x1 v x2) q y) # k)" and x2: "col x2 = Black"
  shows "zrep (set_pc v (p OR RB_BLACK) (set_pc q (v OR RB_BLACK) (erase_inner_red d p q v h))) A
    (Frame d c p (mk d Black x1 v (mk d Black x2 q y)) # k)"
proof -
  note D = zrepD [OF z]
  have f: "rb_child d q h = v" "rb_child (opp d) q h = root_of y" "pcw p h = kpar k OR bit_of c" "rb_child d v h = root_of x1"
    "rb_child (opp d) v h = root_of x2" "rb_child d p h = root_of A" "rep h p A" "rep h v x1" "rep h v x2" "rep h q y" "krep h p k"
    using D(1,2) by simp_all
  have ne: "p \<noteq> q" "p \<noteq> v" "q \<noteq> v" "root_of x2 \<noteq> p" "root_of x2 \<noteq> q" "root_of x2 \<noteq> v"
    using D(4,9) root_of_in [of x2] by auto
  define h' where "h' = set_pc v (p OR RB_BLACK) (set_pc q (v OR RB_BLACK) (erase_inner_red d p q v h))"
  have h: "h' = set_pc v (p OR RB_BLACK) (set_pc q (v OR RB_BLACK) (set_child (opp d) p v (set_child (opp d) v q
     (paint_if (root_of x2) q RB_BLACK (set_child d q (root_of x2) h)))))"
    by (simp add: h'_def erase_inner_red_def f(5) Let_def)
  define T where "T = {0, p, q, v} \<union> set (inorder x2)"
  have keep: "same h h' a" if "a \<notin> T" for a
  proof -
    have "a \<noteq> p" "a \<noteq> q" "a \<noteq> v" "a \<noteq> root_of x2" using that root_of_in [of x2] by (auto simp: T_def)
    then show ?thesis by (simp add: h same_def rb_simps)
  qed
  have "set (kaddrs k) \<inter> T = {}" "set (inorder x1) \<inter> T = {}" "set (inorder y) \<inter> T = {}" using D(4,9) by (auto simp: T_def)
  moreover have "set (inorder A) \<inter> T = {}" using D(5,8) by (auto simp: T_def)
  ultimately have off: "\<And>a. a \<in> set (kaddrs k) \<Longrightarrow> a \<notin> T" "\<And>a. a \<in> set (inorder x1) \<Longrightarrow> a \<notin> T"
    "\<And>a. a \<in> set (inorder y) \<Longrightarrow> a \<notin> T" "\<And>a. a \<in> set (inorder A) \<Longrightarrow> a \<notin> T" by blast+
  have K: "krep h' p k" by (rule krep_frame [OF f(11)], rule keep, erule off) (simp add: h rb_simps)
  have A: "rep h' p A" by (rule rep_frame [OF f(7)], rule keep, erule off)
  have X1: "rep h' v x1" by (rule rep_frame [OF f(8)], rule keep, erule off)
  have Y: "rep h' q y" by (rule rep_frame [OF f(10)], rule keep, erule off)
  have c2: "rb_child e (root_of x2) h' = rb_child e (root_of x2) h" "root_of x2 \<noteq> 0 \<Longrightarrow> pcw (root_of x2) h' = q OR bit_of Black" for e
    using ne by (auto simp: h rb_simps)
  have X: "distinct (inorder x2)" "p \<notin> set (inorder x2)" "q \<notin> set (inorder x2)" "v \<notin> set (inorder x2)" "0 \<notin> set (inorder x2)"
    using D(4,9) by auto
  have kx: "same h h' a" if "a \<in> set (inorder x2)" "a \<noteq> root_of x2" for a
  proof -
    have "a \<noteq> p" "a \<noteq> q" "a \<noteq> v" using that(1) X by blast+
    then show ?thesis using that(2) by (simp add: h same_def rb_simps)
  qed
  have "rep h' q (paint Black x2)" by (rule rep_adopt [OF f(9) X(1) kx c2 X(5)])
  then have X2: "rep h' q x2" using x2 by simp
  have g: "pcw v h' = p OR bit_of Black" "pcw q h' = v OR bit_of Black" "pcw p h' = kpar k OR bit_of c" "rb_child d p h' = root_of A"
    "rb_child (opp d) p h' = v" "rb_child d v h' = root_of x1" "rb_child (opp d) v h' = q" "rb_child d q h' = root_of x2"
    "rb_child (opp d) q h' = root_of y"
    using ne f by (simp_all add: h rb_simps)
  show ?thesis
    unfolding h'_def [symmetric] by (rule zrep_perm [OF z]) (use K A X1 X2 Y g in \<open>simp_all add: mset_mk\<close>)
qed

lemma erase_rotate_patch:
  assumes "v \<noteq> q" "rb_child d v h \<noteq> v" "rb_child d v h \<noteq> q" "p \<noteq> v" "p \<noteq> q"
  shows "erase_rotate d p v q (set_pc v a (set_pc q b h)) = erase_rotate d p v q h"
  unfolding erase_rotate_def Let_def using assms
  by (intro rotate_cong) (auto simp: rb_simps rb_color_def)

text \<open>Case 2: the sibling turns red.\<close>

lemma recolor_sibling_rep:
  assumes z: "zrep h A (Frame d c p (mk d Black x q y) # k)"
  shows "zrep (rb_set_parent_color q p RB_RED h) A (Frame d c p (mk d Red x q y) # k)"
proof -
  note D = zrepD [OF z]
  define h' where "h' = rb_set_parent_color q p RB_RED h"
  have f: "rb_child d q h = root_of x" "rb_child (opp d) q h = root_of y" "pcw p h = kpar k OR bit_of c"
    "rb_child d p h = root_of A" "rb_child (opp d) p h = q" "rep h p A" "rep h q x" "rep h q y" "krep h p k"
    using D(1,2) by simp_all
  have ne: "p \<noteq> q" using D(4) by auto
  have keep: "same h h' a" if "a \<noteq> q" for a using that by (simp add: h'_def same_def rb_simps)
  have K: "krep h' p k" by (rule krep_frame [OF f(9)]) (rule keep, use D(4) in \<open>auto simp: h'_def rb_simps\<close>)
  have A: "rep h' p A" by (rule rep_frame [OF f(6)], rule keep) (use D(5) in auto)
  have X: "rep h' q x" by (rule rep_frame [OF f(7)], rule keep) (use D(4) in auto)
  have Y: "rep h' q y" by (rule rep_frame [OF f(8)], rule keep) (use D(4) in auto)
  have "pcw q h' = p OR bit_of Red" "pcw p h' = kpar k OR bit_of c" "\<And>e a. rb_child e a h' = rb_child e a h"
    using ne f(3) by (simp_all add: h'_def rb_simps)
  then show ?thesis unfolding h'_def [symmetric]
    by (intro zrep_perm [OF z]) (use K A X Y f in \<open>simp_all add: mset_mk\<close>)
qed

lemma set_black_rep:
  assumes z: "zrep h (mk d Red A p s) k"
  shows "zrep (rb_set_black p h) (mk d Black A p s) k"
proof -
  note D = zrepD [OF z]
  define h' where "h' = rb_set_black p h"
  have f: "pcw p h = kpar k OR bit_of Red" "rep h p A" "rep h p s" "krep h p k" using D(1,2) by simp_all
  have h: "h' = set_pc p (kpar k OR bit_of Black) h" by (simp add: h'_def rb_set_black_def f(1))
  have keep: "same h h' a" if "a \<noteq> p" for a using that by (simp add: h same_def rb_simps)
  have "krep h' p k" by (rule krep_frame [OF f(4)]) (rule keep, use D(5) in \<open>auto simp: h rb_simps\<close>)
  moreover have "rep h' p A" by (rule rep_frame [OF f(2)], rule keep) (use D(3) in auto)
  moreover have "rep h' p s" by (rule rep_frame [OF f(3)], rule keep) (use D(3) in auto)
  moreover have "pcw p h' = kpar k OR bit_of Black" "\<And>e a. rb_child e a h' = rb_child e a h" by (simp_all add: h rb_simps)
  ultimately show ?thesis unfolding h'_def [symmetric] using D(1)
    by (intro zrep_perm [OF z]) (simp_all add: mset_mk)
qed

section \<open>Restoring the balance\<close>

definition erase_rest :: "side \<Rightarrow> u64 \<Rightarrow> u64 \<Rightarrow> rb_tree \<Rightarrow> rb_tree option" where
  "erase_rest d parent sibling h =
     (if black_or_null (rb_child (opp d) sibling h) h then
        if black_or_null (rb_child d sibling h) h then
          let h = rb_set_parent_color sibling parent RB_RED h
          in if rb_is_red parent h then Some (rb_set_black parent h)
             else if rb_parent parent h \<noteq> 0 then rb_erase_fix parent (rb_parent parent h) h else Some h
        else Some (erase_rotate d parent (rb_child d sibling h) sibling (erase_inner_red d parent sibling (rb_child d sibling h) h))
      else Some (erase_rotate d parent sibling (rb_child (opp d) sibling h) h))"

lemma erase_fix_unfold:
  assumes "zrep h A (Frame d c p s # k)" "s \<noteq> Leaf" "erase_red_sibling d p (root_of s) h = (q, h')"
  shows "rb_erase_fix (root_of A) p h = erase_rest d p q h'"
proof -
  note D = zrepD [OF assms(1)]
  have "rb_child d p h = root_of A" "rb_child (opp d) p h = root_of s" using D(2) by simp_all
  moreover have "root_of s \<in> set (inorder s)" "root_of A = 0 \<or> root_of A \<in> set (inorder A)"
    using assms(2) root_of_in [of A] by (cases s; simp)+
  then have "root_of A \<noteq> root_of s" using D(5,9) by auto
  ultimately have "(if root_of A \<noteq> rb_child SR p h then SL else SR) = d" "rb_child (opp d) p h = root_of s" by (cases d; simp)+
  then show ?thesis by (subst rb_erase_fix.simps) (simp add: assms(3) erase_rest_def Let_def)
qed

lemma black_or_null_rep:
  assumes "rep h q y" "q = 0 \<or> addr_ok q" "0 \<notin> set (inorder y)"
  shows "black_or_null (root_of y) h \<longleftrightarrow> col y = Black"
proof (cases y)
  case (Node c l a r)
  then have "pcw a h = q OR bit_of c" "a \<noteq> 0" using assms by auto
  then show ?thesis using Node by (simp add: black_or_null_def rb_is_black_def pc_decode(2) [OF assms(2)] del: bit_of.simps)
qed (simp add: black_or_null_def)

lemma red_as_mk: "col x = Red \<Longrightarrow> \<exists>x1 v x2. x = mk d Red x1 v x2"
  by (cases x; cases d; simp)

lemma nonleaf_as_mk: "x \<noteq> Leaf \<Longrightarrow> \<exists>x1 v x2. x = mk d (col x) x1 v x2"
  by (cases x; cases d; simp)

definition fixed :: "side \<Rightarrow> color \<Rightarrow> rtree \<Rightarrow> u64 \<Rightarrow> rtree \<Rightarrow> nat \<Rightarrow> rtree \<Rightarrow> bool" where
  "fixed d c A p s m t \<longleftrightarrow> inorder t = inorder (mk d c A p s) \<and> bal (if c = Black then m + 2 else m + 1) t \<and>
     no_red_red t \<and> (col t = Red \<longrightarrow> c = Red)"

text \<open>
  With a black sibling: either the subtree has its height back, or it is one black node short as a
  whole and the loop goes on above it.
\<close>

lemma erase_rest_ok:
  assumes z: "zrep h A (Frame d c p (mk d Black x q y) # k)" and b: "bal m A" "bal m x" "bal m y"
    and n: "no_red_red A" "no_red_red x" "no_red_red y" "col A = Black"
  shows "(\<exists>h' t. erase_rest d p q h = Some h' \<and> zrep h' t k \<and> fixed d c A p (mk d Black x q y) m t) \<or>
    (c = Black \<and> col x = Black \<and> col y = Black \<and> (\<exists>h'. zrep h' (mk d Black A p (mk d Red x q y)) k \<and>
      erase_rest d p q h = (if kpar k \<noteq> 0 then rb_erase_fix p (kpar k) h' else Some h')))"
proof -
  note D = zrepD [OF z]
  have f: "rb_child d q h = root_of x" "rb_child (opp d) q h = root_of y" "rep h q x" "rep h q y" "pcw p h = kpar k OR bit_of c"
    using D(2) by simp_all
  have ok: "q = 0 \<or> addr_ok q" "kpar k = 0 \<or> addr_ok (kpar k)" using D(7) kpar_ok [of k] by simp_all
  have zx: "0 \<notin> set (inorder x)" "0 \<notin> set (inorder y)" "p \<noteq> q" using D(4,9) by simp_all
  note bl = black_or_null_rep [OF f(3) ok(1) zx(1)] black_or_null_rep [OF f(4) ok(1) zx(2)]
  consider "col y = Red" | "col y = Black" "col x = Red" | "col y = Black" "col x = Black"
    by (cases "col x"; cases "col y") auto
  then show ?thesis
  proof cases
    case 1
    let ?t = "mk d c (mk d Black A p x) q (paint Black y)"
    have "y \<noteq> Leaf" using 1 by auto
    then have "zrep (erase_rotate d p q (root_of y) h) ?t k" by (rule erase_rotate_rep [OF z])
    moreover have "erase_rest d p q h = Some (erase_rotate d p q (root_of y) h)" using 1 by (simp add: erase_rest_def f(1,2) bl)
    moreover have "bal (m + 1) (paint Black y)" using 1 b(3) by (cases y) auto
    then have "fixed d c A p (mk d Black x q y) m ?t" using b n by (cases d) (auto simp: fixed_def)
    ultimately show ?thesis by blast
  next
    case 2
    obtain x1 v x2 where x: "x = mk d Red x1 v x2" using red_as_mk [OF 2(2)] by blast
    have c2: "col x2 = Black" "col x1 = Black" using n(2) by (simp_all add: x)
    define h1 where "h1 = erase_inner_red d p q v h"
    note z1 = inner_red_rep [OF z [unfolded x] c2(1), folded h1_def]
    let ?t = "mk d c (mk d Black A p x1) v (mk d Black x2 q y)"
    have z2: "zrep (erase_rotate d p v q (set_pc v (p OR RB_BLACK) (set_pc q (v OR RB_BLACK) h1))) ?t k"
      using erase_rotate_rep [OF z1] by (cases d) simp_all
    have ne: "v \<noteq> q" "p \<noteq> v" "p \<noteq> q" using D(4) by (simp_all add: x) auto
    have ch: "rb_child d v h1 = root_of x1"
      using zrepD(2) [OF z1] by (simp add: rb_simps)
    have rx: "root_of x1 \<noteq> v" "root_of x1 \<noteq> q"
      using D(4,9) root_of_in [of x1] by (auto simp: x)
    have "erase_rotate d p v q (set_pc v (p OR RB_BLACK) (set_pc q (v OR RB_BLACK) h1)) = erase_rotate d p v q h1"
      by (rule erase_rotate_patch) (use ne rx ch in simp_all)
    moreover have "erase_rest d p q h = Some (erase_rotate d p v q h1)"
      using 2 by (simp add: erase_rest_def f(1,2) bl, simp add: x h1_def)
    moreover have "fixed d c A p (mk d Black x q y) m ?t" using b n c2 by (cases d) (auto simp: fixed_def x)
    ultimately show ?thesis using z2 by metis
  next
    case 3
    define h1 where "h1 = rb_set_parent_color q p RB_RED h"
    have z1: "zrep h1 A (Frame d c p (mk d Red x q y) # k)" unfolding h1_def by (rule recolor_sibling_rep [OF z])
    have pp: "pcw p h1 = kpar k OR bit_of c" using zrepD(2) [OF z1] by simp
    have "rb_is_red p h1 \<longleftrightarrow> c = Red" "rb_parent p h1 = kpar k"
      by (simp_all add: rb_is_red_def rb_parent_def pp pc_decode [OF ok(2)] del: bit_of.simps) (cases c; simp)
    then have r: "erase_rest d p q h = (if c = Red then Some (rb_set_black p h1)
        else if kpar k \<noteq> 0 then rb_erase_fix p (kpar k) h1 else Some h1)"
      using 3 by (simp add: erase_rest_def f(1,2) bl Let_def h1_def [symmetric])
    show ?thesis
    proof (cases c)
      case Red
      have "zrep (rb_set_black p h1) (mk d Black A p (mk d Red x q y)) k"
        by (rule set_black_rep) (use z1 Red in \<open>simp add: zrep_step\<close>)
      moreover have "fixed d c A p (mk d Black x q y) m (mk d Black A p (mk d Red x q y))"
        using b n 3 Red by (cases d) (auto simp: fixed_def)
      ultimately show ?thesis using r Red by auto
    next
      case Black
      then show ?thesis using r z1 3 by (auto simp: zrep_step)
    qed
  qed
qed

lemma erase_fix_ok:
  assumes "zrep h A (Frame d c p s # k)" "bal m A" "bal (Suc m) s" "no_red_red A" "no_red_red s" "col A = Black"
    "c = Red \<longrightarrow> col s = Black \<and> kcol k = Black" "kok k" "kbal (if c = Black then m + 2 else m + 1) k"
  shows "\<exists>h' t. rb_erase_fix (root_of A) p h = Some h' \<and> zrep h' t [] \<and> inorder t = inorder (plug A (Frame d c p s # k)) \<and> rbt_ok t"
  using assms
proof (induction "length k" arbitrary: h A d c p s k m rule: less_induct)
  case less
  note z = less.prems(1)
  have s: "s \<noteq> Leaf" using less.prems(3) by auto
  then obtain x q y where sq: "s = mk d (col s) x q y" using nonleaf_as_mk by blast
  have fin: ?case if "erase_rest d p (root_of s) h = Some h'" "rb_erase_fix (root_of A) p h = erase_rest d p (root_of s) h"
    "zrep h' t k" "fixed d c A p s m t" for h' t
  proof -
    have "rbt_ok (plug t k)" by (rule plug_rbt_ok) (use that(4) less.prems in \<open>auto simp: fixed_def\<close>)
    moreover have "inorder (plug t k) = inorder (plug A (Frame d c p s # k))" using that(4) by (auto simp: fixed_def intro: inorder_plug_cong)
    ultimately show ?thesis using that zrep_plug by auto
  qed
  show ?case
  proof (cases "col s")
    case Black
    have q: "s = mk d Black x q y" "root_of s = q" using sq Black by (metis mk_simps(1))+
    have "pcw q h = p OR bit_of Black" "p = 0 \<or> addr_ok p" using zrepD(2,7) [OF z] by (simp_all add: q(1))
    then have "erase_red_sibling d p q h = (q, h)" by (simp add: erase_red_sibling_def rb_is_red_def pc_decode(2) del: bit_of.simps)
    then have un: "rb_erase_fix (root_of A) p h = erase_rest d p q h" using erase_fix_unfold [OF z s] q(2) by simp
    have b: "bal m x" "bal m y" "no_red_red x" "no_red_red y" using less.prems(3,5) by (auto simp: q(1))
    note R = erase_rest_ok [OF z [unfolded q(1)] less.prems(2) b(1,2) less.prems(4) b(3,4) less.prems(6)]
    show ?thesis
    proof (cases "\<exists>h' t. erase_rest d p q h = Some h' \<and> zrep h' t k \<and> fixed d c A p (mk d Black x q y) m t")
      case True
      then show ?thesis using fin un unfolding q(2) q(1) [symmetric] by blast
    next
      case False
      then obtain h' where h': "c = Black" "col x = Black" "col y = Black" "zrep h' (mk d Black A p (mk d Red x q y)) k"
        "erase_rest d p q h = (if kpar k \<noteq> 0 then rb_erase_fix p (kpar k) h' else Some h')" using R by blast
      define A' where "A' = mk d Black A p (mk d Red x q y)"
      have A': "bal (m + 1) A'" "no_red_red A'" "col A' = Black" "root_of A' = p"
        using less.prems(2,4) b h'(2,3) by (simp_all add: A'_def)
      have io: "inorder A' = inorder (mk d c A p s)" by (cases d) (simp_all add: A'_def q(1))
      show ?thesis
      proof (cases k rule: kpar.cases)
        case 1
        then have "rbt_ok A'" using A' by (auto simp: rbt_ok_def)
        then show ?thesis using un h'(4,5) io 1 unfolding A'_def [symmetric] by auto
      next
        case (2 d' c' p' s' k')
        have z': "zrep h' A' (Frame d' c' p' s' # k')" using h'(4) 2 by (simp add: A'_def)
        have "p' \<noteq> 0" using zrepD(9) [OF z'] by simp
        then have "rb_erase_fix (root_of A) p h = rb_erase_fix (root_of A') p' h'" using un h'(5) 2 A'(4) by simp
        moreover have "\<exists>h'' t. rb_erase_fix (root_of A') p' h' = Some h'' \<and> zrep h'' t [] \<and> inorder t = inorder (plug A' (Frame d' c' p' s' # k')) \<and> rbt_ok t"
          by (rule less.hyps [OF _ z' A'(1)]) (use 2 less.prems(8,9) h'(1) A' in \<open>auto split: if_splits\<close>)
        ultimately show ?thesis using inorder_plug_cong [OF io, of k] 2 by auto
      qed
    qed
  next
    case Red
    have q: "s = mk d Red x q y" "root_of s = q" using sq Red by (metis mk_simps(1))+
    have c: "c = Black" using less.prems(7) Red by (cases c) auto
    have b: "bal (Suc m) x" "bal (Suc m) y" "no_red_red x" "no_red_red y" "col x = Black" "col y = Black"
      using less.prems(3,5) by (auto simp: q(1))
    have xl: "x \<noteq> Leaf" using b(1) by auto
    then obtain x1 w x2 where x: "x = mk d Black x1 w x2" using nonleaf_as_mk b(5) by metis
    obtain h' where h': "erase_red_sibling d p q h = (root_of x, h')" "zrep h' A (Frame d Red p x # Frame d Black q y # k)"
      using red_sibling_rep [OF z [unfolded c q(1)] b(5) xl] by blast
    have un: "rb_erase_fix (root_of A) p h = erase_rest d p w h'"
      using erase_fix_unfold [OF z s] h'(1) by (simp add: q(2) x)
    have bx: "bal m x1" "bal m x2" "no_red_red x1" "no_red_red x2" using b(1,3) by (auto simp: x)
    obtain h'' t where t: "erase_rest d p w h' = Some h''" "zrep h'' t (Frame d Black q y # k)" "fixed d Red A p x m t"
      using erase_rest_ok [OF h'(2) [unfolded x] less.prems(2) bx(1,2) less.prems(4) bx(3,4) less.prems(6)] unfolding x by auto
    have "rbt_ok (plug t (Frame d Black q y # k))"
      by (rule plug_rbt_ok) (use t(3) less.prems b c in \<open>auto simp: fixed_def\<close>)
    moreover have "inorder (mk d Black t q y) = inorder (mk d c A p s)"
      using t(3) by (cases d) (auto simp: fixed_def q(1))
    then have "inorder (plug t (Frame d Black q y # k)) = inorder (plug A (Frame d c p s # k))" by (auto intro: inorder_plug_cong)
    ultimately show ?thesis using un t(1,2) zrep_plug by metis
  qed
qed

section \<open>Unlinking a node\<close>

text \<open>A node with at most one child is replaced by that child.\<close>

lemma unlink_rep:
  assumes z: "zrep h (mk d cs Leaf s y) K"
  shows "zrep (paint_if (root_of y) (kpar K) (bit_of c) (rb_change_child s (root_of y) (kpar K) h)) (paint c y) K"
proof -
  note D = zrepD [OF z]
  define h1 where "h1 = rb_change_child s (root_of y) (kpar K) h"
  define h' where "h' = paint_if (root_of y) (kpar K) (bit_of c) h1"
  have f: "rep h s y" "krep h s K" using D(1,2) by simp_all
  have s: "s \<noteq> 0" "s \<notin> set (kaddrs K)" using D(5,8) by auto
  have y: "distinct (inorder y)" "0 \<notin> set (inorder y)" "set (inorder y) \<inter> set (kaddrs K) = {}" using D(3,5,8) by auto
  have k1: "krep h1 (root_of y) K" unfolding h1_def by (rule change_child_krep [OF f(2) D(4,7) s])
  have K: "krep h' (root_of y) K"
    by (rule krep_frame [OF k1]) (use y root_of_in [of y] in \<open>auto simp: h'_def same_def rb_simps\<close>)
  have keep: "same h h' a" if "a \<in> set (inorder y)" "a \<noteq> root_of y" for a
    using that y(3) kpar_in [of K] by (auto simp: h'_def h1_def same_def rb_simps)
  have c1: "rb_child e (root_of y) h' = rb_child e (root_of y) h" for e
    using root_of_in [of y] kpar_in [of K] y(3) by (auto simp: h'_def h1_def rb_simps)
  have c2: "pcw (root_of y) h' = kpar K OR bit_of c" if "root_of y \<noteq> 0" using that by (simp add: h'_def rb_simps)
  have "rep h' (kpar K) (paint c y)" by (rule rep_adopt [OF f(1) y(1) keep c1 c2 y(2)])
  then show ?thesis unfolding h1_def [symmetric] h'_def [symmetric] using K D(4,6,7) y by (auto simp: zrep_def)
qed

text \<open>A node outside the tree takes the place of the node at the hole.\<close>

lemma replace_rep:
  assumes z: "zrep h (Node c l n r) k" and s: "s \<notin> set (inorder l) \<union> set (inorder r) \<union> set (kaddrs k)" "addr_ok s"
    and hs: "pcw s h' = kpar k OR bit_of c" "rb_child SL s h' = root_of l" "rb_child SR s h' = root_of r" "krep h' s k"
    and keep: "\<And>a. a \<in> set (inorder l) \<union> set (inorder r) \<Longrightarrow> a \<noteq> root_of l \<Longrightarrow> a \<noteq> root_of r \<Longrightarrow> same h h' a"
    and l: "\<And>e. rb_child e (root_of l) h' = rb_child e (root_of l) h" "root_of l \<noteq> 0 \<Longrightarrow> pcw (root_of l) h' = s OR bit_of (col l)"
    and r: "\<And>e. rb_child e (root_of r) h' = rb_child e (root_of r) h" "root_of r \<noteq> 0 \<Longrightarrow> pcw (root_of r) h' = s OR bit_of (col r)"
  shows "zrep h' (Node c l s r) k"
proof -
  note D = zrepD [OF z]
  have f: "rep h n l" "rep h n r" using D(1) by simp_all
  have d: "distinct (inorder l)" "distinct (inorder r)" "0 \<notin> set (inorder l)" "0 \<notin> set (inorder r)" "set (inorder l) \<inter> set (inorder r) = {}"
    using D(3,8) by auto
  have ne: "a \<noteq> root_of r" if "a \<in> set (inorder l)" for a using that d(3,5) root_of_in [of r] by auto
  have ne': "a \<noteq> root_of l" if "a \<in> set (inorder r)" for a using that d(4,5) root_of_in [of l] by auto
  have "rep h' s (paint (col l) l)"
    by (rule rep_adopt [OF f(1) d(1) _ l d(3)]) (auto intro!: keep dest: ne)
  moreover have "rep h' s (paint (col r) r)"
    by (rule rep_adopt [OF f(2) d(2) _ r d(4)]) (auto intro!: keep dest: ne')
  ultimately show ?thesis using hs D s by (auto simp: zrep_def)
qed

section \<open>The successor\<close>

lemma plug_app: "plug t (ks @ k) = plug (plug t ks) k"
  by (induction t ks rule: plug.induct) simp_all

lemma zrep_app: "zrep h t (ks @ k) \<longleftrightarrow> zrep h (plug t ks) k"
  by (induction t ks rule: plug.induct) (simp_all add: zrep_step)

lemma kaddrs_app: "kaddrs (ks @ k) = kaddrs ks @ kaddrs k"
  by (induction ks rule: kaddrs.induct) simp_all

lemma kpar_app: "kpar (ks @ k) = (if ks = [] then kpar k else kpar ks)"
  by (cases ks rule: kpar.cases) simp_all

lemma plug_root: "ks \<noteq> [] \<Longrightarrow> root_of (plug t ks) = root_of (plug t' ks) \<and> col (plug t ks) = col (plug t' ks)"
proof (induction t ks arbitrary: t' rule: plug.induct)
  case (2 t d c a s k)
  then show ?case by (cases "k = []") auto
qed simp

lemma plug_root_in: "ks \<noteq> [] \<Longrightarrow> root_of (plug t ks) \<in> set (kaddrs ks)"
proof (induction t ks rule: plug.induct)
  case (2 t d c a s k)
  then show ?case by (cases "k = []") auto
qed simp

lemma set_inorder_plug: "set (inorder (plug t k)) = set (inorder t) \<union> set (kaddrs k)"
  by (auto simp: inorder_plug set_kaddrs)

lemma rep_root: "rep h p t \<Longrightarrow> t \<noteq> Leaf \<Longrightarrow> pcw (root_of t) h = p OR bit_of (col t)"
  by (cases t) auto

definition goes_left :: "frame \<Rightarrow> bool" where
  "goes_left f \<longleftrightarrow> (case f of Frame d c a s \<Rightarrow> d = SL)"

lemma goes_left_Frame [simp]: "goes_left (Frame d c a s) \<longleftrightarrow> d = SL"
  by (simp add: goes_left_def)

lemma leftmost_below_rep:
  assumes "rep h p (Node c l a r)" "0 \<notin> set (inorder l)"
  shows "\<exists>ks cs s y. Node c l a r = plug (Node cs Leaf s y) ks \<and> list_all goes_left ks \<and> (ks = [] \<longleftrightarrow> l = Leaf) \<and>
    leftmost_below p0 a (root_of l) h = Some (if ks = [] then p0 else kpar ks, s)"
  using assms
proof (induction l arbitrary: p c a r p0)
  case Leaf
  have "leftmost_below p0 a 0 h = Some (p0, a)" by (simp add: leftmost_below.simps)
  then show ?case by (intro exI [of _ "[]"] exI [of _ c] exI [of _ a] exI [of _ r]) simp
next
  case (Node c' l' b r')
  have b: "b \<noteq> 0" "rep h a (Node c' l' b r')" "0 \<notin> set (inorder l')" using Node.prems by auto
  obtain ks cs s y where *: "Node c' l' b r' = plug (Node cs Leaf s y) ks" "list_all goes_left ks"
    "leftmost_below a b (root_of l') h = Some (if ks = [] then a else kpar ks, s)"
    using Node.IH(1) [OF b(2,3), of a] by blast
  have "rb_child SL b h = root_of l'" using b(2) by simp
  then have "leftmost_below p0 a b h = Some (if ks = [] then a else kpar ks, s)"
    using *(3) b(1) by (subst leftmost_below.simps) simp
  moreover have "Node c (Node c' l' b r') a r = plug (Node cs Leaf s y) (ks @ [Frame SL c a r])" using *(1) by (simp add: plug_app)
  ultimately show ?case using *(2)
    by (intro exI [of _ "ks @ [Frame SL c a r]"] exI [of _ cs] exI [of _ s] exI [of _ y]) (simp add: kpar_app)
qed

lemma goes_left_child:
  assumes "krep h p (ks @ k)" "list_all goes_left ks" "ks \<noteq> []"
  shows "rb_child SL (kpar ks) h = p"
proof (cases ks rule: kpar.cases)
  case (2 d c a s k')
  then show ?thesis using assms by simp
qed (use assms(3) in simp)

lemma splice_result:
  "erase_splice n s par c2 h =
     (let hB = rb_set_parent (rb_child SL n h) s (set_child SL s (rb_child SL n h) h);
          hC = rb_change_child n s (parent_of_pc (pcw n hB)) hB
      in (if c2 \<noteq> 0 then 0 else if is_black_pc (pcw s hC) then par else 0, paint_if c2 par RB_BLACK (set_pc s (pcw n hB) hC)))"
  unfolding erase_splice_def Let_def paint_if_def by simp

text \<open>
  The successor \<open>s\<close>, already unlinked from the right subtree \<open>r\<close> (heap \<open>h1\<close>), takes the place of \<open>n\<close>;
  \<open>hA\<close> is the heap in which the code calls for it.
\<close>

lemma splice_rep:
  assumes z: "zrep h1 (Node c l n r) k" and l: "l \<noteq> Leaf"
    and s: "s \<notin> set (inorder l) \<union> set (inorder r) \<union> set (kaddrs k)" "addr_ok s" "s \<noteq> n"
    and n: "pcw n hA = kpar k OR bit_of c" "rb_child SL n hA = root_of l"
    and sA: "rb_child SR s hA = root_of r" "pcw s hA = q OR bit_of cs" "q = 0 \<or> addr_ok q"
    and ch: "\<And>a e. a \<noteq> n \<Longrightarrow> a \<noteq> s \<Longrightarrow> rb_child e a hA = rb_child e a h1" "rb_root hA = rb_root h1"
    and pc: "\<And>a. a \<in> set (inorder l) \<union> set (kaddrs k) \<Longrightarrow> pcw a hA = pcw a h1"
    and pr: "\<And>a. a \<in> set (inorder r) \<Longrightarrow> pcw a (paint_if c2 par RB_BLACK hA) = (if a = root_of r then s OR bit_of (col r) else pcw a h1)"
    and c2: "c2 = 0 \<or> c2 \<in> set (inorder r)"
  shows "\<exists>h'. erase_splice n s par c2 hA = (if c2 \<noteq> 0 then 0 else if cs = Black then par else 0, h') \<and> zrep h' (Node c l s r) k"
proof -
  note D = zrepD [OF z]
  have ok: "kpar k = 0 \<or> addr_ok (kpar k)" "n = 0 \<or> addr_ok n" using kpar_ok [OF D(7)] D(6) by auto
  have f: "rep h1 n l" "krep h1 n k" using D(1,2) by simp_all
  have rl: "root_of l \<in> set (inorder l)" "pcw (root_of l) h1 = n OR bit_of (col l)" using l rep_root [OF f(1)] by (cases l; simp)+
  have s0: "s \<noteq> 0" "s \<noteq> root_of l" "n \<noteq> root_of l" "n \<noteq> 0" "n \<notin> set (kaddrs k)" using s(1,2) rl(1) D(3,5,8) by (auto simp: addr_ok_def)
  define hB where "hB = rb_set_parent (root_of l) s (set_child SL s (root_of l) hA)"
  define h' where "h' = paint_if c2 par RB_BLACK (set_pc s (kpar k OR bit_of c) (rb_change_child n s (kpar k) hB))"
  have pB: "pcw n hB = kpar k OR bit_of c" "pcw s hB = q OR bit_of cs" using s0 s(3) n sA by (simp_all add: hB_def rb_simps)
  have e: "erase_splice n s par c2 hA = (if c2 \<noteq> 0 then 0 else if cs = Black then par else 0, h')"
    unfolding splice_result Let_def n(2) hB_def [symmetric] pB pc_decode(1) [OF ok(1)] h'_def
    by (simp add: rb_simps pB pc_decode(2) [OF sA(3)] del: bit_of.simps)
  have offk: "a \<notin> set (kaddrs k) \<Longrightarrow> a \<noteq> 0 \<Longrightarrow> a \<noteq> kpar k" for a using kpar_in [of k] by auto
  have chl: "rb_child e a h' = rb_child e a h1" if "a \<noteq> n" "a \<noteq> s" "a \<noteq> kpar k \<or> kpar k = 0" for a e
    using that ch(1) by (auto simp: h'_def hB_def rb_simps)
  have out: "a \<noteq> n" "a \<noteq> s" "a \<noteq> kpar k \<or> kpar k = 0" if "a \<in> set (inorder l) \<union> set (inorder r)" for a
    using that D(3,5,8) s(1) offk [of a] by auto
  have pl: "pcw a h' = (if a = root_of l then s OR bit_of (col l) else pcw a h1)" if "a \<in> set (inorder l)" for a
  proof -
    have "a \<noteq> c2 \<or> c2 = 0" "a \<noteq> s" using that c2 D(3,8) s(1) by auto
    then show ?thesis using that pc [of a] rl(2)
      by (auto simp: h'_def hB_def rb_simps rb_color_def pc_decode(3) [OF ok(2)] or.commute simp del: bit_of.simps)
  qed
  have pr': "pcw a h' = (if a = root_of r then s OR bit_of (col r) else pcw a h1)" if "a \<in> set (inorder r)" for a
  proof -
    have "a \<noteq> s" "a \<noteq> root_of l" using that s(1) D(3) rl(1) by auto
    then have "pcw a h' = pcw a (paint_if c2 par RB_BLACK hA)" by (simp add: h'_def hB_def rb_simps)
    then show ?thesis using pr [OF that] by simp
  qed
  have k1: "krep (rb_change_child n s (kpar k) h1) s k" by (rule change_child_krep [OF f(2) D(4,7) s0(4,5)])
  have K: "krep h' s k"
  proof (rule krep_frame [OF k1])
    show "same (rb_change_child n s (kpar k) h1) h' a" if "a \<in> set (kaddrs k)" for a
    proof -
      have "a \<noteq> n" "a \<noteq> s" "a \<noteq> root_of l" "a \<noteq> c2 \<or> c2 = 0" "kpar k \<noteq> n" "kpar k \<noteq> s"
        using that D(5) s(1) s0 rl(1) c2 kpar_in [of k] by auto
      then show ?thesis using that ch(1) pc [of a] by (auto simp: same_def h'_def hB_def rb_simps)
    qed
    show "rb_root h' = rb_root (rb_change_child n s (kpar k) h1)"
      using ch(2) by (cases "kpar k = 0") (simp_all add: h'_def hB_def rb_simps, simp add: rb_change_child_def)
  qed
  have rin: "root_of r \<noteq> 0 \<Longrightarrow> root_of r \<in> set (inorder r)" using root_of_in [of r] by blast
  have "zrep h' (Node c l s r) k"
  proof (rule replace_rep [OF z s(1,2) _ _ _ K])
    show "pcw s h' = kpar k OR bit_of c" "rb_child SL s h' = root_of l" "rb_child SR s h' = root_of r"
      using c2 s(1) sA(1) s0(1) offk [of s] by (auto simp: h'_def hB_def rb_simps)
    show "same h1 h' a" if a: "a \<in> set (inorder l) \<union> set (inorder r)" "a \<noteq> root_of l" "a \<noteq> root_of r" for a
      using chl [OF out [OF a(1)]] pl [of a] pr' [of a] a by (auto simp: same_def)
    show "rb_child e (root_of l) h' = rb_child e (root_of l) h1" for e using chl [OF out, of "root_of l"] rl(1) by simp
    show "rb_child e (root_of r) h' = rb_child e (root_of r) h1" for e
      using chl [OF out, of "root_of r"] rin chl [of 0 e] s0 by (cases "root_of r = 0") auto
    show "pcw (root_of l) h' = s OR bit_of (col l)" using pl [OF rl(1)] by simp
    show "pcw (root_of r) h' = s OR bit_of (col r)" if "root_of r \<noteq> 0" using pr' [OF rin [OF that]] by simp
  qed
  then show ?thesis using e by blast
qed

text \<open>The successor is the right child: it has no left child and keeps its right child.\<close>

lemma splice_child_rep:
  assumes z: "zrep h (Node c l n (Node cs Leaf s y)) k" and l: "l \<noteq> Leaf"
  shows "\<exists>h'. erase_splice n s s (root_of y) h = (if root_of y \<noteq> 0 then 0 else if cs = Black then s else 0, h') \<and>
    zrep h' (paint Black y) (Frame SR c s l # k)"
proof -
  note D = zrepD [OF z]
  have f: "pcw n h = kpar k OR bit_of c" "rb_child SL n h = root_of l" "pcw s h = n OR bit_of cs" "rb_child SR s h = root_of y"
    "rb_child SR n h = s" using D(1) by simp_all
  have ne: "n \<noteq> 0" "n \<noteq> s" "n \<notin> set (inorder y)" "0 \<notin> set (inorder y)" using D(3,8) by auto
  define h1 where "h1 = paint_if (root_of y) n (bit_of Black) (rb_change_child s (root_of y) n h)"
  have z0: "zrep h (mk SL cs Leaf s y) (Frame SR c n l # k)" using z by (simp add: zrep_step)
  have z1: "zrep h1 (Node c l n (paint Black y)) k" using unlink_rep [OF z0, of Black] by (simp add: zrep_step h1_def)
  have "\<exists>h'. erase_splice n s s (root_of y) h = (if root_of y \<noteq> 0 then 0 else if cs = Black then s else 0, h') \<and> zrep h' (Node c l s (paint Black y)) k"
  proof (rule splice_rep [OF z1 l _ _ _ f(1,2)])
    show "s \<notin> set (inorder l) \<union> set (inorder (paint Black y)) \<union> set (kaddrs k)" "addr_ok s" "s \<noteq> n" "n = 0 \<or> addr_ok n"
      using D(3,5,6) by auto
    show "pcw a h = pcw a h1" if "a \<in> set (inorder l) \<union> set (kaddrs k)" for a
      using that D(3,5,8,9) root_of_in [of y] by (auto simp: h1_def rb_simps)
    show "rb_child e a h = rb_child e a h1" if "a \<noteq> n" for a e using that by (simp add: h1_def rb_simps)
  qed (use f ne root_of_in [of y] in \<open>auto simp: h1_def rb_simps\<close>)
  then show ?thesis by (simp add: zrep_step)
qed

text \<open>The successor is further down: its right child takes its place, then it takes the place of the node.\<close>

lemma splice_far_rep:
  assumes z: "zrep h (Node cs Leaf s y) (ks @ Frame SR c n l # k)" and ks: "list_all goes_left ks" "ks \<noteq> []" and l: "l \<noteq> Leaf"
  defines "w \<equiv> root_of (plug (Node cs Leaf s y) ks)"
  shows "\<exists>h'. erase_splice n s (kpar ks) (root_of y) (rb_set_parent w s (set_child SR s w (set_child SL (kpar ks) (root_of y) h))) =
      (if root_of y \<noteq> 0 then 0 else if cs = Black then kpar ks else 0, h') \<and>
    zrep h' (paint Black y) (ks @ Frame SR c s l # k)"
proof -
  define p where "p = kpar ks"
  define r where "r = plug (paint Black y) ks"
  define hA where "hA = rb_set_parent w s (set_child SR s w (set_child SL p (root_of y) h))"
  note D = zrepD [OF z]
  have zn: "zrep h (Node c l n (plug (Node cs Leaf s y) ks)) k" using z by (simp add: zrep_app zrep_step)
  have rr: "root_of r = w" "col r = col (plug (Node cs Leaf s y) ks)" unfolding w_def r_def using plug_root [OF ks(2)] by blast+
  have win: "w \<in> set (kaddrs ks)" unfolding w_def by (rule plug_root_in [OF ks(2)])
  have pin: "p \<in> set (kaddrs ks)" using ks(2) by (cases ks rule: kpar.cases) (simp_all add: p_def)
  have f: "pcw n h = kpar k OR bit_of c" "rb_child SL n h = root_of l" "rep h n (plug (Node cs Leaf s y) ks)"
    using zrepD(1) [OF zn] by simp_all
  have ps: "pcw s h = p OR bit_of cs" using D(1) ks(2) by (simp add: kpar_app p_def)
  have pl: "rb_child SL p h = s" using goes_left_child [OF D(2) ks] by (simp add: p_def)
  have ok: "n = 0 \<or> addr_ok n" "p = 0 \<or> addr_ok p" using D(7) pin by (auto simp: kaddrs_app)
  have w0: "w \<noteq> 0" "p \<noteq> 0" using D(9) win pin by (auto simp: kaddrs_app)
  have "plug (Node cs Leaf s y) ks \<noteq> Leaf" using w0(1) unfolding w_def by auto
  then have rw: "pcw w h = n OR bit_of (col r)" using rep_root [OF f(3)] by (simp add: w_def rr(2))
  have ne: "s \<noteq> p" "s \<noteq> w" "s \<noteq> n" "n \<noteq> p" "n \<noteq> w" "n \<noteq> 0" using D(4,5,9) pin win by (auto simp: kaddrs_app)
  have yin: "root_of y = 0 \<or> root_of y \<in> set (inorder r)" using root_of_in [of y] by (auto simp: r_def set_inorder_plug)
  have wy: "root_of y \<noteq> w" using D(5,9) win root_of_in [of y] by (auto simp: kaddrs_app)
  define h1 where "h1 = paint_if (root_of y) p (bit_of Black) (rb_change_child s (root_of y) p h)"
  have z0: "zrep h (mk SL cs Leaf s y) (ks @ Frame SR c n l # k)" using z by simp
  have z1: "zrep h1 (Node c l n r) k"
    using unlink_rep [OF z0, of Black] ks(2) by (simp add: h1_def zrep_app zrep_step kpar_app p_def r_def)
  have sr: "s \<notin> set (inorder l) \<union> set (inorder r) \<union> set (kaddrs k)" "addr_ok s"
    using D(3,5,6) by (auto simp: r_def set_inorder_plug kaddrs_app)
  have w1: "w \<notin> set (inorder l) \<union> set (kaddrs k)" using D(4) win by (auto simp: kaddrs_app)
  have "\<exists>h'. erase_splice n s p (root_of y) hA = (if root_of y \<noteq> 0 then 0 else if cs = Black then p else 0, h') \<and> zrep h' (Node c l s r) k"
  proof (rule splice_rep [OF z1 l sr ne(3)])
    show "pcw n hA = kpar k OR bit_of c" "rb_child SL n hA = root_of l" "rb_child SR s hA = root_of r" "pcw s hA = p OR bit_of cs"
      using f(1,2) ne rr(1) ps by (auto simp: hA_def rb_simps)
    show "rb_child e a hA = rb_child e a h1" if "a \<noteq> s" for a e using that pl w0 by (auto simp: hA_def h1_def rb_simps)
    show "pcw a hA = pcw a h1" if "a \<in> set (inorder l) \<union> set (kaddrs k)" for a
    proof -
      have "root_of y = 0 \<or> a \<noteq> root_of y" using that D(5,9) root_of_in [of y] by (auto simp: kaddrs_app)
      moreover have "a \<noteq> w" using that w1 by blast
      ultimately show ?thesis by (auto simp: hA_def h1_def rb_simps)
    qed
    show "pcw a (paint_if (root_of y) p RB_BLACK hA) = (if a = root_of r then s OR bit_of (col r) else pcw a h1)" if "a \<in> set (inorder r)" for a
      using wy ne rw unfolding rr(1)
      by (auto simp: hA_def h1_def rb_simps rb_color_def pc_decode(3) [OF ok(1)] or.commute simp del: bit_of.simps) (simp_all add: or.commute)
    show "rb_root hA = rb_root h1" using w0 by (simp add: hA_def h1_def rb_simps)
  qed (use ok yin in auto)
  then show ?thesis unfolding hA_def p_def by (simp add: zrep_app zrep_step r_def)
qed

section \<open>Removal is correct\<close>

lemma one_child:
  assumes "bal m (mk d cs Leaf s y)" "no_red_red (mk d cs Leaf s y)" "y \<noteq> Leaf"
  shows "cs = Black \<and> col y = Red \<and> bal m (paint Black y)"
  using assms by (cases y; cases cs; cases "col y") auto

text \<open>What is left of the tree when a node with at most one child has been unlinked.\<close>

definition unlinked :: "rb_tree \<Rightarrow> u64 \<Rightarrow> rtree \<Rightarrow> frame list \<Rightarrow> bool" where
  "unlinked h reb y K \<longleftrightarrow> zrep h (paint Black y) K \<and> (\<exists>m d cs s. kok K \<and> kbal m K \<and> bal m (mk d cs Leaf s y) \<and>
     no_red_red (mk d cs Leaf s y) \<and> (cs = Red \<longrightarrow> kcol K = Black) \<and> reb = (if root_of y \<noteq> 0 then 0 else if cs = Black then kpar K else 0))"

lemma unlinked_fix:
  assumes "unlinked h reb y K"
  shows "\<exists>h' t. (if reb \<noteq> 0 then rb_erase_fix 0 reb h else Some h) = Some h' \<and> tree_ok h' t \<and> inorder t = inorder (plug y K)"
proof -
  obtain m d cs s where z: "zrep h (paint Black y) K" and k: "kok K" "kbal m K" and b: "bal m (mk d cs Leaf s y)" "no_red_red (mk d cs Leaf s y)"
    and c: "cs = Red \<longrightarrow> kcol K = Black" and reb: "reb = (if root_of y \<noteq> 0 then 0 else if cs = Black then kpar K else 0)"
    using assms unfolding unlinked_def by blast
  have stay: ?thesis if "reb = 0" "bal m (paint Black y)"
  proof -
    have "rbt_ok (plug (paint Black y) K)" by (rule plug_rbt_ok [OF that(2) k(2)]) (use b k in auto)
    moreover have "inorder (plug (paint Black y) K) = inorder (plug y K)" by (rule inorder_plug_cong) simp
    ultimately show ?thesis using that(1) z zrep_plug [of h "paint Black y" K] by (auto simp: tree_ok_def)
  qed
  show ?thesis
  proof (cases "y = Leaf")
    case False
    have "root_of y \<noteq> 0" using False zrepD(8) [OF z] by (cases y) auto
    then show ?thesis using stay one_child [OF b False] reb by simp
  next
    case y: True
    show ?thesis
    proof (cases cs)
      case Red
      then show ?thesis using stay reb y b(1) by simp
    next
      case Black
      then have m: "m = 1" using b(1) y by simp
      show ?thesis
      proof (cases K rule: kpar.cases)
        case 1
        then show ?thesis using z y reb by (auto simp: tree_ok_def rbt_ok_def)
      next
        case (2 d' c' p s' K')
        have "p \<noteq> 0" using zrepD(9) [OF z] 2 by auto
        moreover have "\<exists>h' t. rb_erase_fix (root_of Leaf) p h = Some h' \<and> zrep h' t [] \<and> inorder t = inorder (plug Leaf (Frame d' c' p s' # K')) \<and> rbt_ok t"
          by (rule erase_fix_ok [where m = 0]) (use z y 2 k m in \<open>auto split: if_splits\<close>)
        ultimately show ?thesis using reb y Black 2 by (auto simp: tree_ok_def)
      qed
    qed
  qed
qed

lemma frame_addr:
  "kok (ks @ Frame d c a s # k) = kok (ks @ Frame d c b s # k)" "kbal m (ks @ Frame d c a s # k) = kbal m (ks @ Frame d c b s # k)"
  "kcol (ks @ Frame d c a s # k) = kcol (ks @ Frame d c b s # k)"
proof -
  show kc: "kcol (ks @ Frame d c a s # k) = kcol (ks @ Frame d c b s # k)" for ks by (cases ks rule: kcol.cases) simp_all
  show "kok (ks @ Frame d c a s # k) = kok (ks @ Frame d c b s # k)" by (induction ks rule: kok.induct) (simp_all add: kc)
  show "kbal m (ks @ Frame d c a s # k) = kbal m (ks @ Frame d c b s # k)" by (induction m ks rule: kbal.induct) simp_all
qed

lemma rbt_ok_plugD:
  assumes "rbt_ok (plug t k)"
  obtains m where "kok k" "no_red_red t" "col t = Red \<longrightarrow> kcol k = Black" "bal m t" "kbal m k"
  using assms plug_kok [of t k] plug_kbal [of _ t k] unfolding rbt_ok_def by blast

lemma inorder_left: "list_all goes_left ks \<Longrightarrow> inorder (plug (Node cs Leaf s y) ks) = s # inorder (plug y ks)"
proof -
  assume "list_all goes_left ks"
  then have "kl ks = []" by (induction ks rule: kl.induct) simp_all
  then show ?thesis by (simp add: inorder_plug)
qed

text \<open>A node with two children: the successor \<open>s\<close> is unlinked and takes its place.\<close>

lemma unlinked_successor:
  assumes "rbt_ok (plug (Node cs Leaf s y) (ks @ Frame SR c n l # k))" "zrep h (paint Black y) (ks @ Frame SR c s l # k)"
  shows "unlinked h (if root_of y \<noteq> 0 then 0 else if cs = Black then (if ks = [] then s else kpar ks) else 0) y (ks @ Frame SR c s l # k)"
proof -
  obtain m where K: "kok (ks @ Frame SR c n l # k)" "no_red_red (Node cs Leaf s y)" "cs = Red \<longrightarrow> kcol (ks @ Frame SR c n l # k) = Black"
    "bal m (mk SL cs Leaf s y)" "kbal m (ks @ Frame SR c n l # k)" using rbt_ok_plugD [OF assms(1)] by auto
  show ?thesis unfolding unlinked_def
    using K assms(2) by (intro conjI exI [of _ m] exI [of _ SL] exI [of _ cs] exI [of _ s]) (simp_all add: frame_addr [where a = n and b = s] kpar_app)
qed

lemma root_zero: "0 \<notin> set (inorder t) \<Longrightarrow> root_of t \<noteq> 0 \<longleftrightarrow> t \<noteq> Leaf"
  by (cases t) auto

lemma erase_node_ok:
  assumes z: "zrep h (Node c l n r) k" and ok: "rbt_ok (plug (Node c l n r) k)"
  shows "\<exists>reb h' y K. rb_erase_node n h = Some (reb, h') \<and> unlinked h' reb y K \<and> inorder (plug y K) = kl k @ inorder l @ inorder r @ kr k"
proof -
  note D = zrepD [OF z]
  have f: "pcw n h = kpar k OR bit_of c" "rb_child SL n h = root_of l" "rb_child SR n h = root_of r" "rep h n r" using D(1) by simp_all
  have kok: "kpar k = 0 \<or> addr_ok (kpar k)" by (rule kpar_ok [OF D(7)])
  have nz: "root_of l \<noteq> 0 \<longleftrightarrow> l \<noteq> Leaf" "root_of r \<noteq> 0 \<longleftrightarrow> r \<noteq> Leaf" using D(8) root_zero [of l] root_zero [of r] by simp_all
  note dec = pc_decode(1,2) [OF kok]
  have one: ?thesis if t: "Node c l n r = mk d c Leaf n y" and io: "inorder l @ inorder r = inorder y"
    and e: "rb_erase_node n h = Some (if root_of y \<noteq> 0 then 0 else if c = Black then kpar k else 0,
      paint_if (root_of y) (kpar k) (bit_of c) (rb_change_child n (root_of y) (kpar k) h))" for d y
  proof -
    obtain m where m: "kok k" "no_red_red (mk d c Leaf n y)" "c = Red \<longrightarrow> kcol k = Black" "bal m (mk d c Leaf n y)" "kbal m k"
      using rbt_ok_plugD [OF ok] unfolding t by auto
    have "paint c y = paint Black y" using one_child [OF m(4,2)] by (cases y) auto
    then have "zrep (paint_if (root_of y) (kpar k) (bit_of c) (rb_change_child n (root_of y) (kpar k) h)) (paint Black y) k"
      using unlink_rep [of h d c n y k c] z t by simp
    then have "unlinked (paint_if (root_of y) (kpar k) (bit_of c) (rb_change_child n (root_of y) (kpar k) h))
        (if root_of y \<noteq> 0 then 0 else if c = Black then kpar k else 0) y k"
      unfolding unlinked_def using m by blast
    moreover have "inorder (plug y k) = kl k @ inorder l @ inorder r @ kr k" unfolding inorder_plug io [symmetric] by simp
    ultimately show ?thesis using e by blast
  qed
  show ?thesis
  proof (cases "l = Leaf \<or> r = Leaf")
    case True
    show ?thesis
    proof (cases "l = Leaf")
      case l: True
      show ?thesis
        by (rule one [of SL r]) (use l nz in \<open>simp_all add: rb_erase_node_def f(1-3) dec Let_def paint_if_def rb_set_parent_color_def del: bit_of.simps\<close>)
    next
      case l: False
      then have r: "r = Leaf" using True by simp
      have "rb_change_child n (root_of l) (kpar k) (set_pc (root_of l) (kpar k OR bit_of c) h) =
          paint_if (root_of l) (kpar k) (bit_of c) (rb_change_child n (root_of l) (kpar k) h)"
        using l nz(1) by (intro heap_eqI) (auto simp: rb_simps, auto simp: rb_change_child_def rb_simps)
      then show ?thesis
        by (intro one [of SR l]) (use l r nz in \<open>simp_all add: rb_erase_node_def f(1-3) dec Let_def del: bit_of.simps\<close>)
    qed
  next
    case False
    then have l: "l \<noteq> Leaf" and r: "r \<noteq> Leaf" by auto
    then obtain cr rl w rr where rw: "r = Node cr rl w rr" by (cases r) auto
    obtain ks cs s y where lm: "r = plug (Node cs Leaf s y) ks" "list_all goes_left ks" "ks = [] \<longleftrightarrow> rl = Leaf"
      "leftmost_below w w (root_of rl) h = Some (if ks = [] then w else kpar ks, s)"
      using leftmost_below_rep [OF f(4) [unfolded rw], of w] D(8) rw by auto
    have z': "zrep h (Node cs Leaf s y) (ks @ Frame SR c n l # k)" using z lm(1) by (simp add: zrep_app zrep_step)
    have ok': "rbt_ok (plug (Node cs Leaf s y) (ks @ Frame SR c n l # k))" using ok lm(1) by (simp add: plug_app)
    have io: "inorder (plug y (ks @ Frame SR c s l # k)) = kl k @ inorder l @ inorder r @ kr k"
      using inorder_left [OF lm(2), of cs s y] lm(1) by (simp add: plug_app inorder_plug)
    have sy: "rb_child SR s h = root_of y" "rb_child SL w h = root_of rl" "root_of rl \<noteq> 0 \<longleftrightarrow> rl \<noteq> Leaf"
      using zrepD(1) [OF z'] f(4) D(8) rw root_zero [of rl] by simp_all
    show ?thesis
    proof (cases "ks = []")
      case True
      then have w: "w = s" "rr = y" "cr = cs" "rl = Leaf" using lm(1,3) rw by auto
      obtain h' where h': "erase_splice n s s (root_of y) h = (if root_of y \<noteq> 0 then 0 else if cs = Black then s else 0, h')"
        "zrep h' (paint Black y) (Frame SR c s l # k)" using splice_child_rep [OF z [unfolded rw w] l] by blast
      then have "rb_erase_node n h = Some (if root_of y \<noteq> 0 then 0 else if cs = Black then s else 0, h')"
        using l nz(1) D(8) sy by (simp add: rb_erase_node_def f(2,3) rw w Let_def)
      moreover have "unlinked h' (if root_of y \<noteq> 0 then 0 else if cs = Black then s else 0) y (ks @ Frame SR c s l # k)"
        using unlinked_successor [OF ok', of h'] h'(2) True by (auto split: if_splits)
      ultimately show ?thesis using io by blast
    next
      case False
      obtain h' where h': "erase_splice n s (kpar ks) (root_of y) (rb_set_parent w s (set_child SR s w (set_child SL (kpar ks) (root_of y) h))) =
          (if root_of y \<noteq> 0 then 0 else if cs = Black then kpar ks else 0, h')" "zrep h' (paint Black y) (ks @ Frame SR c s l # k)"
        using splice_far_rep [OF z' lm(2) False l] unfolding lm(1) [symmetric] rw by auto
      then have "rb_erase_node n h = Some (if root_of y \<noteq> 0 then 0 else if cs = Black then kpar ks else 0, h')"
        using l nz r False lm(3,4) sy by (simp add: rb_erase_node_def f(2,3) rw Let_def)
      moreover have "unlinked h' (if root_of y \<noteq> 0 then 0 else if cs = Black then kpar ks else 0) y (ks @ Frame SR c s l # k)"
        using unlinked_successor [OF ok' h'(2)] False by (auto split: if_splits)
      ultimately show ?thesis using io by blast
    qed
  qed
qed

lemma in_plug: "n \<in> set (inorder t) \<Longrightarrow> \<exists>c l r k. t = plug (Node c l n r) k"
proof (induction t)
  case (Node c l a r)
  consider "n = a" | "n \<in> set (inorder l)" | "n \<in> set (inorder r)" using Node.prems by auto
  then show ?case
  proof cases
    case 1
    then show ?thesis by (metis plug.simps(1))
  next
    case 2
    then obtain c' l' r' k where "l = plug (Node c' l' n r') k" using Node.IH(1) by blast
    then have "Node c l a r = plug (Node c' l' n r') (k @ [Frame SL c a r])" by (simp add: plug_app)
    then show ?thesis by blast
  next
    case 3
    then obtain c' l' r' k where "r = plug (Node c' l' n r') k" using Node.IH(2) by blast
    then have "Node c l a r = plug (Node c' l' n r') (k @ [Frame SR c a l])" by (simp add: plug_app)
    then show ?thesis by blast
  qed
qed simp

lemma rb_erase_ok:
  assumes "tree_ok h t" "n \<in> set (inorder t)"
  shows "\<exists>h' t'. rb_erase n h = Some h' \<and> tree_ok h' t' \<and> inorder t' = remove1 n (inorder t)"
proof -
  obtain c l r k where t: "t = plug (Node c l n r) k" using in_plug [OF assms(2)] by blast
  have z: "zrep h (Node c l n r) k" "rbt_ok (plug (Node c l n r) k)" using assms(1) zrep_plug unfolding tree_ok_def t by blast+
  obtain reb h1 y K where e: "rb_erase_node n h = Some (reb, h1)" "unlinked h1 reb y K"
    "inorder (plug y K) = kl k @ inorder l @ inorder r @ kr k" using erase_node_ok [OF z] by blast
  obtain h' t' where h': "(if reb \<noteq> 0 then rb_erase_fix 0 reb h1 else Some h1) = Some h'" "tree_ok h' t'" "inorder t' = inorder (plug y K)"
    using unlinked_fix [OF e(2)] by blast
  have "distinct (inorder t)" using assms(1) by (simp add: tree_ok_def zrep_def)
  then have "remove1 n (inorder t) = kl k @ inorder l @ inorder r @ kr k"
    unfolding t inorder_plug by (simp add: remove1_append)
  then show ?thesis using e(1,3) h' by (auto simp: rb_erase_def)
qed

section \<open>Search is correct\<close>

lemma rb_first_ok:
  assumes "tree_ok h t"
  shows "rb_first h = Some (if t = Leaf then 0 else hd (inorder t))"
proof -
  have loop: "rb_first_loop a h = Some (hd (inorder (Node c l a r)))" if "rep h p (Node c l a r)" "0 \<notin> set (inorder l)" for p c l a r
    using that
  proof (induction l arbitrary: p c a r)
    case (Node c' l' b r')
    have "rb_first_loop b h = Some (hd (inorder (Node c' l' b r')))" by (rule Node.IH(1) [of a]) (use Node.prems in auto)
    then show ?case using Node.prems by (subst rb_first_loop.simps) (auto simp: hd_append)
  qed (simp add: rb_first_loop.simps)
  have z: "zrep h t []" using assms by (simp add: tree_ok_def)
  show ?thesis
  proof (cases t)
    case (Node c l a r)
    then have "a \<noteq> 0" "rep h 0 (Node c l a r)" "0 \<notin> set (inorder l)" "rb_root h = a" using zrepD(1,2,8) [OF z] by auto
    then show ?thesis using loop [of 0 c l a r] Node by (auto simp: rb_first_def)
  qed (use zrepD(2) [OF z] in \<open>simp add: rb_first_def\<close>)
qed

lemma cmp_trans_mono: "cmp_trans S cmp \<Longrightarrow> S' \<subseteq> S \<Longrightarrow> cmp_trans S' cmp"
  unfolding cmp_trans_def by blast

lemma rb_lookup_ok:
  assumes "tree_ok h t" "sorted_wrt cmp (inorder t)" "cmp_trans (insert n (set (inorder t))) cmp"
  shows "\<exists>x. rb_lookup cmp n h = Some x \<and>
    (if x = 0 then \<forall>a\<in>set (inorder t). cmp n a \<or> cmp a n else x \<in> set (inorder t) \<and> \<not> cmp n x \<and> \<not> cmp x n)"
proof -
  have loop: "\<exists>x. rb_lookup_loop cmp n (root_of u) h = Some x \<and>
      (if x = 0 then \<forall>a\<in>set (inorder u). cmp n a \<or> cmp a n else x \<in> set (inorder u) \<and> \<not> cmp n x \<and> \<not> cmp x n)"
    if "rep h p u" "0 \<notin> set (inorder u)" "sorted_wrt cmp (inorder u)" "cmp_trans (insert n (set (inorder u))) cmp" for p u
    using that
  proof (induction u arbitrary: p)
    case (Node c l a r)
    note T = cmp_transD [OF Node.prems(4)]
    have sub: "cmp_trans (insert n (set (inorder l))) cmp" "cmp_trans (insert n (set (inorder r))) cmp"
      by (rule cmp_trans_mono [OF Node.prems(4)]; auto)+
    have srt: "sorted_wrt cmp (inorder l)" "sorted_wrt cmp (inorder r)" "\<forall>x\<in>set (inorder l). cmp x a" "\<forall>x\<in>set (inorder r). cmp a x"
      using Node.prems(3) by (auto simp: sorted_wrt_append)
    have a: "a \<noteq> 0" "rb_child SL a h = root_of l" "rb_child SR a h = root_of r" using Node.prems by auto
    have sub': "rep h a l" "rep h a r" "0 \<notin> set (inorder l)" "0 \<notin> set (inorder r)" using Node.prems(1,2) by auto
    note IH = Node.IH(1) [OF sub'(1,3) srt(1) sub(1)] Node.IH(2) [OF sub'(2,4) srt(2) sub(2)]
    have mem: "n \<in> insert n (set (inorder (Node c l a r)))" "a \<in> insert n (set (inorder (Node c l a r)))" by simp_all
    consider "cmp n a" | "\<not> cmp n a" "cmp a n" | "\<not> cmp n a" "\<not> cmp a n" by blast
    then show ?case
    proof cases
      case 1
      have "cmp n x" if "x \<in> set (inorder r)" for x by (rule T [OF 1 _ mem]) (use that srt(4) in simp_all)
      moreover have "rb_lookup_loop cmp n (root_of (Node c l a r)) h = rb_lookup_loop cmp n (root_of l) h"
        using a 1 by (subst rb_lookup_loop.simps) simp
      ultimately show ?thesis using IH(1) 1 by (elim exE conjE) (simp split: if_splits, blast+)
    next
      case 2
      have "cmp x n" if "x \<in> set (inorder l)" for x by (rule T [OF _ 2(2) _ mem(2,1)]) (use that srt(3) in simp_all)
      moreover have "rb_lookup_loop cmp n (root_of (Node c l a r)) h = rb_lookup_loop cmp n (root_of r) h"
        using a 2 by (subst rb_lookup_loop.simps) simp
      ultimately show ?thesis using IH(2) 2 by (elim exE conjE) (simp split: if_splits, blast+)
    next
      case 3
      then have "rb_lookup_loop cmp n (root_of (Node c l a r)) h = Some a" using a by (subst rb_lookup_loop.simps) simp
      then show ?thesis using 3 a(1) by simp
    qed
  qed (simp add: rb_lookup_loop.simps)
  have z: "zrep h t []" using assms(1) by (simp add: tree_ok_def)
  show ?thesis using loop [of 0 t] zrepD(1,2,8) [OF z] assms(2,3) by (simp add: rb_lookup_def)
qed

section \<open>The tree as an ordered list\<close>

text \<open>The nodes of the tree in order; everything its clients rely on.\<close>

definition rb_list :: "rb_tree \<Rightarrow> u64 list \<Rightarrow> bool" where
  "rb_list h xs \<longleftrightarrow> (\<exists>t. tree_ok h t \<and> inorder t = xs)"

locale ordered_index =
  fixes holds :: "'h \<Rightarrow> 'k list \<Rightarrow> bool"
    and nm_ok :: "'k \<Rightarrow> bool" and null :: 'k
    and add :: "('k \<Rightarrow> 'k \<Rightarrow> bool) \<Rightarrow> 'k \<Rightarrow> 'h \<Rightarrow> (int \<times> 'h) option"
    and del :: "'k \<Rightarrow> 'h \<Rightarrow> 'h option" and least :: "'h \<Rightarrow> 'k option"
  assumes names_law: "holds h xs \<Longrightarrow> distinct xs \<and> null \<notin> set xs"
    and add_law: "holds h xs \<Longrightarrow> nm_ok n \<Longrightarrow> n \<notin> set xs \<Longrightarrow> sorted_wrt lt xs \<Longrightarrow>
      (\<forall>a\<in>insert n (set xs). \<forall>b\<in>insert n (set xs). \<forall>c\<in>insert n (set xs). lt a b \<longrightarrow> lt b c \<longrightarrow> lt a c) \<Longrightarrow>
      (\<forall>a\<in>set xs. lt n a \<or> lt a n) \<Longrightarrow>
      \<exists>h' ys. add lt n h = Some (0, h') \<and> holds h' ys \<and> sorted_wrt lt ys \<and> set ys = insert n (set xs)"
    and del_law: "holds h xs \<Longrightarrow> n \<in> set xs \<Longrightarrow> \<exists>h'. del n h = Some h' \<and> holds h' (remove1 n xs)"
    and least_law: "holds h xs \<Longrightarrow> least h = Some (if xs = [] then null else hd xs)"
begin

lemma take_least:
  assumes "holds h xs" "xs \<noteq> []" "sorted_wrt lt xs"
  shows "\<exists>x h'. least h = Some x \<and> x \<noteq> null \<and> x \<in> set xs \<and> (\<forall>y\<in>set xs. y \<noteq> x \<longrightarrow> lt x y) \<and> del x h = Some h' \<and> holds h' (tl xs)"
proof -
  obtain x ys where xs: "xs = x # ys" using assms(2) by (cases xs) auto
  have "x \<noteq> null" using names_law [OF assms(1)] xs by auto
  moreover obtain h' where "del x h = Some h'" "holds h' ys" using del_law [OF assms(1), of x] xs by auto
  ultimately show ?thesis using least_law [OF assms(1)] assms(3) xs by auto
qed

lemma add_least:
  assumes "holds h xs" "nm_ok n" "n \<notin> set xs" "sorted_wrt lt xs"
    "\<forall>a\<in>insert n (set xs). \<forall>b\<in>insert n (set xs). \<forall>c\<in>insert n (set xs). lt a b \<longrightarrow> lt b c \<longrightarrow> lt a c"
    "\<forall>a\<in>set xs. lt n a \<or> lt a n"
  shows "\<exists>h' x ys. add lt n h = Some (0, h') \<and> least h' = Some x \<and> x \<noteq> null \<and> x \<in> insert n (set xs) \<and>
    (\<forall>y\<in>insert n (set xs). y \<noteq> x \<longrightarrow> lt x y) \<and> holds h' ys \<and> sorted_wrt lt ys \<and> set ys = insert n (set xs)"
proof -
  obtain h' ys where h': "add lt n h = Some (0, h')" "holds h' ys" "sorted_wrt lt ys" "set ys = insert n (set xs)"
    using add_law [OF assms] by blast
  then have "ys \<noteq> []" by auto
  then obtain x where "least h' = Some x" "x \<noteq> null" "x \<in> set ys" "\<forall>y\<in>set ys. y \<noteq> x \<longrightarrow> lt x y"
    using take_least [OF h'(2) _ h'(3)] by blast
  then show ?thesis unfolding h'(4) [symmetric] using h'(1-3) by blast
qed

end

lemma rb_list_least:
  assumes "rb_list h xs"
  shows "distinct xs \<and> 0 \<notin> set xs" "rb_first h = Some (if xs = [] then 0 else hd xs)"
proof -
  obtain t where t: "tree_ok h t" "inorder t = xs" using assms by (auto simp: rb_list_def)
  have z: "zrep h t []" using t(1) by (simp add: tree_ok_def)
  show "distinct xs \<and> 0 \<notin> set xs" using zrepD(3,8) [OF z] t(2) by simp
  have "t = Leaf \<longleftrightarrow> xs = []" using t(2) by (cases t) auto
  then show "rb_first h = Some (if xs = [] then 0 else hd xs)" using rb_first_ok [OF t(1)] t(2) by simp
qed

lemma rb_list_erase:
  assumes "rb_list h xs" "n \<in> set xs"
  shows "\<exists>h'. rb_erase n h = Some h' \<and> rb_list h' (remove1 n xs)"
proof -
  obtain t where t: "tree_ok h t" "inorder t = xs" using assms(1) by (auto simp: rb_list_def)
  show ?thesis using rb_erase_ok [OF t(1)] assms(2) t(2) by (auto simp: rb_list_def)
qed

lemma rb_list_insert:
  assumes "rb_list h xs" "addr_ok n" "n \<notin> set xs" "sorted_wrt lt xs" "cmp_trans (insert n (set xs)) lt" "\<forall>a\<in>set xs. lt n a \<or> lt a n"
  shows "\<exists>h' ys. rb_insert lt n h = Some (0, h') \<and> rb_list h' ys \<and> sorted_wrt lt ys \<and> set ys = insert n (set xs)"
proof -
  obtain t where t: "tree_ok h t" "inorder t = xs" using assms(1) by (auto simp: rb_list_def)
  have "\<exists>h' t'. rb_insert lt n h = Some (0, h') \<and> tree_ok h' t' \<and> sorted_wrt lt (inorder t') \<and> set (inorder t') = insert n (set (inorder t))"
    using rb_insert_ok [OF t(1), of n lt] assms(2-) unfolding t(2) by blast
  then show ?thesis unfolding rb_list_def t(2) by blast
qed

interpretation rb: ordered_index rb_list addr_ok 0 rb_insert rb_erase rb_first
proof (unfold_locales, goal_cases)
  case (2 h xs n lt)
  show ?case by (rule rb_list_insert [OF 2(1-4) _ 2(6)]) (use 2(5) in \<open>simp only: cmp_trans_def\<close>)
qed (rule rb_list_least rb_list_erase, assumption+)+

section \<open>The tree keeps its nodes in order\<close>

text \<open>
  C35: \<open>_rb_insert\<close> always returns. On a balanced tree whose nodes are in the order of the comparison, it
  returns 0 and leaves a balanced tree with the node added in its place, unless the tree holds a node
  that compares equal: then it returns -1 and the tree is as before.
\<close>

theorem rb_insert_correct:
  assumes "rb_list h xs" "addr_ok n" "n \<notin> set xs" "sorted_wrt cmp xs" "cmp_trans (insert n (set xs)) cmp"
  shows "if \<exists>a\<in>set xs. \<not> cmp n a \<and> \<not> cmp a n
    then \<exists>h'. rb_insert cmp n h = Some (-1, h') \<and> rb_list h' xs
    else \<exists>h' ys. rb_insert cmp n h = Some (0, h') \<and> rb_list h' ys \<and> sorted_wrt cmp ys \<and> set ys = insert n (set xs)"
proof -
  obtain t where t: "tree_ok h t" "inorder t = xs" using assms(1) by (auto simp: rb_list_def)
  show ?thesis
  proof (cases "\<exists>a\<in>set xs. \<not> cmp n a \<and> \<not> cmp a n")
    case True
    then have "\<exists>h'. rb_insert cmp n h = Some (-1, h') \<and> tree_ok h' t"
      using rb_insert_ok [OF t(1), of n cmp] assms(2-) unfolding t(2) by blast
    then show ?thesis using True t(2) by (auto simp: rb_list_def)
  next
    case False
    then have "\<forall>a\<in>set xs. cmp n a \<or> cmp a n" by blast
    then show ?thesis unfolding if_not_P [OF False] by (rule rb_list_insert [OF assms])
  qed
qed

text \<open>A tree of one node.\<close>

definition one_node :: "u64 \<Rightarrow> rb_tree" where
  "one_node a = \<lparr>rb_nodes = (\<lambda>_. \<lparr>parent_color = RB_BLACK, rb_right = 0, rb_left = 0\<rparr>), rb_root = a\<rparr>"

lemma one_node_list: "addr_ok a \<Longrightarrow> rb_list (one_node a) [a]"
  unfolding rb_list_def tree_ok_def
  by (intro exI [of _ "Node Black Leaf a Leaf"]) (simp add: one_node_def zrep_def rbt_ok_def pcw_def rb_child_def exI [of _ 1])

lemma addr_ok_examples: "addr_ok 8" "addr_ok 16"
  by (simp_all add: addr_ok_def)

text \<open>Trees in the order of the addresses, built by insertion into the tree of one node.\<close>

lemma rb_insert_less:
  assumes "rb_list h xs" "addr_ok n" "n \<notin> set xs" "sorted_wrt (<) xs" "sorted_wrt (<) ys" "set ys = insert n (set xs)"
  shows "\<exists>h'. rb_insert (<) n h = Some (0, h') \<and> rb_list h' ys"
proof -
  have "cmp_trans (insert n (set xs)) (<)" by (auto simp: cmp_trans_def)
  moreover have "\<forall>a\<in>set xs. n < a \<or> a < n" using assms(3) by (metis linorder_neqE)
  ultimately obtain h' zs where h': "rb_insert (<) n h = Some (0, h')" "rb_list h' zs" "sorted_wrt (<) zs" "set zs = insert n (set xs)"
    using rb_list_insert [OF assms(1-4)] by blast
  have "zs = ys" using h'(3,4) assms(5,6) strict_sorted_equal by (metis strict_sorted_iff)
  then show ?thesis using h'(1,2) by blast
qed

lemma three_nodes:
  "\<exists>h1 h2. rb_insert (<) 8 (one_node 16) = Some (0, h1) \<and> rb_insert (<) 24 h1 = Some (0, h2) \<and> rb_list h2 [8, 16, 24]"
proof -
  obtain h1 where h1: "rb_insert (<) 8 (one_node 16) = Some (0, h1)" "rb_list h1 [8, 16]"
    using rb_insert_less [OF one_node_list [OF addr_ok_examples(2)] addr_ok_examples(1), of "[8, 16]"] by auto
  have "addr_ok 24" by (simp add: addr_ok_def)
  from rb_insert_less [OF h1(2) this, of "[8, 16, 24]"] h1(1) show ?thesis by auto
qed

theorem rb_insert_correct_witness:
  "\<exists>h1 h2 h3 h4 ys. rb_insert (<) 8 (one_node 16) = Some (0, h1) \<and> rb_insert (<) 24 h1 = Some (0, h2) \<and>
     rb_insert (<) 12 h2 = Some (0, h3) \<and> rb_list h3 ys \<and> sorted_wrt (<) ys \<and> set ys = {8, 12, 16, 24} \<and>
     rb_insert (\<lambda>a b. a div 16 < b div 16) 24 (one_node 16) = Some (-1, h4) \<and> rb_list h4 [16]"
proof -
  obtain h1 h2 where h: "rb_insert (<) 8 (one_node 16) = Some (0, h1)" "rb_insert (<) 24 h1 = Some (0, h2)" "rb_list h2 [8, 16, 24]"
    using three_nodes by blast
  have a: "addr_ok 12" "addr_ok 24" by (simp_all add: addr_ok_def)
  have "\<not> (\<exists>a\<in>set [8, 16, 24 :: u64]. \<not> 12 < a \<and> \<not> a < 12)" by simp
  then obtain h3 ys where "rb_insert (<) 12 h2 = Some (0, h3)" "rb_list h3 ys" "sorted_wrt (<) ys" "set ys = {8, 12, 16, 24}"
    using rb_insert_correct [OF h(3) a(1), of "(<)"] by (auto simp: cmp_trans_def insert_commute)
  moreover have "\<exists>a\<in>set [16 :: u64]. \<not> 24 div 16 < a div 16 \<and> \<not> a div 16 < 24 div 16" by simp
  then obtain h4 where "rb_insert (\<lambda>a b. a div 16 < b div 16) 24 (one_node 16) = Some (-1, h4)" "rb_list h4 [16]"
    using rb_insert_correct [OF one_node_list [OF addr_ok_examples(2)] a(2), of "\<lambda>a b. a div 16 < b div 16"] by (auto simp: cmp_trans_def)
  ultimately show ?thesis using h(1,2) by blast
qed

text \<open>
  C36: \<open>_rb_erase\<close> of a node of the tree always returns and leaves a balanced tree of the other nodes in
  the same order, and \<open>_rb_first\<close> is the first of them in that order, or \<open>NULL\<close> for the empty tree.
\<close>

theorem rb_erase_correct:
  assumes "rb_list h xs" "n \<in> set xs"
  shows "\<exists>h'. rb_erase n h = Some h' \<and> rb_list h' (remove1 n xs) \<and>
    rb_first h' = Some (if remove1 n xs = [] then 0 else hd (remove1 n xs))"
  using rb.del_law [OF assms] rb.least_law by blast

theorem rb_erase_correct_witness:
  "\<exists>h1 h2 h'. rb_insert (<) 8 (one_node 16) = Some (0, h1) \<and> rb_insert (<) 24 h1 = Some (0, h2) \<and>
     rb_erase 16 h2 = Some h' \<and> rb_list h' [8, 24] \<and> rb_first h' = Some 8"
  using three_nodes rb_erase_correct [of _ "[8, 16, 24]" 16] by fastforce

end
