(* ===== verification/IPC.thy ===== *)
theory IPC
  imports Linked_List
begin

text \<open>
  Message queues (\<open>common/ipc.c\<close>) on the pointer lists of \<open>Linked_List\<close>. A queue, a message, a
  waiting sender and a waiting receiver are addresses of their structures; the list heads of a
  queue are at fixed offsets in it. Critical sections are atomic, a call that goes to sleep is split
  at \<open>_sched\<close>, and the processes given to \<open>activate_proc\<close> are collected in \<open>woken\<close>.
  A loop over a list is a \<open>partial_function\<close>: \<open>None\<close> means that it never ends. \<open>Panic\<close> is also
  an access outside a table and an exhausted allocator, as in \<open>kernel/mem.c\<close>.
\<close>

section \<open>State\<close>

abbreviation ENOMEM :: int where "ENOMEM \<equiv> -1"
abbreviation ENOSEQ :: int where "ENOSEQ \<equiv> -2"
abbreviation ENOENT :: int where "ENOENT \<equiv> -3"
abbreviation EEXIST :: int where "EEXIST \<equiv> -4"
abbreviation EINVAL :: int where "EINVAL \<equiv> -5"
abbreviation EAGAIN :: int where "EAGAIN \<equiv> -6"
abbreviation EIDRM :: int where "EIDRM \<equiv> -7"
abbreviation E2BIG :: int where "E2BIG \<equiv> -8"
abbreviation ENOMSG :: int where "ENOMSG \<equiv> -9"
abbreviation IPC_RMID :: int where "IPC_RMID \<equiv> 0"
abbreviation SEQ_MULTIPLIER :: int where "SEQ_MULTIPLIER \<equiv> 16"
abbreviation IPC_PRIVATE :: int where "IPC_PRIVATE \<equiv> 0"
abbreviation IPC_CREATE :: int where "IPC_CREATE \<equiv> 2"
abbreviation IPC_EXCL :: int where "IPC_EXCL \<equiv> 1"
abbreviation IPC_NOWAIT :: int where "IPC_NOWAIT \<equiv> 1"
abbreviation MSG_MSGSZ :: nat where "MSG_MSGSZ \<equiv> 4096 - 32"
abbreviation MSG_MSGSEGSZ :: nat where "MSG_MSGSEGSZ \<equiv> 4096 - 8"
abbreviation MAX_MSGNUM :: int where "MAX_MSGNUM \<equiv> 256"

record msg_queue =
  key :: int
  q_seq :: int
  max_msg :: int
  sum_msg :: int

text \<open>The bytes of a message: those behind its header and those of its further pages.\<close>

record msg_msg =
  m_type :: int
  m_size :: int
  m_data :: "u8 list"
  m_segs :: "(addr \<times> u8 list) list"

record msg_receiver =
  r_proc :: nat
  r_mtype :: int
  r_size :: int
  r_msg :: addr

record ipc_sys =
  ids_size :: nat
  ids_in_use :: int
  ids_seq :: u16
  ids_entries :: "addr list"
  queues :: "addr \<Rightarrow> msg_queue"
  msgs :: "addr \<Rightarrow> msg_msg"
  s_proc :: "addr \<Rightarrow> nat"
  receivers :: "addr \<Rightarrow> msg_receiver"
  links :: list_heap
  woken :: "nat list"
  heap_pool :: "addr list"
  page_pool :: "addr list"

definition q_message :: "addr \<Rightarrow> addr" where "q_message q = q + 16"
definition q_sender :: "addr \<Rightarrow> addr" where "q_sender q = q + 32"
definition q_receiver :: "addr \<Rightarrow> addr" where "q_receiver q = q + 48"

definition get_page :: "ipc_sys \<Rightarrow> (addr \<times> ipc_sys) res" where
  "get_page s = (case page_pool s of [] \<Rightarrow> Panic | p # ps \<Rightarrow> Ok (p, s\<lparr>page_pool := ps\<rparr>))"

definition put_page :: "addr \<Rightarrow> ipc_sys \<Rightarrow> ipc_sys" where
  "put_page p s = s\<lparr>page_pool := p # page_pool s\<rparr>"

definition get_block :: "ipc_sys \<Rightarrow> (addr \<times> ipc_sys) res" where
  "get_block s = (case heap_pool s of [] \<Rightarrow> Panic | p # ps \<Rightarrow> Ok (p, s\<lparr>heap_pool := ps\<rparr>))"

definition put_block :: "addr \<Rightarrow> ipc_sys \<Rightarrow> ipc_sys" where
  "put_block p s = s\<lparr>heap_pool := p # heap_pool s\<rparr>"

definition activate :: "nat \<Rightarrow> ipc_sys \<Rightarrow> ipc_sys" where
  "activate p s = s\<lparr>woken := woken s @ [p]\<rparr>"

definition detach :: "addr \<Rightarrow> ipc_sys \<Rightarrow> ipc_sys" where
  "detach node s = s\<lparr>links := snd (detach_from_list node (links s))\<rparr>"

definition append_to :: "addr \<Rightarrow> addr \<Rightarrow> ipc_sys \<Rightarrow> ipc_sys" where
  "append_to hn node s = s\<lparr>links := snd (insert_into_list (lprev (links s) hn) node (links s))\<rparr>"

section \<open>Queues\<close>

definition init_ipc :: "ipc_sys \<Rightarrow> ipc_sys" where
  "init_ipc s = s\<lparr>ids_in_use := 0, ids_seq := 0, ids_size := 16, ids_entries := replicate 16 0\<rparr>"

definition ipc_addid :: "addr \<Rightarrow> ipc_sys \<Rightarrow> int \<times> ipc_sys" where
  "ipc_addid que s =
     (case find (\<lambda>qid. ids_entries s ! qid = 0) [0..<ids_size s] of
        None \<Rightarrow> (-1, s)
      | Some qid \<Rightarrow>
          (int qid, s\<lparr>ids_in_use := ids_in_use s + 1,
             queues := (queues s)(que := (queues s que)\<lparr>q_seq := uint (ids_seq s)\<rparr>),
             ids_seq := ids_seq s + 1, ids_entries := (ids_entries s)[qid := que]\<rparr>))"

definition ipc_buildin :: "int \<Rightarrow> int \<Rightarrow> int" where
  "ipc_buildin qid sq = sq * SEQ_MULTIPLIER + qid"

definition newque :: "int \<Rightarrow> ipc_sys \<Rightarrow> (int \<times> ipc_sys) res" where
  "newque k s =
     bnd (get_block s) (\<lambda>(que, s).
       if que = 0 then Ok (ENOMEM, s)
       else
         let (qid, s) = ipc_addid que s
         in if qid < 0 then Ok (ENOSEQ, put_block que s)
            else
              let s = s\<lparr>queues := (queues s)(que := (queues s que)\<lparr>key := k, max_msg := MAX_MSGNUM, sum_msg := 0\<rparr>)\<rparr>;
                  s = s\<lparr>links := init_list_node (q_sender que) (init_list_node (q_receiver que)
                          (init_list_node (q_message que) (links s)))\<rparr>
              in Ok (ipc_buildin qid (q_seq (queues s que)), s))"

definition ipc_findkey :: "int \<Rightarrow> ipc_sys \<Rightarrow> int" where
  "ipc_findkey k s =
     (case find (\<lambda>qid. ids_entries s ! qid \<noteq> 0 \<and> key (queues s (ids_entries s ! qid)) = k) [0..<ids_size s] of
        None \<Rightarrow> -1 | Some qid \<Rightarrow> int qid)"

definition sys_msgget :: "int \<Rightarrow> int \<Rightarrow> ipc_sys \<Rightarrow> (int \<times> ipc_sys) res" where
  "sys_msgget k msgflg s =
     (if k = IPC_PRIVATE then newque k s
      else
        let qid = ipc_findkey k s
        in if qid = -1 then (if msgflg AND IPC_CREATE \<noteq> 0 then newque k s else Ok (ENOENT, s))
           else if msgflg AND IPC_EXCL \<noteq> 0 then Ok (EEXIST, s)
           else Ok (ipc_buildin qid (q_seq (queues s (ids_entries s ! nat qid))), s))"

text \<open>C's remainder and quotient truncate towards zero; a negative remainder indexes before the table.\<close>

definition get_msgq :: "int \<Rightarrow> ipc_sys \<Rightarrow> addr res" where
  "get_msgq msgid s =
     (let qid = sgn msgid * (\<bar>msgid\<bar> mod SEQ_MULTIPLIER)
      in if qid \<ge> int (ids_size s) then Ok 0
         else bnd (assert (0 \<le> qid)) (\<lambda>_.
           let que = ids_entries s ! nat qid
           in if que = 0 then Ok 0
              else if sgn msgid * (\<bar>msgid\<bar> div SEQ_MULTIPLIER) \<noteq> q_seq (queues s que) then Ok 0
              else Ok que))"

section \<open>Messages\<close>

definition free_msg :: "addr \<Rightarrow> ipc_sys \<Rightarrow> ipc_sys" where
  "free_msg m s = put_page m (fold (\<lambda>(p, _). put_page p) (m_segs (msgs s m)) s)"

text \<open>\<open>src\<close> is the user's buffer, \<open>off\<close> how far the source pointer was advanced.\<close>

function load_segs :: "(nat \<Rightarrow> u8) \<Rightarrow> nat \<Rightarrow> nat \<Rightarrow> addr \<Rightarrow> ipc_sys \<Rightarrow> (addr \<times> ipc_sys) res" where
  "load_segs src off len m s =
     (if len > 0 then
        bnd (get_page s) (\<lambda>(mseg, s).
          if mseg = 0 then Ok (0, free_msg m s)
          else
            let dat = map (\<lambda>i. src (off + i)) [0..<min MSG_MSGSEGSZ len];
                s = s\<lparr>msgs := (msgs s)(m := (msgs s m)\<lparr>m_segs := m_segs (msgs s m) @ [(mseg, dat)]\<rparr>)\<rparr>;
                len' = len - min MSG_MSGSEGSZ len
            in load_segs src (off + min MSG_MSGSEGSZ len') len' m s)
      else Ok (m, s))"
  by pat_completeness auto
termination
  by (relation "measure (\<lambda>(src, off, len, m, s). len)") auto

declare load_segs.simps [simp del]

definition load_msg :: "(nat \<Rightarrow> u8) \<Rightarrow> nat \<Rightarrow> ipc_sys \<Rightarrow> (addr \<times> ipc_sys) res" where
  "load_msg src len s =
     bnd (get_page s) (\<lambda>(m, s).
       if m = 0 then Ok (0, s)
       else
         let dat = map src [0..<min MSG_MSGSZ len];
             len' = len - min MSG_MSGSZ len;
             s = s\<lparr>msgs := (msgs s)(m := (msgs s m)\<lparr>m_data := dat, m_segs := []\<rparr>)\<rparr>
         in load_segs src (min MSG_MSGSZ len') len' m s)"

definition testmsg :: "int \<Rightarrow> int \<Rightarrow> bool" where
  "testmsg rqtype type = (if rqtype = 0 then True else if rqtype < 0 then rqtype + type \<le> 0 else rqtype = type)"

definition deliver :: "addr \<Rightarrow> addr \<Rightarrow> ipc_sys \<Rightarrow> ipc_sys" where
  "deliver node m s =
     activate (r_proc (receivers s node)) (s\<lparr>receivers := (receivers s)(node := (receivers s node)\<lparr>r_msg := m\<rparr>)\<rparr>)"

partial_function (option) pipeline_loop :: "addr \<Rightarrow> addr \<Rightarrow> addr \<Rightarrow> ipc_sys \<Rightarrow> (bool \<times> ipc_sys) option" where
  "pipeline_loop q m node s =
     (if node = 0 \<or> node = q_receiver q then Some (False, s)
      else if testmsg (r_mtype (receivers s node)) (m_type (msgs s m))
      then
        let s = detach node s
        in if m_size (msgs s m) > r_size (receivers s node)
           then let s = deliver node 0 s in pipeline_loop q m (lnext (links s) node) s
           else Some (True, deliver node m s)
      else pipeline_loop q m (lnext (links s) node) s)"

definition pipeline_send :: "addr \<Rightarrow> addr \<Rightarrow> ipc_sys \<Rightarrow> (bool \<times> ipc_sys) option" where
  "pipeline_send q m s = pipeline_loop q m (lnext (links s) (q_receiver q)) s"

datatype ipc_result = Returns int | Sleeps

text \<open>
  \<open>sys_msgsnd\<close> from \<open>retry\<close>: it runs again when a process that went to sleep here is woken.
  \<open>self\<close> is the calling process and \<open>frame\<close> the address of its local \<open>sender\<close>.
\<close>

definition msgsnd_try :: "nat \<Rightarrow> addr \<Rightarrow> int \<Rightarrow> addr \<Rightarrow> int \<Rightarrow> ipc_sys \<Rightarrow> (ipc_result \<times> ipc_sys) res option" where
  "msgsnd_try self frame msgid m msgflg s =
     (case get_msgq msgid s of
        Ok msgq \<Rightarrow>
          if msgq = 0 then Some (Ok (Returns EIDRM, free_msg m s))
          else if sum_msg (queues s msgq) + 1 > max_msg (queues s msgq)
          then
            if msgflg AND IPC_NOWAIT \<noteq> 0 then Some (Ok (Returns EAGAIN, free_msg m s))
            else Some (Ok (Sleeps, append_to (q_sender msgq) frame (s\<lparr>s_proc := (s_proc s)(frame := self)\<rparr>)))
          else
            map_option (\<lambda>(sent, s).
              if sent then Ok (Returns 0, s)
              else
                let s = append_to (q_message msgq) m s
                in Ok (Returns 0, s\<lparr>queues := (queues s)(msgq := (queues s msgq)\<lparr>sum_msg := sum_msg (queues s msgq) + 1\<rparr>)\<rparr>))
              (pipeline_send msgq m s)
      | Panic \<Rightarrow> Some Panic
      | Blocked \<Rightarrow> Some Blocked)"

definition sys_msgsnd ::
  "nat \<Rightarrow> addr \<Rightarrow> int \<Rightarrow> (int \<times> (nat \<Rightarrow> u8)) option \<Rightarrow> int \<Rightarrow> int \<Rightarrow> ipc_sys \<Rightarrow> (ipc_result \<times> ipc_sys) res option" where
  "sys_msgsnd self frame msgid msgp msgsz msgflg s =
     (case msgp of
        None \<Rightarrow> Some (Ok (Returns EINVAL, s))
      | Some (mtype, dat) \<Rightarrow>
          if msgsz < 0 \<or> mtype < 1 then Some (Ok (Returns EINVAL, s))
          else
            case load_msg dat (nat msgsz) s of
              Ok (m, s) \<Rightarrow>
                if m = 0 then Some (Ok (Returns ENOMEM, s))
                else msgsnd_try self frame msgid m msgflg
                       (s\<lparr>msgs := (msgs s)(m := (msgs s m)\<lparr>m_type := mtype, m_size := msgsz\<rparr>)\<rparr>)
            | Panic \<Rightarrow> Some Panic
            | Blocked \<Rightarrow> Some Blocked)"

partial_function (option) ss_wakeup :: "addr \<Rightarrow> (addr \<Rightarrow> nat) \<Rightarrow> ipc_sys \<Rightarrow> ipc_sys option" where
  "ss_wakeup hn proc_of s =
     (if empty_list hn (links s) then Some s
      else let node = lnext (links s) hn in ss_wakeup hn proc_of (activate (proc_of node) (detach node s)))"

text \<open>\<open>dst\<close> is the user's buffer after \<open>mtype\<close>, \<open>off\<close> how far the destination pointer was advanced.\<close>

definition copy_out :: "nat \<Rightarrow> u8 list \<Rightarrow> (nat \<Rightarrow> u8) \<Rightarrow> nat \<Rightarrow> u8" where
  "copy_out off bs dst = (\<lambda>i. if off \<le> i \<and> i < off + length bs then bs ! (i - off) else dst i)"

fun store_segs :: "nat \<Rightarrow> nat \<Rightarrow> (addr \<times> u8 list) list \<Rightarrow> (nat \<Rightarrow> u8) \<Rightarrow> (nat \<Rightarrow> u8) res" where
  "store_segs off msgsz [] dst = (if msgsz > 0 then Panic else Ok dst)"
| "store_segs off msgsz ((p, dat) # sg) dst =
     (if msgsz > 0 then
        let dst = copy_out off (take (min msgsz MSG_MSGSEGSZ) dat) dst;
            msgsz' = msgsz - min msgsz MSG_MSGSEGSZ
        in store_segs (off + min msgsz' MSG_MSGSEGSZ) msgsz' sg dst
      else Ok dst)"

definition store_msg :: "(nat \<Rightarrow> u8) \<Rightarrow> msg_msg \<Rightarrow> nat \<Rightarrow> (int \<times> (nat \<Rightarrow> u8)) res" where
  "store_msg dst m msgsz =
     (let dst = copy_out 0 (take (min msgsz MSG_MSGSZ) (m_data m)) dst;
          msgsz' = msgsz - min MSG_MSGSZ msgsz
      in bnd (store_segs (min MSG_MSGSZ msgsz') msgsz' (m_segs m) dst) (\<lambda>dst. Ok (m_type m, dst)))"

partial_function (option) find_msg :: "addr \<Rightarrow> addr \<Rightarrow> int \<Rightarrow> addr \<Rightarrow> ipc_sys \<Rightarrow> (addr \<times> int) option" where
  "find_msg q node mtype found s =
     (if node = 0 \<or> node = q_message q then Some (found, mtype)
      else if testmsg mtype (m_type (msgs s node))
      then if mtype < -1 then find_msg q (lnext (links s) node) (mtype + 1) node s else Some (node, mtype)
      else find_msg q (lnext (links s) node) mtype found s)"

text \<open>The end of \<open>sys_msgrcv\<close>: the message is copied to the user and freed.\<close>

definition msgrcv_finish ::
  "int \<Rightarrow> addr \<Rightarrow> (nat \<Rightarrow> u8) \<Rightarrow> ipc_sys \<Rightarrow> (ipc_result \<times> (int \<times> (nat \<Rightarrow> u8)) option \<times> ipc_sys) res" where
  "msgrcv_finish msgsz found dst s =
     (let msgsz = min msgsz (m_size (msgs s found))
      in bnd (store_msg dst (msgs s found) (nat msgsz)) (\<lambda>out. Ok (Returns msgsz, Some out, free_msg found s)))"

definition sys_msgrcv ::
  "nat \<Rightarrow> addr \<Rightarrow> int \<Rightarrow> (nat \<Rightarrow> u8) option \<Rightarrow> int \<Rightarrow> int \<Rightarrow> int \<Rightarrow> ipc_sys \<Rightarrow>
     (ipc_result \<times> (int \<times> (nat \<Rightarrow> u8)) option \<times> ipc_sys) res option" where
  "sys_msgrcv self frame msgid msgp msgsz mtype msgflg s =
     (case msgp of
        None \<Rightarrow> Some (Ok (Returns EINVAL, None, s))
      | Some dst \<Rightarrow>
          if msgsz < 0 then Some (Ok (Returns EINVAL, None, s))
          else
            case get_msgq msgid s of
              Ok msgq \<Rightarrow>
                if msgq = 0 then Some (Ok (Returns EIDRM, None, s))
                else
                  Option.bind (find_msg msgq (lnext (links s) (q_message msgq)) mtype 0 s) (\<lambda>(found, mtype).
                    if found \<noteq> 0
                    then
                      if m_size (msgs s found) > msgsz then Some (Ok (Returns E2BIG, None, s))
                      else
                        let s = detach found s;
                            s = s\<lparr>queues := (queues s)(msgq := (queues s msgq)\<lparr>sum_msg := sum_msg (queues s msgq) - 1\<rparr>)\<rparr>
                        in map_option (msgrcv_finish msgsz found dst) (ss_wakeup (q_sender msgq) (s_proc s) s)
                    else if msgflg AND IPC_NOWAIT \<noteq> 0 then Some (Ok (Returns ENOMSG, None, s))
                    else
                      let s = append_to (q_receiver msgq) frame s;
                          s = s\<lparr>receivers := (receivers s)(frame :=
                                  (receivers s frame)\<lparr>r_mtype := mtype, r_proc := self, r_size := msgsz\<rparr>)\<rparr>
                      in Some (Ok (Sleeps, None, s)))
            | Panic \<Rightarrow> Some Panic
            | Blocked \<Rightarrow> Some Blocked)"

text \<open>\<open>sys_msgrcv\<close> when the sleeping receiver runs again.\<close>

definition msgrcv_resume :: "addr \<Rightarrow> int \<Rightarrow> (nat \<Rightarrow> u8) \<Rightarrow> ipc_sys \<Rightarrow> (ipc_result \<times> (int \<times> (nat \<Rightarrow> u8)) option \<times> ipc_sys) res" where
  "msgrcv_resume frame msgsz dst s =
     (let found = r_msg (receivers s frame)
      in if found = 0 then Ok (Returns E2BIG, None, s) else msgrcv_finish msgsz found dst s)"

section \<open>Removal of a queue\<close>

partial_function (option) expunge_all :: "addr \<Rightarrow> ipc_sys \<Rightarrow> ipc_sys option" where
  "expunge_all que s =
     (if empty_list (q_receiver que) (links s) then Some s
      else let node = lnext (links s) (q_receiver que) in expunge_all que (deliver node 0 (detach node s)))"

partial_function (option) free_messages :: "addr \<Rightarrow> ipc_sys \<Rightarrow> ipc_sys option" where
  "free_messages que s =
     (if empty_list (q_message que) (links s) then Some s
      else let node = lnext (links s) (q_message que) in free_messages que (free_msg node (detach node s)))"

text \<open>\<open>freeque\<close> hands the list of receivers to \<open>ss_wakeup\<close>; both structures have \<open>proc\<close> behind the node.\<close>

definition freeque :: "int \<Rightarrow> ipc_sys \<Rightarrow> ipc_sys res option" where
  "freeque qid s =
     (case get_msgq qid s of
        Ok msgq \<Rightarrow>
          if msgq = 0 then Some (Ok s)
          else
            let s = s\<lparr>ids_entries := (ids_entries s)[nat (qid mod SEQ_MULTIPLIER) := 0]\<rparr>
            in map_option (\<lambda>s. Ok (put_block msgq (s\<lparr>ids_in_use := ids_in_use s - 1\<rparr>)))
                 (Option.bind (ss_wakeup (q_receiver msgq) (\<lambda>node. r_proc (receivers s node)) s) (\<lambda>s.
                  Option.bind (expunge_all msgq s) (free_messages msgq)))
      | Panic \<Rightarrow> Some Panic
      | Blocked \<Rightarrow> Some Blocked)"

definition sys_msgctl :: "int \<Rightarrow> int \<Rightarrow> ipc_sys \<Rightarrow> (int \<times> ipc_sys) res option" where
  "sys_msgctl msgid cmd s =
     (if cmd = IPC_RMID then map_option (\<lambda>r. bnd r (\<lambda>s. Ok (0, s))) (freeque msgid s) else Some (Ok (EINVAL, s)))"

section \<open>A queue in memory\<close>

text \<open>The messages \<open>ms\<close>, the sleeping senders \<open>ss\<close> and the sleeping receivers \<open>rs\<close> of a queue.\<close>

definition qrep :: "addr \<Rightarrow> addr list \<Rightarrow> addr list \<Rightarrow> addr list \<Rightarrow> ipc_sys \<Rightarrow> bool" where
  "qrep q ms ss rs s \<longleftrightarrow> clist (links s) (q_message q) ms \<and> clist (links s) (q_sender q) ss \<and> clist (links s) (q_receiver q) rs \<and>
     distinct (q_message q # ms @ q_sender q # ss @ q_receiver q # rs)"

lemma qrepD:
  assumes "qrep q ms ss rs s"
  shows "clist (links s) (q_message q) ms" "clist (links s) (q_sender q) ss" "clist (links s) (q_receiver q) rs"
    "distinct (q_message q # ms @ q_sender q # ss @ q_receiver q # rs)"
  using assms by (simp_all only: qrep_def)

lemma qrep_links: "links s' = links s \<Longrightarrow> qrep q ms ss rs s' \<longleftrightarrow> qrep q ms ss rs s"
  by (simp add: qrep_def)

lemma insert_tail_other:
  assumes c: "clist h hn xs" and n: "n \<noteq> NULL" and d: "clist h k zs" "set (k # zs) \<inter> insert n (set (hn # xs)) = {}"
    and i: "insert_into_list (lprev h hn) n h = (r, h')"
  shows "clist h' k zs"
proof -
  let ?p = "lprev h hn" and ?h = "init_list_node n h"
  have p: "?p = last (hn # xs)" by (rule clist_prev [OF c])
  then have pin: "?p \<in> set (hn # xs)" by (metis last_in_set list.distinct(1))
  have "?p \<noteq> NULL" using pin c unfolding clist_def by (metis list.set_intros(1))
  note H = merge_list_heap [OF this n i [unfolded insert_into_list_def]]
  have nx: "lnext ?h ?p = n \<or> lnext ?h ?p = hn"
  proof (cases xs rule: rev_cases)
    case Nil
    then show ?thesis using p clist_next [OF c] by auto
  next
    case (snoc ys y)
    then have "lnext h y = hn" using c by (simp add: clist_def seg_snoc)
    then show ?thesis using p snoc by auto
  qed
  show ?thesis
    by (rule clist_frame [OF d(1)]) (use d(2) pin nx in \<open>auto simp: H\<close>)
qed

lemma append_to_links: "links (append_to hn n s) = snd (insert_into_list (lprev (links s) hn) n (links s))"
  by (simp add: append_to_def)

lemma detach_links: "links (detach n s) = snd (detach_from_list n (links s))"
  by (simp add: detach_def)

lemma append_message:
  assumes r: "qrep q ms ss rs s" and m: "m \<noteq> 0" "m \<notin> set (q_message q # ms @ q_sender q # ss @ q_receiver q # rs)"
  shows "qrep q (ms @ [m]) ss rs (append_to (q_message q) m s)"
proof -
  note d = qrepD [OF r]
  obtain x h' where i: "insert_into_list (lprev (links s) (q_message q)) m (links s) = (x, h')" by (metis surj_pair)
  have "clist h' (q_message q) (ms @ [m])" by (rule insert_into_list_tail [OF d(1) _ m(1) i]) (use m(2) in simp)
  moreover have "clist h' (q_sender q) ss" by (rule insert_tail_other [OF d(1) m(1) d(2) _ i]) (use m(2) d(4) in auto)
  moreover have "clist h' (q_receiver q) rs" by (rule insert_tail_other [OF d(1) m(1) d(3) _ i]) (use m(2) d(4) in auto)
  ultimately show ?thesis using d(4) m(2) by (auto simp: qrep_def append_to_links i)
qed

lemma detach_message:
  assumes r: "qrep q (xs @ m # ys) ss rs s"
  shows "qrep q (xs @ ys) ss rs (detach m s)"
proof -
  note d = qrepD [OF r]
  obtain x h' where i: "detach_from_list m (links s) = (x, h')" by (metis surj_pair)
  note D = detach_from_list_clist [OF d(1) i]
  have "clist h' (q_sender q) ss" by (rule D(4) [OF d(2)]) (use d(4) in auto)
  moreover have "clist h' (q_receiver q) rs" by (rule D(4) [OF d(3)]) (use d(4) in auto)
  ultimately show ?thesis using D(2) d(4) by (auto simp: qrep_def detach_links i)
qed

lemma detach_sender:
  assumes r: "qrep q ms (x # ss) rs s"
  shows "qrep q ms ss rs (detach x s)"
proof -
  note d = qrepD [OF r]
  obtain y h' where i: "detach_from_list x (links s) = (y, h')" by (metis surj_pair)
  note D = detach_from_list_clist [where xs = "[]", simplified, OF d(2) i]
  have "clist h' (q_message q) ms" by (rule D(4) [OF d(1)]) (use d(4) in auto)
  moreover have "clist h' (q_receiver q) rs" by (rule D(4) [OF d(3)]) (use d(4) in auto)
  ultimately show ?thesis using D(2) d(4) by (auto simp: qrep_def detach_links i)
qed

text \<open>Walking a list: the part still ahead of the loop variable.\<close>

lemma find_msg_seg:
  assumes "seg (links s) x ys (q_message q)" "q_message q \<notin> set ys" "0 \<notin> set ys" "-1 \<le> mtype"
  shows "find_msg q (lnext (links s) x) mtype 0 s =
    Some (case find (\<lambda>m. testmsg mtype (m_type (msgs s m))) ys of None \<Rightarrow> 0 | Some m \<Rightarrow> m, mtype)"
  using assms
proof (induction ys arbitrary: x)
  case Nil
  then show ?case by (subst find_msg.simps) simp
next
  case (Cons y ys)
  then have y: "lnext (links s) x = y" "y \<noteq> 0" "y \<noteq> q_message q" by auto
  have IH: "find_msg q (lnext (links s) y) mtype 0 s =
    Some (case find (\<lambda>m. testmsg mtype (m_type (msgs s m))) ys of None \<Rightarrow> 0 | Some m \<Rightarrow> m, mtype)"
    by (rule Cons.IH) (use Cons.prems in auto)
  show ?case unfolding y(1) by (subst find_msg.simps) (use y Cons.prems(4) IH in auto)
qed

lemma find_msg_qrep:
  assumes "qrep q ms ss rs s" "-1 \<le> mtype"
  shows "find_msg q (lnext (links s) (q_message q)) mtype 0 s =
    Some (case find (\<lambda>m. testmsg mtype (m_type (msgs s m))) ms of None \<Rightarrow> 0 | Some m \<Rightarrow> m, mtype)"
  using qrepD(1) [OF assms(1)] assms(2) by (intro find_msg_seg) (auto simp: clist_def)

text \<open>A detached node points to itself: \<open>pipeline_send\<close> that detaches a receiver and goes on never ends.\<close>

lemma pipeline_loop_stuck:
  assumes "lnext (links s) node = node" "lprev (links s) node = node" "node \<noteq> 0" "node \<noteq> q_receiver q"
    "testmsg (r_mtype (receivers s node)) (m_type (msgs s m))" "m_size (msgs s m) > r_size (receivers s node)"
  shows "pipeline_loop q m node s = None"
proof (rule ccontr)
  assume "pipeline_loop q m node s \<noteq> None"
  then obtain y where y: "pipeline_loop q m node s = Some y" by auto
  define stuck where "stuck = (\<lambda>q m node (s :: ipc_sys). lnext (links s) node = node \<and> lprev (links s) node = node \<and> node \<noteq> 0 \<and>
    node \<noteq> q_receiver q \<and> testmsg (r_mtype (receivers s node)) (m_type (msgs s m)) \<and> m_size (msgs s m) > r_size (receivers s node))"
  have "\<not> stuck q m node s"
  proof (rule pipeline_loop.raw_induct [OF _ y, where P = "\<lambda>q m node s y. \<not> stuck q m node s"])
    fix f q m node s y
    assume IH: "\<And>q m node s y. f q m node s = Some y \<Longrightarrow> \<not> stuck q m node s"
      and b: "(if node = 0 \<or> node = q_receiver q then Some (False, s)
        else if testmsg (r_mtype (receivers s node)) (m_type (msgs s m))
        then let s = detach node s
          in if m_size (msgs s m) > r_size (receivers s node)
             then let s = deliver node 0 s in f q m (lnext (links s) node) s else Some (True, deliver node m s)
        else f q m (lnext (links s) node) s) = Some y"
    show "\<not> stuck q m node s"
    proof
      assume st: "stuck q m node s"
      let ?s = "deliver node 0 (detach node s)"
      have l: "lnext (links ?s) node = node" "lprev (links ?s) node = node"
        by (simp_all add: deliver_def activate_def detach_links detach_from_list_def Let_def)
      have "f q m node ?s = Some y" using b st l by (auto simp: stuck_def Let_def detach_def)
      then have "\<not> stuck q m node ?s" by (rule IH)
      then show False using st l by (auto simp: stuck_def deliver_def activate_def detach_def)
    qed
  qed
  then show False using assms by (simp add: stuck_def)
qed

lemma pipeline_loop_seg:
  assumes "seg (links s) x ys (q_receiver q)" "distinct (x # ys)" "q_receiver q \<notin> set ys" "0 \<notin> set ys"
  shows "pipeline_loop q m (lnext (links s) x) s =
    (case find (\<lambda>r. testmsg (r_mtype (receivers s r)) (m_type (msgs s m))) ys of
       None \<Rightarrow> Some (False, s)
     | Some r \<Rightarrow> if m_size (msgs s m) > r_size (receivers s r) then None else Some (True, deliver r m (detach r s)))"
  using assms
proof (induction ys arbitrary: x)
  case Nil
  then show ?case by (subst pipeline_loop.simps) simp
next
  case (Cons y ys)
  then have y: "lnext (links s) x = y" "y \<noteq> 0" "y \<noteq> q_receiver q" by auto
  show ?case
  proof (cases "testmsg (r_mtype (receivers s y)) (m_type (msgs s m))")
    case False
    have "pipeline_loop q m (lnext (links s) y) s =
    (case find (\<lambda>r. testmsg (r_mtype (receivers s r)) (m_type (msgs s m))) ys of
       None \<Rightarrow> Some (False, s)
     | Some r \<Rightarrow> if m_size (msgs s m) > r_size (receivers s r) then None else Some (True, deliver r m (detach r s)))"
      by (rule Cons.IH) (use Cons.prems in auto)
    then show ?thesis unfolding y(1) using y False by (subst pipeline_loop.simps) simp
  next
    case True
    let ?s = "deliver y 0 (detach y s)"
    have l: "lnext (links ?s) y = y" "lprev (links ?s) y = y"
      by (simp_all add: deliver_def activate_def detach_links detach_from_list_def Let_def)
    have "pipeline_loop q m y ?s = None" if "m_size (msgs s m) > r_size (receivers s y)"
      by (rule pipeline_loop_stuck) (use l y True that in \<open>auto simp: deliver_def activate_def detach_def\<close>)
    then show ?thesis unfolding y(1) using y True l by (subst pipeline_loop.simps) (auto simp: Let_def detach_def)
  qed
qed

lemma pipeline_send_qrep:
  assumes "qrep q ms ss rs s"
  shows "pipeline_send q m s =
    (case find (\<lambda>r. testmsg (r_mtype (receivers s r)) (m_type (msgs s m))) rs of
       None \<Rightarrow> Some (False, s)
     | Some r \<Rightarrow> if m_size (msgs s m) > r_size (receivers s r) then None else Some (True, deliver r m (detach r s)))"
  unfolding pipeline_send_def using qrepD(3) [OF assms] by (intro pipeline_loop_seg) (auto simp: clist_def)

lemma ss_wakeup_qrep:
  assumes "qrep q ms ss rs s"
  shows "\<exists>h. ss_wakeup (q_sender q) pf s = Some (s\<lparr>links := h, woken := woken s @ map pf ss\<rparr>) \<and>
    qrep q ms [] rs (s\<lparr>links := h, woken := woken s @ map pf ss\<rparr>)"
  using assms
proof (induction ss arbitrary: s)
  case Nil
  then have "empty_list (q_sender q) (links s)" using clist_empty_list qrepD(2) by blast
  then show ?case using Nil by (subst ss_wakeup.simps) (auto intro!: exI [of _ "links s"])
next
  case (Cons x ss)
  have ne: "\<not> empty_list (q_sender q) (links s)" "lnext (links s) (q_sender q) = x"
    using clist_empty_list [OF qrepD(2) [OF Cons.prems]] clist_next [OF qrepD(2) [OF Cons.prems]] by auto
  let ?s = "activate (pf x) (detach x s)"
  have "qrep q ms ss rs ?s" using detach_sender [OF Cons.prems] by (subst qrep_links) (simp_all add: activate_def)
  from Cons.IH [OF this] obtain h where h: "ss_wakeup (q_sender q) pf ?s = Some (?s\<lparr>links := h, woken := woken ?s @ map pf ss\<rparr>)"
    "qrep q ms [] rs (?s\<lparr>links := h, woken := woken ?s @ map pf ss\<rparr>)" by blast
  have e: "?s\<lparr>links := h, woken := woken ?s @ map pf ss\<rparr> = s\<lparr>links := h, woken := woken s @ map pf (x # ss)\<rparr>"
    by (simp add: activate_def detach_def)
  have "ss_wakeup (q_sender q) pf s = ss_wakeup (q_sender q) pf ?s"
    by (subst ss_wakeup.simps) (simp add: ne Let_def)
  then show ?case using h unfolding e by (intro exI [of _ h]) simp
qed

section \<open>Properties\<close>

text \<open>What is in a queue: the type and the bytes of each message, oldest first.\<close>

definition qview :: "ipc_sys \<Rightarrow> addr list \<Rightarrow> (int \<times> u8 list) list" where
  "qview s ms = map (\<lambda>m. (m_type (msgs s m), m_data (msgs s m))) ms"

definition short_msg :: "ipc_sys \<Rightarrow> addr \<Rightarrow> bool" where
  "short_msg s m \<longleftrightarrow> m_segs (msgs s m) = [] \<and> m_size (msgs s m) = int (length (m_data (msgs s m))) \<and>
     length (m_data (msgs s m)) \<le> MSG_MSGSZ"

lemma qview_cong: "(\<And>m. m \<in> set ms \<Longrightarrow> msgs s' m = msgs s m) \<Longrightarrow> qview s' ms = qview s ms"
  by (simp add: qview_def)

lemma get_msgq_cong:
  assumes "ids_size s' = ids_size s" "ids_entries s' = ids_entries s" "\<And>q. q_seq (queues s' q) = q_seq (queues s q)"
  shows "get_msgq msgid s' = get_msgq msgid s"
  unfolding get_msgq_def Let_def assms ..

lemma load_short_msg:
  assumes "page_pool s = m # ps" "m \<noteq> 0" "n \<le> MSG_MSGSZ"
  shows "load_msg dat n s = Ok (m, s\<lparr>page_pool := ps, msgs := (msgs s)(m := (msgs s m)\<lparr>m_data := map dat [0..<n], m_segs := []\<rparr>)\<rparr>)"
  using assms by (simp add: load_msg_def get_page_def load_segs.simps Let_def)

lemma msgsnd_short:
  assumes r: "qrep q ms ss rs s" and q: "get_msgq msgid s = Ok q" "q \<noteq> 0" and room: "sum_msg (queues s q) < max_msg (queues s q)"
    and pg: "page_pool s = m # ps" "m \<noteq> 0" "m \<notin> set (q_message q # ms @ q_sender q # ss @ q_receiver q # rs)"
    and n: "n \<le> MSG_MSGSZ" "1 \<le> t" and idle: "\<forall>x\<in>set rs. \<not> testmsg (r_mtype (receivers s x)) t"
  shows "\<exists>s'. sys_msgsnd self frame msgid (Some (t, dat)) (int n) flg s = Some (Ok (Returns 0, s')) \<and> qrep q (ms @ [m]) ss rs s' \<and>
    qview s' (ms @ [m]) = qview s ms @ [(t, map dat [0..<n])] \<and> short_msg s' m \<and>
    (\<forall>x. x \<noteq> m \<longrightarrow> msgs s' x = msgs s x) \<and> get_msgq msgid s' = Ok q \<and>
    page_pool s' = ps \<and> queues s' q = (queues s q)\<lparr>sum_msg := sum_msg (queues s q) + 1\<rparr>"
proof -
  define s1 where "s1 = s\<lparr>page_pool := ps, msgs := (msgs s)(m := (msgs s m)\<lparr>m_data := map dat [0..<n], m_segs := [], m_type := t, m_size := int n\<rparr>)\<rparr>"
  have load: "sys_msgsnd self frame msgid (Some (t, dat)) (int n) flg s = msgsnd_try self frame msgid m flg s1"
    using n pg by (simp add: sys_msgsnd_def load_short_msg s1_def)
  have g1: "get_msgq msgid s1 = Ok q" using q(1) get_msgq_cong [of s1 s msgid] by (simp add: s1_def)
  have r1: "qrep q ms ss rs s1" using r by (simp add: s1_def qrep_def)
  have "find (\<lambda>x. testmsg (r_mtype (receivers s1 x)) (m_type (msgs s1 m))) rs = None"
    using idle by (simp add: find_None_iff s1_def)
  then have send: "pipeline_send q m s1 = Some (False, s1)" by (simp add: pipeline_send_qrep [OF r1])
  define s2 where "s2 = append_to (q_message q) m s1"
  define s' where "s' = s2\<lparr>queues := (queues s2)(q := (queues s2 q)\<lparr>sum_msg := sum_msg (queues s2 q) + 1\<rparr>)\<rparr>"
  have "msgsnd_try self frame msgid m flg s1 = Some (Ok (Returns 0, s'))"
    using room by (simp add: msgsnd_try_def g1 q(2) send s'_def s2_def Let_def) (simp add: s1_def)
  moreover have "qrep q (ms @ [m]) ss rs s'"
    using append_message [OF r1 pg(2,3)] by (subst qrep_links [of _ s2]) (simp_all add: s'_def s2_def)
  moreover have M: "msgs s' = msgs s1" "queues s' = (queues s)(q := (queues s q)\<lparr>sum_msg := sum_msg (queues s q) + 1\<rparr>)"
    by (simp_all add: s'_def s2_def append_to_def s1_def)
  moreover have "get_msgq msgid s' = Ok q"
    using get_msgq_cong [of s' s1 msgid] g1 by (auto simp: s'_def s2_def append_to_def)
  moreover have "page_pool s' = ps" by (simp add: s'_def s2_def append_to_def s1_def)
  ultimately show ?thesis using load pg(3) n(1)
    by (intro exI [of _ s']) (auto simp: qview_def short_msg_def s1_def)
qed

lemma find_skip: "find P xs = None \<Longrightarrow> find P (xs @ ys) = find P ys"
  by (induction xs) (auto split: if_splits)

lemma msgrcv_short:
  assumes r: "qrep q ms ss rs s" and q: "get_msgq msgid s = Ok q" "q \<noteq> 0" and short: "\<forall>m\<in>set ms. short_msg s m"
    and v: "qview s ms = xs @ (t, bs) # ys" and t: "-1 \<le> rt" "testmsg rt t" "\<forall>(t', _)\<in>set xs. \<not> testmsg rt t'" and sz: "int (length bs) \<le> sz"
  shows "\<exists>s' dst' ms'. sys_msgrcv self frame msgid (Some dst) sz rt flg s =
      Some (Ok (Returns (int (length bs)), Some (t, dst'), s')) \<and> map dst' [0..<length bs] = bs \<and> (\<forall>i\<ge>length bs. dst' i = dst i) \<and>
    qrep q ms' [] rs s' \<and> qview s' ms' = xs @ ys \<and> woken s' = woken s @ map (s_proc s) ss \<and> sum_msg (queues s' q) = sum_msg (queues s q) - 1"
proof -
  obtain as m cs where ms: "ms = as @ m # cs" "qview s as = xs" "qview s cs = ys" "m_type (msgs s m) = t" "m_data (msgs s m) = bs"
    using v unfolding qview_def by (auto simp: map_eq_append_conv)
  have "find (\<lambda>m. testmsg rt (m_type (msgs s m))) as = None"
    using t(3) ms(2) by (auto simp: find_None_iff qview_def)
  then have f: "find (\<lambda>m. testmsg rt (m_type (msgs s m))) ms = Some m"
    using ms(1,4) t(2) by (simp add: find_skip)
  have m0: "m \<noteq> 0" using qrepD(1) [OF r] ms(1) by (auto simp: clist_def)
  have sm: "m_segs (msgs s m) = []" "m_size (msgs s m) = int (length bs)" "length bs \<le> MSG_MSGSZ"
    using short ms(1,5) by (auto simp: short_msg_def)
  define s1 where "s1 = detach m s"
  define s2 where "s2 = s1\<lparr>queues := (queues s1)(q := (queues s1 q)\<lparr>sum_msg := sum_msg (queues s1 q) - 1\<rparr>)\<rparr>"
  have r2: "qrep q (as @ cs) ss rs s2"
    using detach_message [of q as m cs ss rs s] r ms(1) by (subst qrep_links [of _ s1]) (simp_all add: s2_def s1_def)
  obtain h where w: "ss_wakeup (q_sender q) (s_proc s2) s2 = Some (s2\<lparr>links := h, woken := woken s2 @ map (s_proc s2) ss\<rparr>)"
    "qrep q (as @ cs) [] rs (s2\<lparr>links := h, woken := woken s2 @ map (s_proc s2) ss\<rparr>)"
    using ss_wakeup_qrep [OF r2] by blast
  define s3 where "s3 = s2\<lparr>links := h, woken := woken s2 @ map (s_proc s2) ss\<rparr>"
  have S: "msgs s3 = msgs s" "msgs s2 = msgs s" "woken s3 = woken s @ map (s_proc s) ss" "queues s3 = (queues s)(q := (queues s q)\<lparr>sum_msg := sum_msg (queues s q) - 1\<rparr>)"
    by (simp_all add: s3_def s2_def s1_def detach_def)
  let ?d = "copy_out 0 bs dst"
  have fin: "msgrcv_finish sz m dst s3 = Ok (Returns (int (length bs)), Some (t, ?d), free_msg m s3)"
    using sm sz ms(4,5) by (simp add: msgrcv_finish_def store_msg_def S Let_def)
  have "sys_msgrcv self frame msgid (Some dst) sz rt flg s = Some (Ok (Returns (int (length bs)), Some (t, ?d), free_msg m s3))"
    using sz sm(2) m0 w(1) fin by (simp add: sys_msgrcv_def q find_msg_qrep [OF r t(1)] f Let_def s1_def s2_def s3_def)
  moreover have F: "free_msg m s3 = s3\<lparr>page_pool := m # page_pool s3\<rparr>" by (simp add: free_msg_def S sm(1) put_page_def)
  moreover have "qrep q (as @ cs) [] rs (free_msg m s3)" using w(2) qrep_links [of "free_msg m s3" s3]
    by (simp add: F) (simp add: s3_def)
  moreover have "map ?d [0..<length bs] = bs" by (intro nth_equalityI) (simp_all add: copy_out_def)
  moreover have "\<forall>i\<ge>length bs. ?d i = dst i" by (simp add: copy_out_def)
  ultimately show ?thesis using ms(2,3)
    by (intro exI [of _ "free_msg m s3"] exI [of _ ?d] exI [of _ "as @ cs"]) (simp add: S qview_def)
qed

text \<open>
  C33: a message queue is a FIFO per type. While nobody waits for a message of its type, a message
  of at most 4064 bytes sent to a queue with room becomes the newest entry with its type and exactly the bytes
  given; and receiving with a type request of at least -1 and a large enough buffer returns the oldest entry that the
  request matches, exactly its bytes, removes only that entry and wakes every waiting sender.
\<close>

theorem message_queue_fifo:
  assumes r: "qrep q ms ss rs s" and q: "get_msgq msgid s = Ok q" "q \<noteq> 0" and short: "\<forall>m\<in>set ms. short_msg s m"
  shows "(\<forall>m ps n t dat flg. sum_msg (queues s q) < max_msg (queues s q) \<and> page_pool s = m # ps \<and> m \<noteq> 0 \<and>
       m \<notin> set (q_message q # ms @ q_sender q # ss @ q_receiver q # rs) \<and> n \<le> MSG_MSGSZ \<and> 1 \<le> t \<and>
       (\<forall>x\<in>set rs. \<not> testmsg (r_mtype (receivers s x)) t) \<longrightarrow>
      (\<exists>s'. sys_msgsnd self frame msgid (Some (t, dat)) (int n) flg s = Some (Ok (Returns 0, s')) \<and>
         qrep q (ms @ [m]) ss rs s' \<and> qview s' (ms @ [m]) = qview s ms @ [(t, map dat [0..<n])] \<and>
         (\<forall>m\<in>set (ms @ [m]). short_msg s' m) \<and> get_msgq msgid s' = Ok q \<and>
         page_pool s' = ps \<and> queues s' q = (queues s q)\<lparr>sum_msg := sum_msg (queues s q) + 1\<rparr>)) \<and>
    (\<forall>xs t bs ys rt sz dst flg. qview s ms = xs @ (t, bs) # ys \<and> -1 \<le> rt \<and> testmsg rt t \<and> (\<forall>(t', _)\<in>set xs. \<not> testmsg rt t') \<and>
       int (length bs) \<le> sz \<longrightarrow>
      (\<exists>s' dst' ms'. sys_msgrcv self frame msgid (Some dst) sz rt flg s = Some (Ok (Returns (int (length bs)), Some (t, dst'), s')) \<and>
         map dst' [0..<length bs] = bs \<and> (\<forall>i\<ge>length bs. dst' i = dst i) \<and> qrep q ms' [] rs s' \<and> qview s' ms' = xs @ ys \<and>
         woken s' = woken s @ map (s_proc s) ss \<and> sum_msg (queues s' q) = sum_msg (queues s q) - 1))"
proof (rule conjI; intro allI impI; elim conjE)
  fix m ps n t dat flg
  assume a: "sum_msg (queues s q) < max_msg (queues s q)" "page_pool s = m # ps" "m \<noteq> 0"
    "m \<notin> set (q_message q # ms @ q_sender q # ss @ q_receiver q # rs)" "n \<le> MSG_MSGSZ" "1 \<le> t"
    "\<forall>x\<in>set rs. \<not> testmsg (r_mtype (receivers s x)) t"
  obtain s' where s': "sys_msgsnd self frame msgid (Some (t, dat)) (int n) flg s = Some (Ok (Returns 0, s'))" "qrep q (ms @ [m]) ss rs s'"
    "qview s' (ms @ [m]) = qview s ms @ [(t, map dat [0..<n])]" "short_msg s' m" "\<forall>x. x \<noteq> m \<longrightarrow> msgs s' x = msgs s x" "get_msgq msgid s' = Ok q"
    "page_pool s' = ps" "queues s' q = (queues s q)\<lparr>sum_msg := sum_msg (queues s q) + 1\<rparr>"
    using msgsnd_short [OF r q a] by blast
  have "\<forall>m\<in>set (ms @ [m]). short_msg s' m" using s'(4,5) short a(4) by (auto simp: short_msg_def)
  then show "\<exists>s'. sys_msgsnd self frame msgid (Some (t, dat)) (int n) flg s = Some (Ok (Returns 0, s')) \<and>
      qrep q (ms @ [m]) ss rs s' \<and> qview s' (ms @ [m]) = qview s ms @ [(t, map dat [0..<n])] \<and>
      (\<forall>m\<in>set (ms @ [m]). short_msg s' m) \<and> get_msgq msgid s' = Ok q \<and>
      page_pool s' = ps \<and> queues s' q = (queues s q)\<lparr>sum_msg := sum_msg (queues s q) + 1\<rparr>"
    using s' by blast
next
  fix xs t bs ys rt sz dst flg
  assume a: "qview s ms = xs @ (t, bs) # ys" "-1 \<le> rt" "testmsg rt t" "\<forall>(t', _)\<in>set xs. \<not> testmsg rt t'" "int (length bs) \<le> sz"
  show "\<exists>s' dst' ms'. sys_msgrcv self frame msgid (Some dst) sz rt flg s = Some (Ok (Returns (int (length bs)), Some (t, dst'), s')) \<and>
      map dst' [0..<length bs] = bs \<and> (\<forall>i\<ge>length bs. dst' i = dst i) \<and> qrep q ms' [] rs s' \<and> qview s' ms' = xs @ ys \<and>
      woken s' = woken s @ map (s_proc s) ss \<and> sum_msg (queues s' q) = sum_msg (queues s q) - 1"
    using msgrcv_short [OF r q short a] by blast
qed

text \<open>A fresh system with one queue, at address 1000 and with identifier 0.\<close>

definition demo_ipc :: ipc_sys where
  "demo_ipc = \<lparr>ids_size = 16, ids_in_use = 1, ids_seq = 1, ids_entries = 1000 # replicate 15 0,
     queues = (\<lambda>_. \<lparr>key = 7, q_seq = 0, max_msg = 256, sum_msg = 0\<rparr>),
     msgs = (\<lambda>_. \<lparr>m_type = 0, m_size = 0, m_data = [], m_segs = []\<rparr>), s_proc = (\<lambda>_. 0),
     receivers = (\<lambda>_. \<lparr>r_proc = 3, r_mtype = 0, r_size = 1, r_msg = 0\<rparr>), links = \<lparr>lprev = (\<lambda>a. a), lnext = (\<lambda>a. a)\<rparr>,
     woken = [], heap_pool = [], page_pool = [4096, 8192]\<rparr>"

lemma demo_ipc_rep: "qrep 1000 [] [] [] demo_ipc" "get_msgq 0 demo_ipc = Ok 1000"
  by (simp_all add: qrep_def demo_ipc_def clist_def q_message_def q_sender_def q_receiver_def get_msgq_def)

theorem message_queue_fifo_witness:
  "\<exists>s1 s2 s3 dst ms. sys_msgsnd 1 50 0 (Some (5, of_nat)) 3 0 demo_ipc = Some (Ok (Returns 0, s1)) \<and>
     sys_msgsnd 1 50 0 (Some (6, of_nat)) 1 0 s1 = Some (Ok (Returns 0, s2)) \<and> qview s2 [4096, 8192] = [(5, [0, 1, 2]), (6, [0])] \<and>
     sys_msgrcv 2 60 0 (Some (\<lambda>_. 9)) 4 0 0 s2 = Some (Ok (Returns 3, Some (5, dst), s3)) \<and>
     map dst [0..<4] = [0, 1, 2, 9] \<and> qview s3 ms = [(6, [0])]"
proof -
  have ne: "(1000 :: addr) \<noteq> 0" and no: "\<forall>m\<in>set []. short_msg demo_ipc m" by simp_all
  have "\<exists>s'. sys_msgsnd 1 50 0 (Some (5, of_nat)) (int 3) 0 demo_ipc = Some (Ok (Returns 0, s')) \<and>
      qrep 1000 ([] @ [4096]) [] [] s' \<and> qview s' ([] @ [4096]) = qview demo_ipc [] @ [(5, map of_nat [0..<3])] \<and>
      (\<forall>m\<in>set ([] @ [4096]). short_msg s' m) \<and> get_msgq 0 s' = Ok 1000 \<and> page_pool s' = [8192] \<and>
      queues s' 1000 = (queues demo_ipc 1000)\<lparr>sum_msg := sum_msg (queues demo_ipc 1000) + 1\<rparr>"
    by (rule message_queue_fifo [OF demo_ipc_rep ne no, THEN conjunct1, rule_format])
      (simp add: demo_ipc_def q_message_def q_sender_def q_receiver_def)
  then obtain s1 where 1: "sys_msgsnd 1 50 0 (Some (5, of_nat)) 3 0 demo_ipc = Some (Ok (Returns 0, s1))" "qrep 1000 [4096] [] [] s1"
    "get_msgq 0 s1 = Ok 1000" "\<forall>m\<in>set [4096]. short_msg s1 m" "qview s1 [4096] = [(5, [0, 1, 2])]" "page_pool s1 = [8192]"
    "sum_msg (queues s1 1000) < max_msg (queues s1 1000)" by (auto simp: qview_def upt_rec demo_ipc_def)
  have "\<exists>s'. sys_msgsnd 1 50 0 (Some (6, of_nat)) (int 1) 0 s1 = Some (Ok (Returns 0, s')) \<and>
      qrep 1000 ([4096] @ [8192]) [] [] s' \<and> qview s' ([4096] @ [8192]) = qview s1 [4096] @ [(6, map of_nat [0..<1])] \<and>
      (\<forall>m\<in>set ([4096] @ [8192]). short_msg s' m) \<and> get_msgq 0 s' = Ok 1000 \<and> page_pool s' = [] \<and>
      queues s' 1000 = (queues s1 1000)\<lparr>sum_msg := sum_msg (queues s1 1000) + 1\<rparr>"
    by (rule message_queue_fifo [OF 1(2,3) ne 1(4), THEN conjunct1, rule_format])
      (simp add: 1(6,7) q_message_def q_sender_def q_receiver_def)
  then obtain s2 where 2: "sys_msgsnd 1 50 0 (Some (6, of_nat)) 1 0 s1 = Some (Ok (Returns 0, s2))" "qrep 1000 [4096, 8192] [] [] s2"
    "get_msgq 0 s2 = Ok 1000" "\<forall>m\<in>set [4096, 8192]. short_msg s2 m" "qview s2 [4096, 8192] = [(5, [0, 1, 2]), (6, [0])]"
    by (auto simp: 1(5))
  have "\<exists>s' dst' ms'. sys_msgrcv 2 60 0 (Some (\<lambda>_. 9)) 4 0 0 s2 = Some (Ok (Returns (int (length [0, 1, 2 :: u8])), Some (5, dst'), s')) \<and>
      map dst' [0..<length [0, 1, 2 :: u8]] = [0, 1, 2] \<and> (\<forall>i\<ge>length [0, 1, 2 :: u8]. dst' i = 9) \<and> qrep 1000 ms' [] [] s' \<and>
      qview s' ms' = [] @ [(6, [0])] \<and> woken s' = woken s2 @ map (s_proc s2) [] \<and>
      sum_msg (queues s' 1000) = sum_msg (queues s2 1000) - 1"
    by (rule message_queue_fifo [OF 2(2,3) ne 2(4), THEN conjunct2, rule_format]) (simp add: 2(5) testmsg_def)
  then obtain s3 dst ms where 3: "sys_msgrcv 2 60 0 (Some (\<lambda>_. 9)) 4 0 0 s2 = Some (Ok (Returns 3, Some (5, dst), s3))"
    "qview s3 ms = [(6, [0])]" "dst 0 = 0" "dst (Suc 0) = 1" "dst (Suc (Suc 0)) = 2" "dst (Suc (Suc (Suc 0))) = 9" by auto
  have "map dst [0..<4] = [0, 1, 2, 9]" using 3(3-) by (simp add: upt_rec numeral_2_eq_2 numeral_3_eq_3)
  then show ?thesis using 1(1) 2(1,5) 3(1,2) by (intro exI conjI)
qed

text \<open>
  C34: a receiver with a small buffer stops its sender for ever. When the first waiting receiver whose request matches the message
  has a buffer smaller than the message, \<open>pipeline_send\<close> detaches it, goes on from the detached node, which points to
  itself, and \<open>sys_msgsnd\<close> never returns.
\<close>

theorem small_receiver_hangs_sender:
  assumes "qrep q ms ss rs s" "get_msgq msgid s = Ok q" "q \<noteq> 0" "sum_msg (queues s q) < max_msg (queues s q)"
    and "find (\<lambda>r. testmsg (r_mtype (receivers s r)) (m_type (msgs s m))) rs = Some r" "m_size (msgs s m) > r_size (receivers s r)"
  shows "msgsnd_try self frame msgid m flg s = None"
  using assms by (simp add: msgsnd_try_def pipeline_send_qrep)

theorem small_receiver_hangs_sender_witness:
  "\<exists>s s1. sys_msgrcv 3 60 0 (Some (\<lambda>_. 0)) 1 0 0 demo_ipc = Some (Ok (Sleeps, None, s)) \<and>
     load_msg of_nat 2 s = Ok (4096, s1) \<and>
     msgsnd_try 1 50 0 4096 0 (s1\<lparr>msgs := (msgs s1)(4096 := (msgs s1 4096)\<lparr>m_type := 5, m_size := 2\<rparr>)\<rparr>) = None"
proof -
  define s where "s = (append_to 1048 60 demo_ipc)\<lparr>receivers :=
    (receivers (append_to 1048 60 demo_ipc))(60 := (receivers (append_to 1048 60 demo_ipc) 60)\<lparr>r_mtype := 0, r_proc := 3, r_size := 1\<rparr>)\<rparr>"
  define s1 where "s1 = s\<lparr>page_pool := [8192], msgs := (msgs s)(4096 := (msgs s 4096)\<lparr>m_data := map of_nat [0..<2], m_segs := []\<rparr>)\<rparr>"
  let ?s = "s1\<lparr>msgs := (msgs s1)(4096 := (msgs s1 4096)\<lparr>m_type := 5, m_size := 2\<rparr>)\<rparr>"
  have n: "lnext (links demo_ipc) a = a" for a by (simp add: demo_ipc_def)
  have "find_msg 1000 1016 0 0 demo_ipc = Some (0, 0)" by (subst find_msg.simps) (simp add: q_message_def)
  then have r: "sys_msgrcv 3 60 0 (Some (\<lambda>_. 0)) 1 0 0 demo_ipc = Some (Ok (Sleeps, None, s))"
    by (simp add: sys_msgrcv_def demo_ipc_rep(2) s_def n q_message_def q_receiver_def Let_def)
  have l: "load_msg of_nat 2 s = Ok (4096, s1)"
    unfolding s1_def by (rule load_short_msg) (simp_all add: s_def append_to_def demo_ipc_def)
  have q: "qrep 1000 [] [] [60] ?s"
    by (simp add: qrep_def clist_def s1_def s_def append_to_def demo_ipc_def insert_into_list_def merge_list_def
        store_defs Let_def q_message_def q_sender_def q_receiver_def)
  have g: "get_msgq 0 ?s = Ok 1000"
    using demo_ipc_rep(2) get_msgq_cong [of ?s demo_ipc 0] by (simp add: s1_def s_def append_to_def)
  have "msgsnd_try 1 50 0 4096 0 ?s = None"
    by (rule small_receiver_hangs_sender [OF q g, where r = 60])
      (simp_all add: s1_def s_def append_to_def demo_ipc_def testmsg_def)
  with r l show ?thesis by blast
qed

section \<open>Further observations\<close>

text \<open>
  A message longer than a page loses its tail: both copies advance by the length of the next piece instead of the
  last one. Sending and receiving 5000 bytes never writes the last 936 bytes of the receiver's buffer.
\<close>

lemma long_message_tail_lost:
  assumes "page_pool s = a # b # ps" "a \<noteq> 0" "b \<noteq> 0"
  shows "\<exists>s'. load_msg src 5000 s = Ok (a, s') \<and>
    (\<exists>t dst'. store_msg dst (msgs s' a) 5000 = Ok (t, dst') \<and> (\<forall>i\<ge>4064. dst' i = dst i))"
proof -
  have l: "load_segs src 936 936 a t = Ok (a, t\<lparr>page_pool := ps,
      msgs := (msgs t)(a := (msgs t a)\<lparr>m_segs := m_segs (msgs t a) @ [(b, map (\<lambda>i. src (936 + i)) [0..<936])]\<rparr>)\<rparr>)"
    if "page_pool t = b # ps" for t
    using that assms(3) by (subst load_segs.simps) (simp add: get_page_def Let_def load_segs.simps [of _ _ 0] del: upt_rec_numeral)
  show ?thesis
    using assms by (simp add: load_msg_def get_page_def Let_def l store_msg_def copy_out_def del: upt_rec_numeral)
qed

end
