(* ===== verification/Loop_Res.thy ===== *)
theory Loop_Res
  imports Kernel_Prelude
begin

text \<open>
  Outcomes of kernel code that follows pointers in a loop: \<open>None\<close> when it never returns, otherwise
  a value, a panic or a blocked thread.
\<close>

definition obnd :: "'a res option \<Rightarrow> ('a \<Rightarrow> 'b res option) \<Rightarrow> 'b res option" where
  "obnd m f = Option.bind m (\<lambda>r. case r of Ok x \<Rightarrow> f x | Panic \<Rightarrow> Some Panic | Blocked \<Rightarrow> Some Blocked)"

definition ret :: "'a \<Rightarrow> 'a res option" where
  "ret x = Some (Ok x)"

definition runs :: "'a option \<Rightarrow> 'a res option" where
  "runs m = map_option Ok m"

primrec ofold :: "('a \<Rightarrow> 's \<Rightarrow> 's res option) \<Rightarrow> 'a list \<Rightarrow> 's \<Rightarrow> 's res option" where
  "ofold f [] s = ret s"
| "ofold f (x # xs) s = obnd (f x s) (ofold f xs)"

lemma obnd_simps [simp]:
  "obnd None f = None" "obnd (Some (Ok x)) f = f x" "obnd (Some Panic) f = Some Panic" "obnd (Some Blocked) f = Some Blocked"
  "obnd (ret x) f = f x"
  by (simp_all add: obnd_def ret_def)

lemma runs_simps [simp]: "runs None = None" "runs (Some x) = Some (Ok x)"
  by (simp_all add: runs_def)

lemma obnd_eq_ret: "obnd m f = Some (Ok y) \<longleftrightarrow> (\<exists>x. m = Some (Ok x) \<and> f x = Some (Ok y))"
  by (auto simp: obnd_def split: res.splits Option.bind_splits)

lemma obnd_assoc: "obnd (obnd m f) g = obnd m (\<lambda>x. obnd (f x) g)"
  by (auto simp: obnd_def split: res.splits Option.bind_splits)

lemma obnd_mono [partial_function_mono]:
  assumes "mono_option B" "\<And>y. mono_option (C y)"
  shows "mono_option (\<lambda>f. obnd (B f) (\<lambda>y. C y f))"
proof -
  have "mono_option (\<lambda>f. case r of Ok x \<Rightarrow> C x f | Panic \<Rightarrow> Some Panic | Blocked \<Rightarrow> Some Blocked)" for r
    by (cases r) (auto intro: assms(2) option.const_mono)
  then show ?thesis unfolding obnd_def by (intro bind_mono assms(1))
qed

end
