(* ===== verification/Cpu.thy ===== *)
theory Cpu
  imports Loop_Res RBTree_Erase
begin

text \<open>
  The core clock (\<open>driver/clock.c\<close>), the dispatch of interrupts (\<open>driver/interrupt.c\<close>) and the
  timers of each core (\<open>kernel/cpu.c\<close>), kept in a red-black tree ordered by the time at which they
  expire. Memory is split by the enclosing structure: a timer is named by the address of its
  \<open>_node\<close>. The counter register is a function of the number of times it has been read.
\<close>

section \<open>State\<close>

record timer =
  triggered :: bool
  elapse :: "32 word"
  timer_key :: u64
  handler :: u64
  timer_data :: u64

record cpu_sys =
  timer_mem :: "u64 \<Rightarrow> timer"
  timer_nodes :: "u64 \<Rightarrow> rb_node_"
  online :: "nat \<Rightarrow> bool"
  cpu_timer :: "nat \<Rightarrow> u64"
  one_ms :: u64
  clock_handler :: u64
  cntfrq :: u64
  cntpct :: "nat \<Rightarrow> u64"
  cntpct_reads :: nat
  cntp_ctl :: "nat \<Rightarrow> u64"
  cntp_tval :: "nat \<Rightarrow> u64"
  core_clock_ctrl :: "nat \<Rightarrow> u32"
  daif :: "nat \<Rightarrow> u64"
  ttbr0 :: "nat \<Rightarrow> u64"
  vbar :: "nat \<Rightarrow> u64"
  esr :: "nat \<Rightarrow> u64"
  hello_timer :: "nat \<Rightarrow> u64"
  int_handler :: "nat \<Rightarrow> u64"
  enable_irqs :: "nat \<Rightarrow> u32"
  gpu_int_route :: u32

text \<open>Code behind a function pointer: \<open>call h t\<close> runs the routine at address \<open>h\<close> with argument \<open>t\<close>.\<close>

type_synonym 's calls = "u64 \<Rightarrow> u64 \<Rightarrow> 's \<Rightarrow> 's res option"

section \<open>The core clock\<close>

definition get_timestamp :: "'a cpu_sys_scheme \<Rightarrow> u64 \<times> 'a cpu_sys_scheme" where
  "get_timestamp s = (cntpct s (cntpct_reads s), s\<lparr>cntpct_reads := cntpct_reads s + 1\<rparr>)"

definition get_timestamp_ms :: "'a cpu_sys_scheme \<Rightarrow> u64 \<times> 'a cpu_sys_scheme" where
  "get_timestamp_ms s = (let (t, s) = get_timestamp s in (t div one_ms s, s))"

definition reset_clock :: "nat \<Rightarrow> u64 \<Rightarrow> 'a cpu_sys_scheme \<Rightarrow> 'a cpu_sys_scheme res" where
  "reset_clock cpu countdown_ms s =
     (let t = countdown_ms * one_ms s
      in bnd (assert (t \<le> 0x7fffffff)) (\<lambda>_. Ok (s\<lparr>cntp_tval := (cntp_tval s)(cpu := t)\<rparr>)))"

definition init_clock :: "nat \<Rightarrow> 'a cpu_sys_scheme \<Rightarrow> 'a cpu_sys_scheme res" where
  "init_clock cpu s =
     (let s = s\<lparr>one_ms := cntfrq s div 1000\<rparr>;
          s = s\<lparr>cntp_ctl := (cntp_ctl s)(cpu := 1)\<rparr>
      in bnd (reset_clock cpu 1000 s) (\<lambda>s.
           Ok (s\<lparr>core_clock_ctrl := (core_clock_ctrl s)(cpu := push_bit 1 1)\<rparr>)))"

definition set_clock_handler :: "u64 \<Rightarrow> 'a cpu_sys_scheme \<Rightarrow> 'a cpu_sys_scheme" where
  "set_clock_handler h s = s\<lparr>clock_handler := h\<rparr>"

definition invoke_clock_handler :: "'a cpu_sys_scheme calls \<Rightarrow> 'a cpu_sys_scheme \<Rightarrow> 'a cpu_sys_scheme res option" where
  "invoke_clock_handler call s = (if clock_handler s = 0 then Some Panic else call (clock_handler s) 0 s)"

section \<open>Interrupts\<close>

abbreviation NUM_IRQ_TYPES :: nat where "NUM_IRQ_TYPES \<equiv> 64"
abbreviation IRQ_SRC_GPU :: u32 where "IRQ_SRC_GPU \<equiv> 0x100"
abbreviation IRQ_SRC_CNTPNSIRQ :: u32 where "IRQ_SRC_CNTPNSIRQ \<equiv> 2"

definition init_interrupt :: "'a cpu_sys_scheme \<Rightarrow> 'a cpu_sys_scheme" where
  "init_interrupt s = s\<lparr>int_handler := (\<lambda>i. if i < NUM_IRQ_TYPES then 0 else int_handler s i), gpu_int_route := 0\<rparr>"

text \<open>\<open>enable_irqs\<close> is the bank of registers at \<open>ENABLE_IRQS_1\<close>.\<close>

definition set_interrupt_handler :: "nat \<Rightarrow> u64 \<Rightarrow> 'a cpu_sys_scheme \<Rightarrow> 'a cpu_sys_scheme" where
  "set_interrupt_handler type h s =
     s\<lparr>enable_irqs := (enable_irqs s)(type div 32 := push_bit (type mod 32) 1),
       int_handler := (int_handler s)(type := h)\<rparr>"

text \<open>\<open>source\<close>, \<open>pend1\<close> and \<open>pend2\<close> are what the device registers hold.\<close>

definition interrupt_global_handler ::
  "'a cpu_sys_scheme calls \<Rightarrow> u32 \<Rightarrow> u32 \<Rightarrow> u32 \<Rightarrow> 'a cpu_sys_scheme \<Rightarrow> 'a cpu_sys_scheme res option" where
  "interrupt_global_handler call source pend1 pend2 s =
     obnd (if source AND IRQ_SRC_CNTPNSIRQ \<noteq> 0
           then obnd (invoke_clock_handler call s) (\<lambda>s. ret (source XOR IRQ_SRC_CNTPNSIRQ, s))
           else ret (source, s)) (\<lambda>(source, s).
     obnd (if source AND IRQ_SRC_GPU \<noteq> 0
           then
             let source = source XOR IRQ_SRC_GPU;
                 map = (ucast pend1 :: u64) OR push_bit 32 (ucast pend2)
             in obnd (ofold (\<lambda>i s.
                    if drop_bit i map AND 1 \<noteq> 0
                    then if int_handler s i \<noteq> 0 then call (int_handler s i) 0 s else Some Panic
                    else ret s) [0..<NUM_IRQ_TYPES] s) (\<lambda>s. ret (source, s))
           else ret (source, s)) (\<lambda>(source, s).
     if source \<noteq> 0 then Some Panic else ret s))"

section \<open>Timers\<close>

definition timer_tree :: "nat \<Rightarrow> 'a cpu_sys_scheme \<Rightarrow> rb_tree" where
  "timer_tree cpu s = \<lparr>rb_nodes = timer_nodes s, rb_root = cpu_timer s cpu\<rparr>"

definition put_timer_tree :: "nat \<Rightarrow> rb_tree \<Rightarrow> 'a cpu_sys_scheme \<Rightarrow> 'a cpu_sys_scheme" where
  "put_timer_tree cpu h s = s\<lparr>timer_nodes := rb_nodes h, cpu_timer := (cpu_timer s)(cpu := rb_root h)\<rparr>"

definition upd_timer :: "u64 \<Rightarrow> (timer \<Rightarrow> timer) \<Rightarrow> 'a cpu_sys_scheme \<Rightarrow> 'a cpu_sys_scheme" where
  "upd_timer t f s = s\<lparr>timer_mem := (timer_mem s)(t := f (timer_mem s t))\<rparr>"

definition timer_cmp :: "'a cpu_sys_scheme \<Rightarrow> u64 \<Rightarrow> u64 \<Rightarrow> bool" where
  "timer_cmp s lnode rnode =
     (let d = sint (timer_key (timer_mem s lnode) - timer_key (timer_mem s rnode))
      in if d < 0 then True else if d = 0 then lnode < rnode else False)"

definition timer_set_clock :: "nat \<Rightarrow> 'a cpu_sys_scheme \<Rightarrow> 'a cpu_sys_scheme res option" where
  "timer_set_clock cpu s =
     obnd (runs (rb_first (timer_tree cpu s))) (\<lambda>node.
       if node = 0 then Some (reset_clock cpu 1000 s)
       else
         let t1 = timer_key (timer_mem s node);
             (t0, s) = get_timestamp_ms s
         in Some (if t1 \<le> t0 then reset_clock cpu 0 s else reset_clock cpu (t1 - t0) s))"

definition set_cpu_timer :: "nat \<Rightarrow> u64 \<Rightarrow> 'a cpu_sys_scheme \<Rightarrow> 'a cpu_sys_scheme res option" where
  "set_cpu_timer cpu t s =
     (let s = upd_timer t (\<lambda>x. x\<lparr>triggered := False\<rparr>) s;
          (now, s) = get_timestamp_ms s;
          s = upd_timer t (\<lambda>x. x\<lparr>timer_key := now + scast (elapse x)\<rparr>) s
      in obnd (runs (rb_insert (timer_cmp s) t (timer_tree cpu s))) (\<lambda>(r, h).
         let s = put_timer_tree cpu h s
         in obnd (Some (assert (r = 0))) (\<lambda>_. timer_set_clock cpu s)))"

definition cancel_cpu_timer :: "nat \<Rightarrow> u64 \<Rightarrow> 'a cpu_sys_scheme \<Rightarrow> 'a cpu_sys_scheme res option" where
  "cancel_cpu_timer cpu t s =
     obnd (Some (assert (\<not> triggered (timer_mem s t)))) (\<lambda>_.
     obnd (runs (rb_erase t (timer_tree cpu s))) (\<lambda>h.
       timer_set_clock cpu (put_timer_tree cpu h s)))"

partial_function (option) timer_loop :: "'a cpu_sys_scheme calls \<Rightarrow> nat \<Rightarrow> 'a cpu_sys_scheme \<Rightarrow> 'a cpu_sys_scheme res option" where
  "timer_loop call cpu s =
     obnd (runs (rb_first (timer_tree cpu s))) (\<lambda>node.
       if node = 0 then ret s
       else
         let (now, s) = get_timestamp_ms s
         in if now < timer_key (timer_mem s node) then ret s
            else
              obnd (cancel_cpu_timer cpu node s) (\<lambda>s.
                let s = upd_timer node (\<lambda>x. x\<lparr>triggered := True\<rparr>) s
                in obnd (call (handler (timer_mem s node)) node s) (timer_loop call cpu)))"

definition timer_clock_handler :: "'a cpu_sys_scheme calls \<Rightarrow> nat \<Rightarrow> 'a cpu_sys_scheme \<Rightarrow> 'a cpu_sys_scheme res option" where
  "timer_clock_handler call cpu s = obnd (Some (reset_clock cpu 1000 s)) (timer_loop call cpu)"

definition hello :: "nat \<Rightarrow> u64 \<Rightarrow> 'a cpu_sys_scheme \<Rightarrow> 'a cpu_sys_scheme res option" where
  "hello cpu t s = (let s = upd_timer t (\<lambda>x. x\<lparr>timer_data := timer_data x + 1\<rparr>) s in set_cpu_timer cpu (hello_timer s cpu) s)"

section \<open>Cores on and off\<close>

definition arch_disable_trap :: "nat \<Rightarrow> 'a cpu_sys_scheme \<Rightarrow> bool \<times> 'a cpu_sys_scheme" where
  "arch_disable_trap cpu s =
     (if daif s cpu \<noteq> 0 then (False, s) else (True, s\<lparr>daif := (daif s)(cpu := push_bit 6 0xf)\<rparr>))"

text \<open>\<open>invalid_pt\<close>, \<open>exception_vector\<close> and \<open>hello_addr\<close> are the addresses of the symbols of these names.\<close>

definition set_cpu_on :: "u64 \<Rightarrow> u64 \<Rightarrow> u64 \<Rightarrow> nat \<Rightarrow> 'a cpu_sys_scheme \<Rightarrow> 'a cpu_sys_scheme res option" where
  "set_cpu_on invalid_pt exception_vector hello_addr cpu s =
     (let (t, s) = arch_disable_trap cpu s
      in obnd (Some (assert (\<not> t))) (\<lambda>_.
         let s = s\<lparr>ttbr0 := (ttbr0 s)(cpu := invalid_pt - 0xffff000000000000),
                   vbar := (vbar s)(cpu := exception_vector), esr := (esr s)(cpu := 0)\<rparr>
         in obnd (Some (init_clock cpu s)) (\<lambda>s.
            let s = s\<lparr>online := (online s)(cpu := True)\<rparr>;
                s = upd_timer (hello_timer s cpu) (\<lambda>x. x\<lparr>elapse := 5000, handler := hello_addr\<rparr>) s
            in set_cpu_timer cpu (hello_timer s cpu) s)))"

definition set_cpu_off :: "nat \<Rightarrow> 'a cpu_sys_scheme \<Rightarrow> 'a cpu_sys_scheme" where
  "set_cpu_off cpu s = (let (t, s) = arch_disable_trap cpu s in s\<lparr>online := (online s)(cpu := False)\<rparr>)"

section \<open>Armed timers\<close>

text \<open>
  The timers of a core in the order in which they expire. Keys are milliseconds since the start of
  the counter; below \<open>2 ^ 63\<close> the signed difference in \<open>__timer_cmp\<close> orders them.
\<close>

definition timers_ok :: "nat \<Rightarrow> 'a cpu_sys_scheme \<Rightarrow> u64 list \<Rightarrow> bool" where
  "timers_ok cpu s xs \<longleftrightarrow> rb_list (timer_tree cpu s) xs \<and> sorted_wrt (timer_cmp s) xs \<and>
     (\<forall>a\<in>set xs. timer_key (timer_mem s a) < 2 ^ 63)"

lemma sint_diff_lt:
  fixes a b :: u64
  assumes "a < 2 ^ 63" "b < 2 ^ 63"
  shows "sint (a - b) < 0 \<longleftrightarrow> a < b" "sint (a - b) = 0 \<longleftrightarrow> a = b"
proof -
  have u: "uint a < 2 ^ 63" "uint b < 2 ^ 63" using assms by (simp_all add: word_less_def)
  have n: "0 \<le> uint a" "0 \<le> uint b" by simp_all
  have "sint (a - b) = signed_take_bit 63 (uint a - uint b)"
  proof -
    have "uint (a - b) = take_bit 64 (uint a - uint b)" by (simp add: uint_word_ariths(2) take_bit_eq_mod)
    then show ?thesis by (simp only: sint_uint) (simp add: signed_take_bit_take_bit)
  qed
  also have "\<dots> = uint a - uint b" by (rule signed_take_bit_int_eq_self) (use u n in linarith)+
  finally have s: "sint (a - b) = uint a - uint b" .
  show "sint (a - b) < 0 \<longleftrightarrow> a < b" "sint (a - b) = 0 \<longleftrightarrow> a = b" unfolding s using word_uint_eqI [of a b] by (auto simp: word_less_def)
qed

lemma timer_cmp_order:
  assumes "timer_key (timer_mem s a) < 2 ^ 63" "timer_key (timer_mem s b) < 2 ^ 63"
  shows "timer_cmp s a b \<longleftrightarrow> timer_key (timer_mem s a) < timer_key (timer_mem s b) \<or>
    timer_key (timer_mem s a) = timer_key (timer_mem s b) \<and> a < b"
  using sint_diff_lt [OF assms] by (auto simp: timer_cmp_def Let_def)

lemma timer_cmp_trans:
  assumes "\<forall>a\<in>S. timer_key (timer_mem s a) < 2 ^ 63"
  shows "cmp_trans S (timer_cmp s)"
  unfolding cmp_trans_def using assms by (auto simp: timer_cmp_order)

text \<open>The earliest timer decides how the clock is set.\<close>

definition clock_for :: "u64 \<Rightarrow> u64 \<Rightarrow> u64 \<Rightarrow> u64" where
  "clock_for t1 t0 ms = (if t1 \<le> t0 then 0 else (t1 - t0) * ms)"

lemma timer_set_clock_ok:
  assumes "timers_ok cpu s xs" "xs \<noteq> []"
    and fits: "clock_for (timer_key (timer_mem s (hd xs))) (cntpct s (cntpct_reads s) div one_ms s) (one_ms s) \<le> 0x7fffffff"
  shows "timer_set_clock cpu s = Some (Ok (s\<lparr>cntpct_reads := cntpct_reads s + 1,
    cntp_tval := (cntp_tval s)(cpu := clock_for (timer_key (timer_mem s (hd xs))) (cntpct s (cntpct_reads s) div one_ms s) (one_ms s))\<rparr>))"
proof -
  have l: "rb_list (timer_tree cpu s) xs" using assms(1) by (simp add: timers_ok_def)
  have "hd xs \<noteq> 0" using rb.names_law [OF l] assms(2) by (cases xs) auto
  then show ?thesis using rb.least_law [OF l] assms(2) fits
    by (simp add: timer_set_clock_def get_timestamp_ms_def get_timestamp_def reset_clock_def clock_for_def Let_def split: if_splits)
qed

lemma timer_cmp_cong:
  assumes "\<And>a. a \<in> set xs \<Longrightarrow> timer_key (timer_mem s a) = timer_key (timer_mem s' a)"
  shows "sorted_wrt (timer_cmp s) xs \<longleftrightarrow> sorted_wrt (timer_cmp s') xs"
  using assms by (induction xs) (simp_all add: timer_cmp_def)

lemma timers_ok_hd:
  assumes "timers_ok cpu s xs" "a \<in> set xs"
  shows "timer_key (timer_mem s (hd xs)) \<le> timer_key (timer_mem s a)"
proof -
  obtain x ys where xs: "xs = x # ys" using assms(2) by (cases xs) auto
  show ?thesis using assms by (cases "a = x") (auto simp: timers_ok_def xs timer_cmp_order, metis order.order_iff_strict)
qed

text \<open>Everything \<open>set_cpu_timer\<close> leaves alone but the timer, the tree and the clock.\<close>

lemma set_cpu_timer_ok:
  fixes s :: "'a cpu_sys_scheme"
  defines "now i \<equiv> cntpct s (cntpct_reads s + i) div one_ms s"
  assumes xs: "timers_ok cpu s xs" and t: "addr_ok t" "t \<notin> set xs"
    and k: "k = now 0 + scast (elapse (timer_mem s t))" "k < 2 ^ 63"
    and fits: "\<forall>a\<in>set xs. clock_for (timer_key (timer_mem s a)) (now 1) (one_ms s) \<le> 0x7fffffff" "clock_for k (now 1) (one_ms s) \<le> 0x7fffffff"
  shows "\<exists>s' ys. set_cpu_timer cpu t s = Some (Ok s') \<and> timers_ok cpu s' ys \<and> set ys = insert t (set xs) \<and>
    timer_mem s' = (timer_mem s)(t := (timer_mem s t)\<lparr>triggered := False, timer_key := k\<rparr>) \<and>
    cntp_tval s' cpu = clock_for (timer_key (timer_mem s' (hd ys))) (now 1) (one_ms s) \<and>
    cntpct_reads s' = cntpct_reads s + 2 \<and> cntpct s' = cntpct s \<and> one_ms s' = one_ms s"
proof -
  define s1 where "s1 = s\<lparr>cntpct_reads := cntpct_reads s + 1, timer_mem := (timer_mem s)(t := (timer_mem s t)\<lparr>triggered := False, timer_key := k\<rparr>)\<rparr>"
  have tree: "timer_tree cpu s1 = timer_tree cpu s" by (simp add: timer_tree_def s1_def)
  have key: "timer_key (timer_mem s1 a) = (if a = t then k else timer_key (timer_mem s a))" for a by (simp add: s1_def)
  have keys: "\<forall>a\<in>insert t (set xs). timer_key (timer_mem s1 a) < 2 ^ 63" using xs k(2) by (auto simp: key timers_ok_def)
  have srt: "sorted_wrt (timer_cmp s1) xs"
    by (rule timer_cmp_cong [of xs s s1, THEN iffD1]) (use xs t(2) in \<open>auto simp: key timers_ok_def\<close>)
  have tot: "\<forall>a\<in>set xs. timer_cmp s1 t a \<or> timer_cmp s1 a t"
    using keys t(2) by (metis insertCI linorder_neqE timer_cmp_order)
  have l: "rb_list (timer_tree cpu s1) xs" using xs by (simp add: tree timers_ok_def)
  obtain h' ys where h': "rb_insert (timer_cmp s1) t (timer_tree cpu s1) = Some (0, h')" "rb_list h' ys" "sorted_wrt (timer_cmp s1) ys"
    "set ys = insert t (set xs)" using rb_list_insert [OF l t srt timer_cmp_trans [OF keys] tot] by blast
  define s2 where "s2 = put_timer_tree cpu h' s1"
  have s2: "timer_tree cpu s2 = h'" "timer_mem s2 = timer_mem s1" "cntpct s2 = cntpct s" "one_ms s2 = one_ms s" "cntpct_reads s2 = cntpct_reads s + 1"
    by (simp_all add: s2_def put_timer_tree_def timer_tree_def s1_def)
  have ok2: "timers_ok cpu s2 ys"
    using h' keys timer_cmp_cong [of ys s1 s2] by (simp add: timers_ok_def s2)
  have y: "ys \<noteq> []" using h'(4) by auto
  have ne: "ys \<noteq> []" "hd ys \<in> insert t (set xs)" using y list.set_sel(1) [OF y] h'(4) by simp_all
  have f: "clock_for (timer_key (timer_mem s2 (hd ys))) (cntpct s2 (cntpct_reads s2) div one_ms s2) (one_ms s2) \<le> 0x7fffffff"
    using fits ne(2) t(2) by (auto simp: s2 key now_def)
  note C = timer_set_clock_ok [OF ok2 ne(1) f]
  have "set_cpu_timer cpu t s = timer_set_clock cpu s2"
    using h'(1) k(1) by (simp add: set_cpu_timer_def upd_timer_def get_timestamp_ms_def get_timestamp_def s1_def s2_def now_def Let_def)
  moreover have "timers_ok cpu (s2\<lparr>cntpct_reads := r, cntp_tval := v\<rparr>) ys" for r v
    using ok2 timer_cmp_cong [of ys s2 "s2\<lparr>cntpct_reads := r, cntp_tval := v\<rparr>"] by (simp add: timers_ok_def timer_tree_def)
  ultimately show ?thesis using C h'(4) by (simp add: s2 now_def) (auto simp: s1_def s2)
qed

text \<open>Two states with the same timers and the same counter, the second not earlier.\<close>

definition same_timers :: "nat \<Rightarrow> 'a cpu_sys_scheme \<Rightarrow> 'a cpu_sys_scheme \<Rightarrow> bool" where
  "same_timers cpu s s' \<longleftrightarrow> timer_mem s' = timer_mem s \<and> timer_nodes s' = timer_nodes s \<and> cpu_timer s' cpu = cpu_timer s cpu \<and>
     cntpct s' = cntpct s \<and> one_ms s' = one_ms s \<and> cntpct_reads s \<le> cntpct_reads s'"

lemma same_timers_ok: "same_timers cpu s s' \<Longrightarrow> timers_ok cpu s' xs = timers_ok cpu s xs"
  using timer_cmp_cong [of xs s s'] by (simp add: same_timers_def timers_ok_def timer_tree_def)

definition fits_clock :: "'a cpu_sys_scheme \<Rightarrow> u64 set \<Rightarrow> bool" where
  "fits_clock s S \<longleftrightarrow> 1000 * one_ms s \<le> 0x7fffffff \<and>
     (\<forall>i\<ge>cntpct_reads s. \<forall>a\<in>S. clock_for (timer_key (timer_mem s a)) (cntpct s i div one_ms s) (one_ms s) \<le> 0x7fffffff)"

lemma timer_set_clock_total:
  assumes "timers_ok cpu s xs" "fits_clock s (set xs)"
  shows "\<exists>s'. timer_set_clock cpu s = Some (Ok s') \<and> same_timers cpu s s'"
proof (cases "xs = []")
  case True
  then have "rb_first (timer_tree cpu s) = Some 0" using assms(1) rb.least_law by (fastforce simp: timers_ok_def)
  then show ?thesis using assms(2) by (simp add: timer_set_clock_def reset_clock_def Let_def fits_clock_def same_timers_def)
next
  case False
  then have "hd xs \<in> set xs" by simp
  then show ?thesis using timer_set_clock_ok [OF assms(1) False] assms(2) by (simp add: fits_clock_def same_timers_def)
qed

lemma sorted_wrt_remove1: "sorted_wrt R xs \<Longrightarrow> sorted_wrt R (remove1 x xs)"
  using set_remove1_subset by (induction xs) fastforce+

lemma cancel_cpu_timer_ok:
  assumes xs: "timers_ok cpu s xs" and t: "t \<in> set xs" "\<not> triggered (timer_mem s t)" and f: "fits_clock s (set xs)"
  shows "\<exists>s'. cancel_cpu_timer cpu t s = Some (Ok s') \<and> timers_ok cpu s' (remove1 t xs) \<and> timer_mem s' = timer_mem s \<and>
    cntpct s' = cntpct s \<and> one_ms s' = one_ms s \<and> cntpct_reads s \<le> cntpct_reads s'"
proof -
  obtain h' where h': "rb_erase t (timer_tree cpu s) = Some h'" "rb_list h' (remove1 t xs)"
    using rb.del_law [OF _ t(1)] xs unfolding timers_ok_def by blast
  define s1 where "s1 = put_timer_tree cpu h' s"
  have s1: "timer_tree cpu s1 = h'" "timer_mem s1 = timer_mem s" "cntpct s1 = cntpct s" "one_ms s1 = one_ms s" "cntpct_reads s1 = cntpct_reads s"
    by (simp_all add: s1_def put_timer_tree_def timer_tree_def)
  have sub: "set (remove1 t xs) \<subseteq> set xs" by (rule set_remove1_subset)
  have "sorted_wrt (timer_cmp s1) (remove1 t xs)"
    using xs timer_cmp_cong [of xs s s1] by (auto simp: timers_ok_def s1 intro: sorted_wrt_remove1)
  then have ok1: "timers_ok cpu s1 (remove1 t xs)" using h'(2) xs sub by (auto simp: timers_ok_def s1)
  have "fits_clock s1 (set (remove1 t xs))" using f sub by (auto simp: fits_clock_def s1)
  then obtain s2 where s2: "timer_set_clock cpu s1 = Some (Ok s2)" "same_timers cpu s1 s2" using timer_set_clock_total [OF ok1] by blast
  have "cancel_cpu_timer cpu t s = Some (Ok s2)" using h'(1) t(2) s2(1) by (simp add: cancel_cpu_timer_def s1_def)
  then show ?thesis using ok1 same_timers_ok [OF s2(2)] s2(2) s1 by (auto simp: same_timers_def)
qed

definition quiet :: "nat \<Rightarrow> 'a cpu_sys_scheme calls \<Rightarrow> bool" where
  "quiet cpu call \<longleftrightarrow> (\<forall>h t s. \<exists>s'. call h t s = Some (Ok s') \<and> same_timers cpu s s')"

definition fired :: "nat \<Rightarrow> u64 list \<Rightarrow> u64 list \<Rightarrow> 'a cpu_sys_scheme \<Rightarrow> 'a cpu_sys_scheme \<Rightarrow> bool" where
  "fired cpu ys zs s s' \<longleftrightarrow> timers_ok cpu s' zs \<and> (\<forall>a\<in>set ys. triggered (timer_mem s' a)) \<and>
     (\<forall>a. a \<notin> set ys \<longrightarrow> timer_mem s' a = timer_mem s a) \<and>
     (\<forall>a\<in>set zs. cntpct s (cntpct_reads s' - 1) div one_ms s < timer_key (timer_mem s a))"

lemma timer_loop_ok:
  assumes "quiet cpu call" "timers_ok cpu s xs" "\<forall>a\<in>set xs. \<not> triggered (timer_mem s a)" "fits_clock s (set xs)"
  shows "\<exists>s' ys zs. timer_loop call cpu s = Some (Ok s') \<and> xs = ys @ zs \<and> fired cpu ys zs s s'"
  using assms(2-)
proof (induction xs arbitrary: s)
  case Nil
  then have "rb_first (timer_tree cpu s) = Some 0" using rb.least_law by (fastforce simp: timers_ok_def)
  then have "timer_loop call cpu s = Some (Ok s)" by (subst timer_loop.simps) (simp add: ret_def)
  then show ?case using Nil by (auto simp: fired_def)
next
  case (Cons x xs)
  define s1 where "s1 = s\<lparr>cntpct_reads := cntpct_reads s + 1\<rparr>"
  have same1: "same_timers cpu s s1" by (simp add: same_timers_def s1_def)
  have l: "rb_list (timer_tree cpu s) (x # xs)" using Cons.prems(1) by (simp add: timers_ok_def)
  have x: "rb_first (timer_tree cpu s) = Some x" "x \<noteq> 0" "x \<notin> set xs" using rb.least_law [OF l] rb.names_law [OF l] by auto
  have "timer_loop call cpu s = (if cntpct s (cntpct_reads s) div one_ms s < timer_key (timer_mem s x) then ret s1
      else obnd (cancel_cpu_timer cpu x s1) (\<lambda>s. let s = upd_timer x (\<lambda>x. x\<lparr>triggered := True\<rparr>) s
        in obnd (call (handler (timer_mem s x)) x s) (timer_loop call cpu)))"
    using x(1,2) by (subst timer_loop.simps) (simp add: get_timestamp_ms_def get_timestamp_def s1_def)
  note step = this
  show ?case
  proof (cases "cntpct s (cntpct_reads s) div one_ms s < timer_key (timer_mem s x)")
    case True
    have "timer_key (timer_mem s x) \<le> timer_key (timer_mem s a)" if "a \<in> set (x # xs)" for a
      using timers_ok_hd [OF Cons.prems(1) that] by simp
    then have "fired cpu [] (x # xs) s s1"
      using same_timers_ok [OF same1] Cons.prems(1) True by (auto simp: fired_def s1_def dest: order.strict_trans2)
    then show ?thesis using step True by (auto simp: ret_def)
  next
    case False
    have f1: "timers_ok cpu s1 (x # xs)" "x \<in> set (x # xs)" "\<not> triggered (timer_mem s1 x)" "fits_clock s1 (set (x # xs))"
      using same_timers_ok [OF same1] Cons.prems by (auto simp: s1_def fits_clock_def)
    obtain s2 where s2: "cancel_cpu_timer cpu x s1 = Some (Ok s2)" "timers_ok cpu s2 xs" "timer_mem s2 = timer_mem s1" "cntpct s2 = cntpct s1"
      "one_ms s2 = one_ms s1" "cntpct_reads s1 \<le> cntpct_reads s2" using cancel_cpu_timer_ok [OF f1] by auto
    define s3 where "s3 = upd_timer x (\<lambda>x. x\<lparr>triggered := True\<rparr>) s2"
    obtain s4 where s4: "call (handler (timer_mem s3 x)) x s3 = Some (Ok s4)" "same_timers cpu s3 s4"
      using assms(1) unfolding quiet_def by blast
    have m3: "timer_mem s3 = (timer_mem s)(x := (timer_mem s x)\<lparr>triggered := True\<rparr>)" "timer_tree cpu s3 = timer_tree cpu s2"
      using s2(3) by (simp_all add: s3_def upd_timer_def timer_tree_def s1_def)
    have "timers_ok cpu s3 xs"
      using s2(2,3) timer_cmp_cong [of xs s2 s3] m3 by (auto simp: timers_ok_def s1_def)
    then have ok4: "timers_ok cpu s4 xs" using same_timers_ok [OF s4(2)] by simp
    have e4: "timer_mem s4 = timer_mem s3" "cntpct s4 = cntpct s" "one_ms s4 = one_ms s" "cntpct_reads s \<le> cntpct_reads s4"
      using s4(2) s2(4-6) by (auto simp: same_timers_def s3_def upd_timer_def s1_def)
    have "\<forall>a\<in>set xs. \<not> triggered (timer_mem s4 a)" "fits_clock s4 (set xs)"
      using Cons.prems(2,3) x(3) e4 by (auto simp: m3 fits_clock_def)
    then obtain s' ys zs where r: "timer_loop call cpu s4 = Some (Ok s')" "xs = ys @ zs" "fired cpu ys zs s4 s'"
      using Cons.IH [OF ok4] by blast
    have "timer_loop call cpu s = Some (Ok s')" using step False s2(1) s4(1) r(1) by (simp add: s3_def)
    moreover have "timer_key (timer_mem s4 a) = timer_key (timer_mem s a)" for a by (simp add: e4(1) m3(1))
    then have "\<forall>a\<in>set zs. cntpct s (cntpct_reads s' - 1) div one_ms s < timer_key (timer_mem s a)" using r(3) e4(2,3) by (simp add: fired_def)
    then have "fired cpu (x # ys) zs s s'" using r(2,3) x(3) unfolding fired_def e4(1) m3(1) by auto
    ultimately show ?thesis using r(2) by (metis append_Cons)
  qed
qed

section \<open>Timers fire\<close>

text \<open>
  \<open>set_cpu_timer\<close> adds the timer, with its expiry computed from the clock, to the timers of the
  core and programs the clock of the core for the earliest of them: the comparator is set to the
  time left until it expires, and to 0 when it has expired already.
\<close>

lemma set_cpu_timer_programs_clock:
  fixes s :: "'a cpu_sys_scheme"
  defines "now i \<equiv> cntpct s (cntpct_reads s + i) div one_ms s"
  assumes xs: "timers_ok cpu s xs" and t: "addr_ok t" "t \<notin> set xs"
    and k: "k = now 0 + scast (elapse (timer_mem s t))" "k < 2 ^ 63"
    and fits: "\<forall>a\<in>set xs. clock_for (timer_key (timer_mem s a)) (now 1) (one_ms s) \<le> 0x7fffffff" "clock_for k (now 1) (one_ms s) \<le> 0x7fffffff"
  shows "\<exists>s' ys first. set_cpu_timer cpu t s = Some (Ok s') \<and> timers_ok cpu s' ys \<and> set ys = insert t (set xs) \<and>
    timer_mem s' = (timer_mem s)(t := (timer_mem s t)\<lparr>triggered := False, timer_key := k\<rparr>) \<and>
    first \<in> set ys \<and> (\<forall>a\<in>set ys. timer_key (timer_mem s' first) \<le> timer_key (timer_mem s' a)) \<and>
    cntp_tval s' cpu = clock_for (timer_key (timer_mem s' first)) (now 1) (one_ms s)"
proof -
  obtain s' ys where r: "set_cpu_timer cpu t s = Some (Ok s')" "timers_ok cpu s' ys" "set ys = insert t (set xs)"
    "timer_mem s' = (timer_mem s)(t := (timer_mem s t)\<lparr>triggered := False, timer_key := k\<rparr>)"
    "cntp_tval s' cpu = clock_for (timer_key (timer_mem s' (hd ys))) (now 1) (one_ms s)"
    using set_cpu_timer_ok [OF xs t k [unfolded now_def] fits [unfolded now_def]] unfolding now_def by blast
  have "hd ys \<in> set ys" using r(3) by (cases ys) auto
  then show ?thesis using r timers_ok_hd [OF r(2)] by blast
qed

definition cpu_example :: "u64 \<Rightarrow> u64 \<Rightarrow> cpu_sys" where
  "cpu_example root k =
     \<lparr>timer_mem = (\<lambda>_. \<lparr>triggered = False, elapse = 5, timer_key = k, handler = 0, timer_data = 0\<rparr>),
      timer_nodes = rb_nodes (one_node root), online = (\<lambda>_. True), cpu_timer = (\<lambda>_. root), one_ms = 1000, clock_handler = 0,
      cntfrq = 1000000, cntpct = (\<lambda>i. 10000), cntpct_reads = 0, cntp_ctl = (\<lambda>_. 1), cntp_tval = (\<lambda>_. 0), core_clock_ctrl = (\<lambda>_. 2),
      daif = (\<lambda>_. 0), ttbr0 = (\<lambda>_. 0), vbar = (\<lambda>_. 0), esr = (\<lambda>_. 0), hello_timer = (\<lambda>_. 0), int_handler = (\<lambda>_. 0),
      enable_irqs = (\<lambda>_. 0), gpu_int_route = 0\<rparr>"

lemma cpu_example_timers: "timers_ok 0 (cpu_example 16 k) [16]" if "k < 2 ^ 63"
  using one_node_list [OF addr_ok_examples(2)] that by (simp add: timers_ok_def cpu_example_def timer_tree_def one_node_def)



end
