(* ===== verification/PT.thy ===== *)
theory PT
  imports Mem File_Table
begin

text \<open>
  Page tables (\<open>kernel/pt.c\<close>, \<open>aarch64/mmu.h\<close>): four levels of tables of 512 words in the managed
  memory. A kernel address is a natural number, a user address and an entry are 64-bit words.
\<close>

section \<open>Entries and addresses\<close>

abbreviation PTE_VALID :: u64 where "PTE_VALID \<equiv> 1"
abbreviation PTE_TABLE :: u64 where "PTE_TABLE \<equiv> 3"
abbreviation PTE_RO :: u64 where "PTE_RO \<equiv> 0x80"
abbreviation N_PTE_PER_TABLE :: nat where "N_PTE_PER_TABLE \<equiv> 512"

text \<open>\<open>PTE_USER | PTE_NORMAL | PTE_PAGE\<close>\<close>

definition PTE_USER_DATA :: u64 where
  "PTE_USER_DATA = push_bit 6 1 OR (push_bit 2 1 OR push_bit 10 1 OR push_bit 8 2) OR 3"

definition PTE_ADDRESS :: "u64 \<Rightarrow> u64" where "PTE_ADDRESS pte = pte AND NOT 0xFFFF000000000FFF"
definition PTE_FLAGS :: "u64 \<Rightarrow> u64" where "PTE_FLAGS pte = pte AND 0xFFFF000000000FFF"

definition VA_PART0 :: "u64 \<Rightarrow> nat" where "VA_PART0 va = unat (drop_bit 39 (va AND 0xFF8000000000))"
definition VA_PART1 :: "u64 \<Rightarrow> nat" where "VA_PART1 va = unat (drop_bit 30 (va AND 0x7FC0000000))"
definition VA_PART2 :: "u64 \<Rightarrow> nat" where "VA_PART2 va = unat (drop_bit 21 (va AND 0x3FE00000))"
definition VA_PART3 :: "u64 \<Rightarrow> nat" where "VA_PART3 va = unat (drop_bit 12 (va AND 0x1FF000))"

definition va_base :: "u64 \<Rightarrow> u64" where "va_base va = va AND NOT 0xFFF"

text \<open>\<open>P2K(PTE_ADDRESS(pte))\<close>\<close>

definition pte_page :: "u64 \<Rightarrow> nat" where "pte_page pte = P2K (unat (PTE_ADDRESS pte))"

definition pte_valid :: "u64 \<Rightarrow> bool" where "pte_valid pte \<longleftrightarrow> pte AND PTE_VALID \<noteq> 0"

section \<open>Page directories\<close>

text \<open>
  The list of sections has the order of the list that hangs from \<open>section_head\<close>; a section carries
  the address \<open>kalloc\<close> gave it. \<open>st_fp\<close> is an index into the file table, \<open>None\<close> for \<open>NULL\<close>.
\<close>

record vm_section =
  st_flags :: u64
  st_lock :: Semaphore
  st_begin :: u64
  st_end :: u64
  st_fp :: "nat option"
  st_offset :: u64
  st_length :: u64

record pgdir =
  pt :: nat
  sections :: "(nat \<times> vm_section) list"
  pd_online :: bool

definition memset0 :: "nat \<Rightarrow> kmem \<Rightarrow> kmem" where
  "memset0 p k = k\<lparr>ram := store_bytes p (replicate PAGE_SIZE 0) (ram k)\<rparr>"

definition read_pte :: "kmem \<Rightarrow> nat \<Rightarrow> u64" where
  "read_pte k p = load64 (ram k) p"

definition write_pte :: "nat \<Rightarrow> u64 \<Rightarrow> kmem \<Rightarrow> kmem" where
  "write_pte p w k = k\<lparr>ram := store64 p w (ram k)\<rparr>"

text \<open>One level of \<open>get_pte\<close>: the table below entry \<open>i\<close> of the table at \<open>p\<close>.\<close>

definition next_table :: "bool \<Rightarrow> nat \<Rightarrow> nat \<Rightarrow> kmem \<Rightarrow> (nat option \<times> kmem) res" where
  "next_table alloc p i k =
     (if \<not> pte_valid (read_pte k (p + 8 * i))
      then if alloc
           then bnd (kalloc_page k) (\<lambda>(q, k).
                  Ok (Some q, write_pte (p + 8 * i) (of_nat (K2P q) OR PTE_TABLE) (memset0 q k)))
           else Ok (None, k)
      else Ok (Some (pte_page (read_pte k (p + 8 * i))), k))"

text \<open>The address of the entry for \<open>va\<close>; \<open>None\<close> is the null pointer.\<close>

definition get_pte :: "pgdir \<Rightarrow> u64 \<Rightarrow> bool \<Rightarrow> kmem \<Rightarrow> (nat option \<times> pgdir \<times> kmem) res" where
  "get_pte pd va alloc k =
     (if pt pd = 0 \<and> \<not> alloc then Ok (None, pd, k)
      else
        bnd (if pt pd = 0 then bnd (kalloc_page k) (\<lambda>(p, k). Ok (pd\<lparr>pt := p\<rparr>, memset0 p k)) else Ok (pd, k)) (\<lambda>(pd, k).
        bnd (next_table alloc (pt pd) (VA_PART0 va) k) (\<lambda>(pt1, k).
        case pt1 of None \<Rightarrow> Ok (None, pd, k) | Some pt1 \<Rightarrow>
        bnd (next_table alloc pt1 (VA_PART1 va) k) (\<lambda>(pt2, k).
        case pt2 of None \<Rightarrow> Ok (None, pd, k) | Some pt2 \<Rightarrow>
        bnd (next_table alloc pt2 (VA_PART2 va) k) (\<lambda>(pt3, k).
        case pt3 of None \<Rightarrow> Ok (None, pd, k) | Some pt3 \<Rightarrow>
        Ok (Some (pt3 + 8 * VA_PART3 va), pd, k))))))"

definition init_pgdir :: "kmem \<Rightarrow> (pgdir \<times> kmem) res" where
  "init_pgdir k =
     bnd (kalloc_page k) (\<lambda>(p, k). Ok (\<lparr>pt = p, sections = [], pd_online = False\<rparr>, memset0 p k))"

definition vmmap :: "pgdir \<Rightarrow> u64 \<Rightarrow> nat \<Rightarrow> u64 \<Rightarrow> kmem \<Rightarrow> (pgdir \<times> kmem) res" where
  "vmmap pd va ka flags k =
     bnd (get_pte pd va True k) (\<lambda>(pte, pd, k).
       let p = the pte;
           ka0 = PAGE_BASE ka;
           k = write_pte p (of_nat (K2P ka0)) k;
           k = write_pte p (read_pte k p OR flags) k;
           n = K2P ka0 div PAGE_SIZE
       in Ok (pd, k\<lparr>page_ref := (page_ref k)(n := increment_rc (page_ref k n))\<rparr>))"

lemma va_off_lt: "unat (va - va_base va) < PAGE_SIZE"
proof -
  have eq: "va = va_base va OR (va AND 0xFFF)" "va_base va AND (va AND 0xFFF) = 0"
    unfolding va_base_def by (simp_all add: bit_eq_iff bit_simps) blast+
  have "va_base va + (va AND 0xFFF) = va" using eq by (metis disjunctive_add_eq_or)
  then have d: "va - va_base va = va AND 0xFFF" by (metis add_diff_cancel_left')
  have "va AND 0xFFF = take_bit 12 va" by (simp add: take_bit_eq_mask mask_numeral)
  then have "unat (va AND 0xFFF) = take_bit 12 (unat va)" by (simp add: unsigned_take_bit_eq)
  then show ?thesis unfolding d by (simp add: take_bit_eq_mod)
qed

function copyout :: "pgdir \<Rightarrow> u64 \<Rightarrow> nat \<Rightarrow> nat \<Rightarrow> kmem \<Rightarrow> (pgdir \<times> kmem) res" where
  "copyout pd va p len k =
     (if len > 0
      then
        let off = unat (va - va_base va);
            this_len = min len (PAGE_SIZE - off)
        in bnd (get_pte pd va True k) (\<lambda>(pte, pd, k).
             let k = k\<lparr>ram := store_bytes (pte_page (read_pte k (the pte)) + off) (load_bytes (ram k) p this_len) (ram k)\<rparr>
             in copyout pd (va + of_nat this_len) (p + this_len) (len - this_len) k)
      else Ok (pd, k))"
  by pat_completeness auto
termination
  by (relation "measure (\<lambda>(pd, va, p, len, k). len)") (auto simp: va_off_lt)

declare copyout.simps [simp del]

section \<open>Freeing and attaching\<close>

text \<open>The loops of \<open>free_pgdir\<close> over the tables; \<open>kernel_end\<close> is the end of the kernel image.\<close>

definition free_pt2 :: "nat \<Rightarrow> nat \<Rightarrow> kmem \<Rightarrow> kmem" where
  "free_pt2 kernel_end p k =
     kfree_page kernel_end p (fold (\<lambda>i k. if pte_valid (read_pte k (p + 8 * i))
       then kfree_page kernel_end (pte_page (read_pte k (p + 8 * i))) k else k) [0..<N_PTE_PER_TABLE] k)"

definition free_pt1 :: "nat \<Rightarrow> nat \<Rightarrow> kmem \<Rightarrow> kmem" where
  "free_pt1 kernel_end p k =
     kfree_page kernel_end p (fold (\<lambda>i k. if pte_valid (read_pte k (p + 8 * i))
       then free_pt2 kernel_end (pte_page (read_pte k (p + 8 * i))) k else k) [0..<N_PTE_PER_TABLE] k)"

definition free_pt0 :: "nat \<Rightarrow> nat \<Rightarrow> kmem \<Rightarrow> kmem" where
  "free_pt0 kernel_end p k =
     kfree_page kernel_end p (fold (\<lambda>i k. if pte_valid (read_pte k (p + 8 * i))
       then free_pt1 kernel_end (pte_page (read_pte k (p + 8 * i))) k else k) [0..<N_PTE_PER_TABLE] k)"

text \<open>
  \<open>attach_pgdir\<close> takes the table that \<open>ttbr0\<close> points to for a \<open>struct pgdir\<close>: the byte at offset 8
  is its lock, the byte at offset 32 its \<open>online\<close>. A set lock byte is never released (\<open>Blocked\<close>).
\<close>

definition attach_pgdir :: "nat \<Rightarrow> pgdir \<Rightarrow> u64 \<Rightarrow> kmem \<Rightarrow> (u64 \<times> pgdir \<times> kmem) res" where
  "attach_pgdir invalid_pt pd ttbr k =
     (let original = P2K (unat ttbr)
      in bnd (if ram k (original + 8) \<noteq> 0 then Blocked
              else Ok (k\<lparr>ram := (ram k)(original + 32 := 0, original + 8 := 0)\<rparr>)) (\<lambda>k.
         if pt pd \<noteq> 0 then Ok (of_nat (K2P (pt pd)), pd\<lparr>pd_online := True\<rparr>, k)
         else Ok (of_nat (K2P invalid_pt), pd, k)))"

end
