(* ===== verification/PT_Map.thy ===== *)
theory PT_Map
  imports PT
begin

text \<open>
  What the page tables mean: the map from user pages to entries that \<open>get_pte\<close> reads, and that
  \<open>vmmap\<close> changes it at one page. The tables of a page directory are pages that the allocator has
  handed out, named by the indices that lead to them.
\<close>

section \<open>Entries\<close>

lemma bit_pte_mask: "bit (0xFFFF000000000FFF :: u64) n \<longleftrightarrow> n < 12 \<or> (48 \<le> n \<and> n < 64)"
proof -
  have e: "(0xFFFF000000000FFF :: u64) = mask 12 OR push_bit 48 (mask 16)" by (simp add: mask_numeral push_bit_numeral)
  show ?thesis unfolding e by (auto simp: bit_simps)
qed

lemma bit_aligned:
  assumes "x < 2 ^ 48" "4096 dvd x" "bit (of_nat x :: u64) n"
  shows "12 \<le> n \<and> n < 48"
proof -
  have b: "bit x n" using assms(3) by (simp add: bit_of_nat_iff)
  have "x = take_bit 48 x" using assms(1) by (simp add: take_bit_nat_eq_self)
  then have "n < 48" using b by (metis bit_take_bit_iff)
  moreover have "take_bit 12 x = 0" using assms(2) by (simp add: take_bit_eq_mod)
  then have "\<not> n < 12" using b by (metis bit_0_eq bit_take_bit_iff bot_apply bot_bool_def)
  ultimately show ?thesis by simp
qed

lemma pte_decode:
  assumes "x < 2 ^ 48" "4096 dvd x" "flags AND 0x0000FFFFFFFFF000 = 0"
  shows "PTE_ADDRESS (of_nat x OR flags) = of_nat x" "unat (of_nat x :: u64) = x"
proof -
  have f: "\<not> bit flags n" if "12 \<le> n" "n < 48" for n
  proof -
    have "bit (0x0000FFFFFFFFF000 :: u64) n"
    proof -
      have e: "(0x0000FFFFFFFFF000 :: u64) = push_bit 12 (mask 36)" by (simp add: mask_numeral push_bit_numeral)
      show ?thesis unfolding e using that by (auto simp: bit_simps)
    qed
    then show ?thesis using assms(3) by (metis bit_0_eq bit_and_iff bot_apply bot_bool_def)
  qed
  show "PTE_ADDRESS (of_nat x OR flags) = of_nat x"
    unfolding PTE_ADDRESS_def
  proof (rule bit_eqI)
    fix n assume "possible_bit TYPE(u64) n"
    then have n: "n < 64" by (simp add: possible_bit_def)
    show "bit ((of_nat x OR flags) AND NOT 0xFFFF000000000FFF :: u64) n = bit (of_nat x :: u64) n"
      unfolding bit_and_iff bit_or_iff bit_not_iff bit_pte_mask
      using bit_aligned [OF assms(1,2), of n] f [of n] n by (auto simp: possible_bit_def)
  qed
  show "unat (of_nat x :: u64) = x" using assms(1) by (simp add: unat_of_nat)
qed

lemma pte_valid_or: "bit flags 0 \<Longrightarrow> pte_valid (w OR flags)"
  by (auto simp: pte_valid_def bit_eq_iff [where b = 0] bit_simps intro: exI [of _ 0])

lemma VA_PART_lt: "VA_PART0 va < 512" "VA_PART1 va < 512" "VA_PART2 va < 512" "VA_PART3 va < 512"
proof -
  have part: "unat (drop_bit n (va AND push_bit n (mask 9)) :: u64) < 512" if "n + 9 \<le> 64" for n
  proof -
    have "drop_bit n (va AND push_bit n (mask 9)) = take_bit 9 (drop_bit n va)"
      by (rule bit_eqI) (use that in \<open>auto simp: bit_simps\<close>)
    then have "unat (drop_bit n (va AND push_bit n (mask 9))) = take_bit 9 (unat (drop_bit n va))" by (simp add: unsigned_take_bit_eq)
    then show ?thesis by (simp add: take_bit_eq_mod)
  qed
  have e: "(0xFF8000000000 :: u64) = push_bit 39 (mask 9)" "(0x7FC0000000 :: u64) = push_bit 30 (mask 9)"
    "(0x3FE00000 :: u64) = push_bit 21 (mask 9)" "(0x1FF000 :: u64) = push_bit 12 (mask 9)"
    by (simp_all add: mask_numeral push_bit_numeral)
  show "VA_PART0 va < 512" "VA_PART1 va < 512" "VA_PART2 va < 512" "VA_PART3 va < 512"
    unfolding VA_PART0_def VA_PART1_def VA_PART2_def VA_PART3_def e by (rule part, simp)+
qed

section \<open>Tables\<close>

text \<open>
  \<open>tab\<close> gives the page of the table below a list of indices, starting with \<open>[]\<close> for the top table.
  An entry of an upper table is valid exactly when there is a table below it, and points to it.
\<close>

definition ptab :: "memory \<Rightarrow> (nat list \<rightharpoonup> nat) \<Rightarrow> bool" where
  "ptab m tab \<longleftrightarrow>
     (\<forall>is p. tab is = Some p \<longrightarrow> length is < 4 \<and> (length is < 3 \<longrightarrow> (\<forall>i<512.
        case tab (is @ [i]) of
          None \<Rightarrow> \<not> pte_valid (load64 m (p + 8 * i))
        | Some q \<Rightarrow> pte_valid (load64 m (p + 8 * i)) \<and> pte_page (load64 m (p + 8 * i)) = q))) \<and>
     (\<forall>is js p. tab is = Some p \<longrightarrow> tab js = Some p \<longrightarrow> is = js) \<and>
     (\<forall>is i. tab is = None \<longrightarrow> tab (is @ [i]) = None) \<and> (\<forall>is i. i \<ge> 512 \<longrightarrow> tab (is @ [i]) = None)"

lemma ptabD:
  assumes "ptab m tab"
  shows "tab is = Some p \<Longrightarrow> length is < 4"
    "tab is = Some p \<Longrightarrow> length is < 3 \<Longrightarrow> i < 512 \<Longrightarrow> tab (is @ [i]) = None \<Longrightarrow> \<not> pte_valid (load64 m (p + 8 * i))"
    "tab is = Some p \<Longrightarrow> length is < 3 \<Longrightarrow> i < 512 \<Longrightarrow> tab (is @ [i]) = Some q \<Longrightarrow>
       pte_valid (load64 m (p + 8 * i)) \<and> pte_page (load64 m (p + 8 * i)) = q"
    "tab is = Some p \<Longrightarrow> tab js = Some p \<Longrightarrow> is = js" "tab is = None \<Longrightarrow> tab (is @ [i]) = None" "i \<ge> 512 \<Longrightarrow> tab (is @ [i]) = None"
  using assms unfolding ptab_def by (blast, fastforce, fastforce, blast, blast, blast)

text \<open>
  The tables are pages handed out by the allocator; \<open>D\<close> is other memory that its users hold, such as
  the pages of a process.
\<close>

definition pt_ok :: "nat \<Rightarrow> (nat \<times> nat) set \<Rightarrow> (nat \<times> nat) set \<Rightarrow> (nat list \<rightharpoonup> nat) \<Rightarrow> nat list \<Rightarrow> (nat \<times> nat) set \<Rightarrow> kmem \<Rightarrow> bool" where
  "pt_ok lo L D tab ps H k \<longleftrightarrow> (\<exists>fr. mem_rep lo ps fr L H k) \<and> ptab (ram k) tab \<and>
     (\<forall>p\<in>ran tab. (p, PAGE_SIZE) \<in> H) \<and> D \<subseteq> H \<and> (\<forall>(p, n)\<in>D. p \<notin> ran tab)"

lemma held_distinct_apart:
  assumes "mem_rep lo ps fr L H k" "(p, n) \<in> H" "(q, m) \<in> H" "p \<noteq> q"
  shows "p + n \<le> q \<or> q + m \<le> p"
  using all_apartD [OF mem_repD(12) [OF assms(1)], of "(Held, p, n)" "(Held, q, m)"] assms(2-) by (auto simp: regions_def)

lemma held_page:
  assumes "mem_rep lo ps fr L H k" "(p, PAGE_SIZE) \<in> H"
  shows "K2P p < 2 ^ 48" "4096 dvd K2P p" "P2K (K2P p) = p" "p \<noteq> 0"
proof -
  have "in_page lo (Held, p, PAGE_SIZE)" "KSPACE_MASK < lo" using mem_repD(3,13) [OF assms(1)] assms(2) by (auto simp: regions_def)
  then have p: "p = KSPACE_MASK + PAGE_SIZE * page_num p" "p + PAGE_SIZE \<le> pages_top" "KSPACE_MASK < p"
    using in_page_whole by (auto simp: in_page_def)
  have "K2P p = PAGE_SIZE * page_num p" using p(1) by (simp add: K2P_def)
  then show "4096 dvd K2P p" by simp
  show "K2P p < 2 ^ 48" using p(2) by (simp add: K2P_def pages_top_def P2K_def)
  show "P2K (K2P p) = p" "p \<noteq> 0" using p(3) by (simp_all add: K2P_def P2K_def)
qed

section \<open>Growing the tables\<close>

text \<open>
  The tables grow: those there are stay, the entries of the last level keep their values, the tables
  that are new are empty, and other held memory is not written.
\<close>

definition tab_grows :: "(nat \<times> nat) set \<Rightarrow> (nat list \<rightharpoonup> nat) \<Rightarrow> kmem \<Rightarrow> (nat list \<rightharpoonup> nat) \<Rightarrow> kmem \<Rightarrow> bool" where
  "tab_grows D tab k tab' k' \<longleftrightarrow> tab \<subseteq>\<^sub>m tab' \<and>
     (\<forall>is q j. tab' is = Some q \<longrightarrow> length is = 3 \<longrightarrow> j < 512 \<longrightarrow>
        load64 (ram k') (q + 8 * j) = (if tab is = None then 0 else load64 (ram k) (q + 8 * j))) \<and>
     (\<forall>(p, n)\<in>D. (\<forall>a\<in>{p..<p + n}. ram k' a = ram k a) \<and> (n = PAGE_SIZE \<longrightarrow> page_ref k' (page_num p) = page_ref k (page_num p)))"

lemma map_leD: "tab \<subseteq>\<^sub>m tab' \<Longrightarrow> tab is = Some q \<Longrightarrow> tab' is = Some q"
  by (force simp: map_le_def dom_def)

lemma tab_grows_refl: "ptab (ram k) tab \<Longrightarrow> tab_grows D tab k tab k"
  by (auto simp: tab_grows_def)

lemma tab_grows_data:
  assumes "tab_grows D tab k tab' k'"
  shows "(p, n) \<in> D \<Longrightarrow> a \<in> {p..<p + n} \<Longrightarrow> ram k' a = ram k a"
    "(p, PAGE_SIZE) \<in> D \<Longrightarrow> page_ref k' (page_num p) = page_ref k (page_num p)"
  using assms unfolding tab_grows_def by blast+

lemma tab_grows_trans:
  assumes "tab_grows D tab k tab' k'" "tab_grows D tab' k' tab'' k''"
  shows "tab_grows D tab k tab'' k''"
proof -
  have le: "tab \<subseteq>\<^sub>m tab'" "tab' \<subseteq>\<^sub>m tab''" using assms by (simp_all add: tab_grows_def)
  show ?thesis unfolding tab_grows_def
proof (intro conjI allI impI)
  show "tab \<subseteq>\<^sub>m tab''" by (rule map_le_trans [OF le])
  show "\<forall>(p, n)\<in>D. (\<forall>a\<in>{p..<p + n}. ram k'' a = ram k a) \<and> (n = PAGE_SIZE \<longrightarrow> page_ref k'' (page_num p) = page_ref k (page_num p))"
    using tab_grows_data [OF assms(1)] tab_grows_data [OF assms(2)] by auto
  fix "is" q and j :: nat assume h: "tab'' is = Some q" "length is = 3" "j < 512"
  have e: "load64 (ram k'') (q + 8 * j) = (if tab' is = None then 0 else load64 (ram k') (q + 8 * j))" using assms(2) h unfolding tab_grows_def by blast
  show "load64 (ram k'') (q + 8 * j) = (if tab is = None then 0 else load64 (ram k) (q + 8 * j))"
  proof (cases "tab' is")
    case None
    then have "tab is = None" by (cases "tab is") (auto dest: map_leD [OF le(1)])
    then show ?thesis using e None by simp
  next
    case (Some q')
    then have "q' = q" using h(1) map_leD [OF le(2)] by simp
    then show ?thesis using e Some assms(1) h unfolding tab_grows_def by auto
  qed
qed
qed

lemma load64_zero:
  assumes "q \<le> a" "a + 8 \<le> q + n"
  shows "load64 (store_bytes q (replicate n 0) m) a = 0"
proof -
  have "load_bytes (store_bytes q (replicate n 0) m) a 8 = replicate 8 0"
    by (intro nth_equalityI) (use assms in \<open>auto simp: load_bytes_def store_bytes_def\<close>)
  then show ?thesis by (simp add: load64_def)
qed

text \<open>A new table \<open>q\<close> below entry \<open>i\<close> of the table \<open>p\<close>: what the words of the tables hold afterwards.\<close>

lemma new_table_loads:
  assumes rep: "mem_rep lo ps fr L H k" and p: "(p, PAGE_SIZE) \<in> H" "i < 512" and q: "(q, PAGE_SIZE) \<in> H" "q \<noteq> p"
    and m: "m = store64 (p + 8 * i) w (store_bytes q (replicate PAGE_SIZE 0) (ram k))"
  shows "j < 512 \<Longrightarrow> load64 m (q + 8 * j) = 0"
    "(r, PAGE_SIZE) \<in> H \<Longrightarrow> r \<noteq> q \<Longrightarrow> j < 512 \<Longrightarrow> load64 m (r + 8 * j) = (if r = p \<and> j = i then w else load64 (ram k) (r + 8 * j))"
    "(r, n) \<in> H \<Longrightarrow> r \<noteq> q \<Longrightarrow> r \<noteq> p \<Longrightarrow> a \<in> {r..<r + n} \<Longrightarrow> m a = ram k a"
proof -
  have zero: "load64 (store_bytes q (replicate PAGE_SIZE 0) (ram k)) x = load64 (ram k) x" if "x + 8 \<le> q \<or> q + PAGE_SIZE \<le> x" for x
    using that by (intro load64_cong) (auto simp: store_bytes_def)
  note ap = held_distinct_apart [OF rep]
  show "load64 m (q + 8 * j) = 0" if "j < 512"
  proof -
    have "q + 8 * j + 8 \<le> p + 8 * i \<or> p + 8 * i + 8 \<le> q + 8 * j" using ap [OF p(1) q(1)] q(2) p(2) that by auto
    then show ?thesis unfolding m using that by (simp add: load64_store64_disjoint load64_zero)
  qed
  show "load64 m (r + 8 * j) = (if r = p \<and> j = i then w else load64 (ram k) (r + 8 * j))" if r: "(r, PAGE_SIZE) \<in> H" "r \<noteq> q" "j < 512"
  proof -
    have z: "load64 (store_bytes q (replicate PAGE_SIZE 0) (ram k)) (r + 8 * j) = load64 (ram k) (r + 8 * j)"
      by (rule zero) (use ap [OF r(1) q(1) r(2)] r(3) in auto)
    show ?thesis
    proof (cases "r = p \<and> j = i")
      case False
      have "r + 8 * j + 8 \<le> p + 8 * i \<or> p + 8 * i + 8 \<le> r + 8 * j"
        using False ap [OF r(1) p(1)] r(3) p(2) by (cases "r = p"; cases "j < i") auto
      then show ?thesis unfolding m using z False by (auto simp: load64_store64_disjoint)
    qed (simp add: m)
  qed
  show "m a = ram k a" if r: "(r, n) \<in> H" "r \<noteq> q" "r \<noteq> p" "a \<in> {r..<r + n}"
    unfolding m using ap [OF r(1) q(1) r(2)] ap [OF r(1) p(1) r(3)] r(4) p(2) by (auto simp: store64_def store_bytes_def)
qed

lemma table_entry:
  assumes "mem_rep lo ps fr L H k" "(q, PAGE_SIZE) \<in> H"
  shows "pte_valid (of_nat (K2P q) OR PTE_TABLE)" "pte_page (of_nat (K2P q) OR PTE_TABLE) = q"
proof -
  note P = held_page [OF assms]
  show "pte_valid (of_nat (K2P q) OR PTE_TABLE)" by (rule pte_valid_or) (simp add: bit_numeral_rec)
  show "pte_page (of_nat (K2P q) OR PTE_TABLE) = q" unfolding pte_page_def by (simp add: pte_decode(1) [OF P(1,2)] pte_decode(2) [OF P(1,2), of 0] P(3))
qed

lemma ptab_new_table:
  assumes T: "ptab (ram k) tab" and p: "tab is = Some p" "length is < 3" "i < 512" "tab (is @ [i]) = None"
    and q: "q \<notin> ran tab" and w: "pte_valid w" "pte_page w = q"
    and new: "\<And>j. j < 512 \<Longrightarrow> load64 m (q + 8 * j) = 0"
    and old: "\<And>r j. r \<in> ran tab \<Longrightarrow> j < 512 \<Longrightarrow> load64 m (r + 8 * j) = (if r = p \<and> j = i then w else load64 (ram k) (r + 8 * j))"
  shows "ptab m (tab(is @ [i] \<mapsto> q))"
proof -
  note D = ptabD [OF T]
  let ?tab = "tab(is @ [i] \<mapsto> q)"
  have "length js < 4 \<and> (length js < 3 \<longrightarrow> (\<forall>j<512. case ?tab (js @ [j]) of None \<Rightarrow> \<not> pte_valid (load64 m (r + 8 * j))
      | Some q' \<Rightarrow> pte_valid (load64 m (r + 8 * j)) \<and> pte_page (load64 m (r + 8 * j)) = q'))" if js: "?tab js = Some r" for js r
  proof (cases "js = is @ [i]")
    case True
    then have "r = q" "tab (js @ [j]) = None" "js @ [j] \<noteq> is @ [i]" for j using js D(5) [OF p(4)] by auto
    then show ?thesis using True p(2) new by (auto simp: pte_valid_def)
  next
    case False
    then have r: "tab js = Some r" "r \<in> ran tab" using js by (auto intro: ranI)
    have "case ?tab (js @ [j]) of None \<Rightarrow> \<not> pte_valid (load64 m (r + 8 * j))
      | Some q' \<Rightarrow> pte_valid (load64 m (r + 8 * j)) \<and> pte_page (load64 m (r + 8 * j)) = q'" if j: "j < 512" "length js < 3" for j
    proof (cases "js = is \<and> j = i")
      case True
      then have "r = p" using r(1) p(1) by simp
      then show ?thesis using True old [OF r(2) j(1)] w by simp
    next
      case False
      then have "\<not> (r = p \<and> j = i)" using D(4) [OF r(1)] p(1) by auto
      then show ?thesis using False old [OF r(2) j(1)] D(2,3) [OF r(1) j(2,1)] by (auto split: option.splits)
    qed
    then show ?thesis using D(1) [OF r(1)] by blast
  qed
  moreover have "js = js'" if "?tab js = Some r" "?tab js' = Some r" for js js' r
    using that D(4) q by (auto split: if_splits intro: ranI)
  moreover have "?tab (js @ [j]) = None" if "?tab js = None" for js j
    using that D(5) p(1) by (auto split: if_splits)
  moreover have "?tab (js @ [j]) = None" if "j \<ge> 512" for js j using that D(6) p(3) by auto
  ultimately show ?thesis unfolding ptab_def by blast
qed

lemma held_page_num:
  assumes "mem_rep lo ps fr L H k" "(p, PAGE_SIZE) \<in> H" "(q, PAGE_SIZE) \<in> H" "page_num p = page_num q"
  shows "p = q"
proof -
  have "in_page lo (Held, p, PAGE_SIZE)" "in_page lo (Held, q, PAGE_SIZE)" "KSPACE_MASK < lo"
    using mem_repD(3,13) [OF assms(1)] assms(2,3) by (auto simp: regions_def)
  then show ?thesis using in_page_whole assms(4) by metis
qed

lemma held_size:
  assumes "mem_rep lo ps fr L H k" "(q, n) \<in> H" "(q, m) \<in> H"
  shows "n = m"
  using all_apartD [OF mem_repD(12) [OF assms(1)], of "(Held, q, n)" "(Held, q, m)"] mem_repD(13) [OF assms(1), of "(Held, q, n)"]
    mem_repD(13) [OF assms(1), of "(Held, q, m)"] assms(2-) by (auto simp: regions_def in_page_def)

lemma tab_grows_new_table:
  assumes None: "tab (is @ [i]) = None" and p: "tab is = Some p" "length is < 3" and inj: "\<And>js. tab is = Some p \<Longrightarrow> tab js = Some p \<Longrightarrow> is = js"
    and new: "\<And>j. j < 512 \<Longrightarrow> load64 (ram k') (q + 8 * j) = 0"
    and old: "\<And>r j. r \<in> ran tab \<Longrightarrow> r \<noteq> p \<Longrightarrow> j < 512 \<Longrightarrow> load64 (ram k') (r + 8 * j) = load64 (ram k) (r + 8 * j)"
    and D: "\<And>r n a. (r, n) \<in> D \<Longrightarrow> a \<in> {r..<r + n} \<Longrightarrow> ram k' a = ram k a"
      "\<And>r. (r, PAGE_SIZE) \<in> D \<Longrightarrow> page_ref k' (page_num r) = page_ref k (page_num r)"
  shows "tab_grows D tab k (tab(is @ [i] \<mapsto> q)) k'"
proof -
  have "load64 (ram k') (r + 8 * j) = (if tab js = None then 0 else load64 (ram k) (r + 8 * j))"
    if h: "(tab(is @ [i] \<mapsto> q)) js = Some r" "length js = 3" "j < 512" for js r j
  proof (cases "js = is @ [i]")
    case True
    then show ?thesis using h None new by simp
  next
    case False
    then have r: "tab js = Some r" using h(1) by simp
    then have "r \<noteq> p" using inj [OF p(1), of js] p(2) h(2) by auto
    then show ?thesis using old [of r j] r h(3) by (auto intro: ranI)
  qed
  moreover have "tab \<subseteq>\<^sub>m tab(is @ [i] \<mapsto> q)" using None by (auto simp: map_le_def)
  ultimately show ?thesis using D unfolding tab_grows_def by blast
qed

lemma next_table_ok:
  assumes ok: "pt_ok lo L D tab ps H k" and p: "tab is = Some p" "length is < 3" "i < 512" and ps: "ps \<noteq> []"
  shows "\<exists>q k' ps' H' tab'. next_table True p i k = Ok (Some q, k') \<and> pt_ok lo L D tab' ps' H' k' \<and> tab' (is @ [i]) = Some q \<and>
    tab_grows D tab k tab' k' \<and> length ps \<le> Suc (length ps')"
proof -
  obtain fr where rep: "mem_rep lo ps fr L H k" and T: "ptab (ram k) tab" and tH: "\<forall>p\<in>ran tab. (p, PAGE_SIZE) \<in> H"
    and D: "D \<subseteq> H" "\<forall>(p, n)\<in>D. p \<notin> ran tab" using ok by (auto simp: pt_ok_def)
  note TD = ptabD [OF T]
  show ?thesis
  proof (cases "tab (is @ [i])")
    case (Some q)
    then have "next_table True p i k = Ok (Some q, k)" using TD(3) [OF p Some] by (simp add: next_table_def read_pte_def)
    then show ?thesis using ok Some tab_grows_refl [OF T, of D] by (intro exI [of _ q] exI [of _ k] exI [of _ ps] exI [of _ H] exI [of _ tab]) simp
  next
    case None
    obtain q ps' where q: "ps = q # ps'" using ps by (cases ps) auto
    obtain k1 where k1: "kalloc_page k = Ok (q, k1)" "mem_rep lo ps' fr L (insert (q, PAGE_SIZE) H) k1" "(q, PAGE_SIZE) \<notin> H" "ram k1 = ram k"
      using kalloc_page_rep(2) [OF rep q] by blast
    define H' where "H' = insert (q, PAGE_SIZE) H"
    define w where "w = of_nat (K2P q) OR PTE_TABLE"
    define k' where "k' = write_pte (p + 8 * i) w (memset0 q k1)"
    have pH: "(p, PAGE_SIZE) \<in> H" using tH p(1) by (auto intro: ranI)
    have qt: "q \<notin> ran tab" using tH k1(3) by auto
    have qp: "q \<noteq> p" using qt p(1) by (auto intro: ranI)
    have rep2: "mem_rep lo ps' fr L (insert (q, PAGE_SIZE) H) (memset0 q k1)"
      unfolding memset0_def by (rule write_held_rep [OF k1(2)]) simp_all
    have rep2': "mem_rep lo ps' fr L (insert (p, PAGE_SIZE) H') (memset0 q k1)" using rep2 pH by (simp add: H'_def insert_absorb)
    have rep3: "mem_rep lo ps' fr L H' k'"
      using write_held_rep [OF rep2', of "p + 8 * i" "le_bytes 8 w"] p(3) pH
      by (simp add: k'_def write_pte_def store64_def H'_def insert_absorb)
    have m: "ram k' = store64 (p + 8 * i) w (store_bytes q (replicate PAGE_SIZE 0) (ram k1))" by (simp add: k'_def write_pte_def memset0_def)
    have H': "(p, PAGE_SIZE) \<in> H'" "(q, PAGE_SIZE) \<in> H'" "H \<subseteq> H'" using pH by (auto simp: H'_def)
    note E = new_table_loads [OF k1(2) [folded H'_def] H'(1) p(3) H'(2) qp m, unfolded k1(4)]
    note W = table_entry [OF rep3 H'(2), folded w_def]
    define tab' where "tab' = tab(is @ [i] \<mapsto> q)"
    have T': "ptab (ram k') tab'" unfolding tab'_def
    proof (rule ptab_new_table [OF T p None qt W])
      show "load64 (ram k') (r + 8 * j) = (if r = p \<and> j = i then w else load64 (ram k) (r + 8 * j))" if "r \<in> ran tab" "j < 512" for r j
        by (rule E(2)) (use that tH H'(3) qt in auto)
    qed (rule E(1))
    have "ran tab' = insert q (ran tab)" using None by (simp add: tab'_def)
    moreover have Dq: "r \<noteq> q" if "(r, n) \<in> D" for r n
      using that D(1) k1(3) held_size [OF rep3, of q n PAGE_SIZE] H' by auto
    ultimately have ok': "pt_ok lo L D tab' ps' H' k'"
      using rep3 T' tH D H' unfolding pt_ok_def by auto
    have "next_table True p i k = Ok (Some q, k')"
      using TD(2) [OF p None] k1(1) by (simp add: next_table_def read_pte_def k'_def w_def)
    moreover have "tab_grows D tab k tab' k'" unfolding tab'_def
    proof (rule tab_grows_new_table [OF None p(1,2) TD(4)])
      show "load64 (ram k') (r + 8 * j) = load64 (ram k) (r + 8 * j)" if "r \<in> ran tab" "r \<noteq> p" "j < 512" for r j
        using E(2) [of r j] that tH H'(3) qt by auto
      show "ram k' a = ram k a" if "(r, n) \<in> D" "a \<in> {r..<r + n}" for r n a
        by (rule E(3) [OF _ _ _ that(2)]) (use that(1) D H'(3) Dq p(1) in \<open>auto intro: ranI\<close>)
      show "page_ref k' (page_num r) = page_ref k (page_num r)" if r: "(r, PAGE_SIZE) \<in> D" for r
      proof -
        have "page_num r \<noteq> page_num q" using held_page_num [OF rep3, of r q] r D(1) H' Dq [OF r] by auto
        then show ?thesis using k1(1) q by (auto simp: k'_def write_pte_def memset0_def kalloc_page_def Let_def bnd_assert_eq_Ok split: prod.splits)
      qed
    qed (use E(1) p(1) in auto)
    ultimately show ?thesis using ok' q by (intro exI [of _ q] exI [of _ k'] exI [of _ ps'] exI [of _ H'] exI [of _ tab']) (simp add: tab'_def)
  qed
qed

section \<open>The map from user pages to entries\<close>

definition va_path :: "u64 \<Rightarrow> nat list" where
  "va_path va = [VA_PART0 va, VA_PART1 va, VA_PART2 va]"

definition pte_of :: "pgdir \<Rightarrow> kmem \<Rightarrow> u64 \<Rightarrow> u64" where
  "pte_of pd k va = (case get_pte pd va False k of Ok (Some p, _, _) \<Rightarrow> read_pte k p | _ \<Rightarrow> 0)"

lemma next_table_lookup:
  assumes "ptab (ram k) tab" "tab is = Some p" "length is < 3" "i < 512"
  shows "next_table False p i k = Ok (tab (is @ [i]), k)"
  using ptabD(2,3) [OF assms] by (cases "tab (is @ [i])") (auto simp: next_table_def read_pte_def)

lemma get_pte_lookup:
  assumes ok: "ptab (ram k) tab" and t: "tab [] = Some (pt pd)" and nz: "pt pd \<noteq> 0"
  shows "get_pte pd va False k = Ok (map_option (\<lambda>q. q + 8 * VA_PART3 va) (tab (va_path va)), pd, k)"
proof -
  note N = next_table_lookup [OF ok] and C = ptabD(5) [OF ok]
  have 1: "next_table False (pt pd) (VA_PART0 va) k = Ok (tab [VA_PART0 va], k)" using N [OF t _ VA_PART_lt(1)] by simp
  show ?thesis
  proof (cases "tab [VA_PART0 va]")
    case None
    then have "tab (va_path va) = None" using C [of "[VA_PART0 va]"] C [of "[VA_PART0 va, VA_PART1 va]"] by (simp add: va_path_def)
    then show ?thesis using nz 1 None by (simp add: get_pte_def)
  next
    case p1: (Some p1)
    have 2: "next_table False p1 (VA_PART1 va) k = Ok (tab [VA_PART0 va, VA_PART1 va], k)" using N [OF p1 _ VA_PART_lt(2)] by simp
    show ?thesis
    proof (cases "tab [VA_PART0 va, VA_PART1 va]")
      case None
      then have "tab (va_path va) = None" using C [of "[VA_PART0 va, VA_PART1 va]"] by (simp add: va_path_def)
      then show ?thesis using nz 1 2 p1 None by (simp add: get_pte_def)
    next
      case p2: (Some p2)
      have 3: "next_table False p2 (VA_PART2 va) k = Ok (tab (va_path va), k)" using N [OF p2 _ VA_PART_lt(3)] by (simp add: va_path_def)
      show ?thesis using nz 1 2 3 p1 p2 by (cases "tab (va_path va)") (simp_all add: get_pte_def)
    qed
  qed
qed

lemma pte_of_lookup:
  assumes "ptab (ram k) tab" "tab [] = Some (pt pd)" "pt pd \<noteq> 0"
  shows "pte_of pd k va = (case tab (va_path va) of None \<Rightarrow> 0 | Some q \<Rightarrow> load64 (ram k) (q + 8 * VA_PART3 va))"
  unfolding pte_of_def get_pte_lookup [OF assms] by (auto simp: read_pte_def split: option.splits)

lemma get_pte_alloc:
  assumes ok: "pt_ok lo L D tab ps H k" and t: "tab [] = Some (pt pd)" "pt pd \<noteq> 0" and ps: "3 \<le> length ps"
  shows "\<exists>q k' ps' H' tab'. get_pte pd va True k = Ok (Some (q + 8 * VA_PART3 va), pd, k') \<and> pt_ok lo L D tab' ps' H' k' \<and>
    tab' (va_path va) = Some q \<and> tab_grows D tab k tab' k' \<and> tab' [] = Some (pt pd) \<and> length ps \<le> length ps' + 3"
proof -
  have ne: "ps \<noteq> []" using ps by auto
  obtain p1 k1 ps1 H1 tab1 where 1: "next_table True (pt pd) (VA_PART0 va) k = Ok (Some p1, k1)" "pt_ok lo L D tab1 ps1 H1 k1"
    "tab1 [VA_PART0 va] = Some p1" "tab_grows D tab k tab1 k1" "length ps \<le> Suc (length ps1)"
    using next_table_ok [OF ok t(1) _ VA_PART_lt(1) [of va]] ne by auto
  have ne1: "ps1 \<noteq> []" using ps 1(5) by auto
  obtain p2 k2 ps2 H2 tab2 where 2: "next_table True p1 (VA_PART1 va) k1 = Ok (Some p2, k2)" "pt_ok lo L D tab2 ps2 H2 k2"
    "tab2 [VA_PART0 va, VA_PART1 va] = Some p2" "tab_grows D tab1 k1 tab2 k2" "length ps1 \<le> Suc (length ps2)"
    using next_table_ok [OF 1(2,3) _ VA_PART_lt(2) [of va]] ne1 by auto
  have ne2: "ps2 \<noteq> []" using ps 1(5) 2(5) by auto
  obtain p3 k3 ps3 H3 tab3 where 3: "next_table True p2 (VA_PART2 va) k2 = Ok (Some p3, k3)" "pt_ok lo L D tab3 ps3 H3 k3"
    "tab3 [VA_PART0 va, VA_PART1 va, VA_PART2 va] = Some p3" "tab_grows D tab2 k2 tab3 k3" "length ps2 \<le> Suc (length ps3)"
    using next_table_ok [OF 2(2,3) _ VA_PART_lt(3) [of va]] ne2 by auto
  have g: "tab_grows D tab k tab3 k3" using tab_grows_trans [OF tab_grows_trans [OF 1(4) 2(4)] 3(4)] .
  then have "tab3 [] = Some (pt pd)" using t(1) map_leD by (auto simp: tab_grows_def)
  moreover have "get_pte pd va True k = Ok (Some (p3 + 8 * VA_PART3 va), pd, k3)" using t(2) 1(1) 2(1) 3(1) by (simp add: get_pte_def)
  moreover have "length ps \<le> length ps3 + 3" using 1(5) 2(5) 3(5) by simp
  ultimately show ?thesis using 3(2,3) g by (auto simp: va_path_def)
qed

lemma tab_grows_pte:
  assumes "tab_grows D tab k tab' k'" "ptab (ram k) tab" "tab [] = Some (pt pd)" "pt pd \<noteq> 0" "tab' (va_path va) = Some q"
  shows "load64 (ram k') (q + 8 * VA_PART3 va) = pte_of pd k va"
proof -
  have "load64 (ram k') (q + 8 * VA_PART3 va) = (if tab (va_path va) = None then 0 else load64 (ram k) (q + 8 * VA_PART3 va))"
    using assms(1,5) VA_PART_lt(4) [of va] unfolding tab_grows_def by (simp add: va_path_def)
  moreover have "tab (va_path va) = None \<or> tab (va_path va) = Some q"
    using assms(1,5) map_leD [of tab tab' "va_path va"] unfolding tab_grows_def by (cases "tab (va_path va)") auto
  ultimately show ?thesis using pte_of_lookup [OF assms(2-4)] by auto
qed

section \<open>Mapping a page\<close>

definition same_page :: "u64 \<Rightarrow> u64 \<Rightarrow> bool" where
  "same_page va va' \<longleftrightarrow> va_path va = va_path va' \<and> VA_PART3 va = VA_PART3 va'"

definition pgdir_ok :: "nat \<Rightarrow> (nat \<times> nat) set \<Rightarrow> (nat \<times> nat) set \<Rightarrow> pgdir \<Rightarrow> kmem \<Rightarrow> bool" where
  "pgdir_ok kernel_end L D pd k \<longleftrightarrow> (\<exists>tab ps H. pt_ok (PAGE_BASE kernel_end + PAGE_SIZE) L D tab ps H k \<and> tab [] = Some (pt pd))"

lemma pt_okD:
  assumes "pt_ok lo L D tab ps H k" "tab [] = Some (pt pd)"
  shows "ptab (ram k) tab" "pt pd \<noteq> 0" "left_pages k = int (length ps)"
proof -
  obtain fr where rep: "mem_rep lo ps fr L H k" using assms(1) by (auto simp: pt_ok_def)
  have "(pt pd, PAGE_SIZE) \<in> H" using assms by (auto simp: pt_ok_def intro: ranI)
  then show "pt pd \<noteq> 0" by (rule held_page(4) [OF rep])
  show "ptab (ram k) tab" using assms(1) by (simp add: pt_ok_def)
  show "left_pages k = int (length ps)" by (rule mem_repD(4) [OF rep])
qed

text \<open>Writing an entry of the last level.\<close>

lemma write_leaf_ok:
  assumes ok: "pt_ok lo L D tab ps H k" and q: "tab is = Some q" "length is = 3" "j < 512"
  shows "pt_ok lo L D tab ps H (write_pte (q + 8 * j) w k)"
    "tab js = Some r \<Longrightarrow> j' < 512 \<Longrightarrow> load64 (ram (write_pte (q + 8 * j) w k)) (r + 8 * j') =
       (if js = is \<and> j' = j then w else load64 (ram k) (r + 8 * j'))"
    "(p, n) \<in> D \<Longrightarrow> a \<in> {p..<p + n} \<Longrightarrow> ram (write_pte (q + 8 * j) w k) a = ram k a"
proof -
  obtain fr where rep: "mem_rep lo ps fr L H k" and T: "ptab (ram k) tab" and tH: "\<forall>p\<in>ran tab. (p, PAGE_SIZE) \<in> H"
    and D: "D \<subseteq> H" "\<forall>(p, n)\<in>D. p \<notin> ran tab" using ok by (auto simp: pt_ok_def)
  let ?k = "write_pte (q + 8 * j) w k"
  have qH: "(q, PAGE_SIZE) \<in> H" "q \<in> ran tab" using tH q(1) by (auto intro: ranI)
  have load: "load64 (ram ?k) (r + 8 * i) = (if js = is \<and> i = j then w else load64 (ram k) (r + 8 * i))"
    if r: "tab js = Some r" "i < 512" for js r i
  proof (cases "js = is \<and> i = j")
    case True
    then show ?thesis using r(1) q(1) by (simp add: write_pte_def)
  next
    case False
    have "r + 8 * i + 8 \<le> q + 8 * j \<or> q + 8 * j + 8 \<le> r + 8 * i"
    proof (cases "r = q")
      case True
      then have "i \<noteq> j" using False ptabD(4) [OF T r(1), of "is"] q(1) by auto
      then show ?thesis using True by (cases "i < j") auto
    next
      case False
      have "(r, PAGE_SIZE) \<in> H" using r(1) tH by (auto intro: ranI)
      note held_distinct_apart [OF rep this qH(1) False]
      then show ?thesis using r(2) q(3) by auto
    qed
    then have "load64 (ram ?k) (r + 8 * i) = load64 (ram k) (r + 8 * i)" by (simp add: write_pte_def load64_store64_disjoint)
    then show ?thesis using False by auto
  qed
  then show "tab js = Some r \<Longrightarrow> j' < 512 \<Longrightarrow> load64 (ram ?k) (r + 8 * j') = (if js = is \<and> j' = j then w else load64 (ram k) (r + 8 * j'))" .
  have rep': "mem_rep lo ps fr L H ?k"
    using write_held_rep [of lo ps fr L q PAGE_SIZE H k "q + 8 * j" "le_bytes 8 w"] rep qH(1) q(3)
    by (simp add: write_pte_def store64_def insert_absorb)
  have T': "ptab (ram ?k) tab"
  proof -
    have up: "load64 (ram ?k) (r + 8 * i) = load64 (ram k) (r + 8 * i)" if "tab js = Some r" "length js < 3" "i < 512" for js r i
      using load [OF that(1,3)] q(2) that(2) by auto
    have "case tab (js @ [i]) of None \<Rightarrow> \<not> pte_valid (load64 (ram ?k) (r + 8 * i))
        | Some q' \<Rightarrow> pte_valid (load64 (ram ?k) (r + 8 * i)) \<and> pte_page (load64 (ram ?k) (r + 8 * i)) = q'"
      if "tab js = Some r" "length js < 3" "i < 512" for js r i
      using ptabD(2,3) [OF T that] unfolding up [OF that] by (auto split: option.splits)
    then show ?thesis using T unfolding ptab_def by blast
  qed
  show "pt_ok lo L D tab ps H ?k" using rep' T' tH D by (auto simp: pt_ok_def)
  show "ram ?k a = ram k a" if a: "(p, n) \<in> D" "a \<in> {p..<p + n}"
  proof -
    have "p \<noteq> q" "(p, n) \<in> H" using a(1) D qH(2) by auto
    then show ?thesis using held_distinct_apart [OF rep _ qH(1)] a(2) q(3) by (fastforce simp: write_pte_def store64_def store_bytes_def)
  qed
qed

lemma pt_ok_page_ref:
  assumes ok: "pt_ok lo L D tab ps H k" and p: "(p, PAGE_SIZE) \<in> H"
  shows "pt_ok lo L D tab ps H (k\<lparr>page_ref := (page_ref k)(page_num p := v)\<rparr>)"
proof -
  obtain fr where rep: "mem_rep lo ps fr L (insert (p, PAGE_SIZE) H) k" using ok p by (auto simp: pt_ok_def insert_absorb)
  have "mem_rep lo ps fr L H (k\<lparr>page_ref := (page_ref k)(page_num p := v)\<rparr>)"
    using page_ref_rep [OF rep, where c = "alloc_page_cnt k" and v = v] p by (simp add: insert_absorb)
  then show ?thesis using ok by (auto simp: pt_ok_def)
qed

lemma vmmap_ok:
  assumes pt: "pt_ok lo L D tab ps H k" "tab [] = Some (pt pd)" and pages: "3 \<le> length ps" and ka: "(PAGE_BASE ka, PAGE_SIZE) \<in> D"
  shows "\<exists>k' tab' ps' H'. vmmap pd va ka flags k = Ok (pd, k') \<and> pt_ok lo L D tab' ps' H' k' \<and> tab \<subseteq>\<^sub>m tab' \<and>
    (\<forall>va'. pte_of pd k' va' = (if same_page va' va then of_nat (K2P (PAGE_BASE ka)) OR flags else pte_of pd k va')) \<and>
    (\<forall>(p, n)\<in>D. \<forall>a\<in>{p..<p + n}. ram k' a = ram k a) \<and>
    (\<forall>p. (p, PAGE_SIZE) \<in> D \<longrightarrow> page_ref k' (page_num p) = page_ref k (page_num p) + (if p = PAGE_BASE ka then 1 else 0)) \<and>
    length ps \<le> length ps' + 3"
proof -
  note K = pt_okD [OF pt]
  from get_pte_alloc [OF pt K(2) pages, of va] obtain q k1 ps1 H1 tab1 where g: "get_pte pd va True k = Ok (Some (q + 8 * VA_PART3 va), pd, k1)"
    "pt_ok lo L D tab1 ps1 H1 k1" "tab1 (va_path va) = Some q" "tab_grows D tab k tab1 k1" "tab1 [] = Some (pt pd)" "length ps \<le> length ps1 + 3" by blast
  let ?p = "q + 8 * VA_PART3 va" and ?x = "of_nat (K2P (PAGE_BASE ka)) :: u64"
  have le: "tab \<subseteq>\<^sub>m tab1" using g(4) by (simp add: tab_grows_def)
  have l3: "length (va_path va) = 3" for va by (simp add: va_path_def)
  define k2 where "k2 = write_pte ?p ?x k1"
  define k3 where "k3 = write_pte ?p (?x OR flags) k2"
  note W1 = write_leaf_ok [OF g(2,3) l3 VA_PART_lt(4) [of va], where w = ?x, folded k2_def]
  note W2 = write_leaf_ok [OF W1(1) g(3) l3 VA_PART_lt(4) [of va], where w = "?x OR flags", folded k3_def]
  have kaH: "(PAGE_BASE ka, PAGE_SIZE) \<in> H1" using ka g(2) by (auto simp: pt_ok_def)
  have refs: "page_ref k3 = page_ref k1" by (simp add: k3_def k2_def write_pte_def)
  define k' where "k' = k3\<lparr>page_ref := (page_ref k3)(page_num (PAGE_BASE ka) := page_ref k3 (page_num (PAGE_BASE ka)) + 1)\<rparr>"
  have ok': "pt_ok lo L D tab1 ps1 H1 k'" unfolding k'_def by (rule pt_ok_page_ref [OF W2(1) kaH])
  have ram': "ram k' = ram k3" by (simp add: k'_def)
  have v: "vmmap pd va ka flags k = Ok (pd, k')"
    by (simp add: vmmap_def g(1) k'_def k3_def k2_def read_pte_def write_pte_def increment_rc_def page_num_def Let_def)
  have ent: "pte_of pd k' va' = (if same_page va' va then ?x OR flags else pte_of pd k va')" for va'
  proof -
    have new: "pte_of pd k' va' = (case tab1 (va_path va') of None \<Rightarrow> 0 | Some r \<Rightarrow> load64 (ram k3) (r + 8 * VA_PART3 va'))"
      unfolding ram' [symmetric] by (rule pte_of_lookup [where tab = tab1]) (use ok' g(5) K(2) in \<open>simp_all add: pt_ok_def\<close>)
    show ?thesis
    proof (cases "tab1 (va_path va')")
      case None
      then have "tab (va_path va') = None" using map_leD [OF le] by (cases "tab (va_path va')") auto
      then show ?thesis using new pte_of_lookup [OF K(1) pt(2) K(2)] None g(3) by (auto simp: same_page_def)
    next
      case (Some r)
      then show ?thesis using new W2(2) [OF Some VA_PART_lt(4)] W1(2) [OF Some VA_PART_lt(4)] tab_grows_pte [OF g(4) K(1) pt(2) K(2) Some]
        by (auto simp: same_page_def)
    qed
  qed
  have data: "ram k' a = ram k a" if "(p, n) \<in> D" "a \<in> {p..<p + n}" for p n a
    using W2(3) [OF that] W1(3) [OF that] tab_grows_data(1) [OF g(4) that] by (simp add: ram')
  have "page_ref k' (page_num p) = page_ref k (page_num p) + (if p = PAGE_BASE ka then 1 else 0)" if p: "(p, PAGE_SIZE) \<in> D" for p
  proof -
    obtain fr where rep: "mem_rep lo ps1 fr L H1 k1" using g(2) by (auto simp: pt_ok_def)
    have "p = PAGE_BASE ka" if "page_num p = page_num (PAGE_BASE ka)"
      using held_page_num [OF rep _ kaH that] p g(2) by (auto simp: pt_ok_def)
    then show ?thesis using tab_grows_data(2) [OF g(4) p] refs by (auto simp: k'_def)
  qed
  then show ?thesis using v ok' le ent data g(6) by blast
qed

text \<open>
  C38: \<open>vmmap\<close> changes the map from user pages to entries at the page of \<open>va\<close> only, where the entry
  becomes the physical page of \<open>ka\<close> with the given flags. It allocates the tables it needs, counts
  one more reference to the page and does not write any other memory that is in use.
\<close>

theorem vmmap_maps:
  assumes ok: "pgdir_ok e L D pd k" and pages: "left_pages k \<ge> 3" and ka: "(PAGE_BASE ka, PAGE_SIZE) \<in> D"
  shows "\<exists>k'. vmmap pd va ka flags k = Ok (pd, k') \<and> pgdir_ok e L D pd k' \<and>
    (\<forall>va'. pte_of pd k' va' = (if same_page va' va then of_nat (K2P (PAGE_BASE ka)) OR flags else pte_of pd k va')) \<and>
    (\<forall>(p, n)\<in>D. \<forall>a\<in>{p..<p + n}. ram k' a = ram k a) \<and>
    page_ref k' (page_num (PAGE_BASE ka)) = page_ref k (page_num (PAGE_BASE ka)) + 1"
proof -
  obtain tab ps H where pt: "pt_ok (PAGE_BASE e + PAGE_SIZE) L D tab ps H k" "tab [] = Some (pt pd)" using ok by (auto simp: pgdir_ok_def)
  have "3 \<le> length ps" using pages pt_okD(3) [OF pt] by simp
  from vmmap_ok [OF pt this ka, of va flags] obtain k' tab' ps' H' where v: "vmmap pd va ka flags k = Ok (pd, k')"
    "pt_ok (PAGE_BASE e + PAGE_SIZE) L D tab' ps' H' k'" "tab \<subseteq>\<^sub>m tab'"
    "\<forall>va'. pte_of pd k' va' = (if same_page va' va then of_nat (K2P (PAGE_BASE ka)) OR flags else pte_of pd k va')"
    "\<forall>(p, n)\<in>D. \<forall>a\<in>{p..<p + n}. ram k' a = ram k a"
    "\<forall>p. (p, PAGE_SIZE) \<in> D \<longrightarrow> page_ref k' (page_num p) = page_ref k (page_num p) + (if p = PAGE_BASE ka then 1 else 0)"
    by blast
  have "pgdir_ok e L D pd k'" unfolding pgdir_ok_def using v(2) map_leD [OF v(3) pt(2)] by blast
  then show ?thesis using v(1,4,5) v(6) ka by auto
qed

lemma init_pgdir_ok:
  assumes rep: "mem_rep lo ps fr L H k" and ps: "ps = p # ps'"
  shows "\<exists>k'. init_pgdir k = Ok (\<lparr>pt = p, sections = [], pd_online = False\<rparr>, k') \<and>
    pt_ok lo L H [[] \<mapsto> p] ps' (insert (p, PAGE_SIZE) H) k' \<and> left_pages k' = left_pages k - 1"
proof -
  obtain k1 where k1: "kalloc_page k = Ok (p, k1)" "mem_rep lo ps' fr L (insert (p, PAGE_SIZE) H) k1" "(p, PAGE_SIZE) \<notin> H"
    using kalloc_page_rep(2) [OF rep ps] by blast
  have rep1: "mem_rep lo ps' fr L (insert (p, PAGE_SIZE) H) (memset0 p k1)"
    unfolding memset0_def by (rule write_held_rep [OF k1(2)]) simp_all
  have "ptab (ram (memset0 p k1)) [[] \<mapsto> p]" by (auto simp: ptab_def memset0_def load64_zero pte_valid_def)
  moreover have "q \<noteq> p" if "(q, n) \<in> H" for q n using that k1(3) held_size [OF rep1, of p n PAGE_SIZE] by auto
  ultimately have "pt_ok lo L H [[] \<mapsto> p] ps' (insert (p, PAGE_SIZE) H) (memset0 p k1)" using rep1 by (auto simp: pt_ok_def)
  moreover have "left_pages (memset0 p k1) = left_pages k - 1" using mem_repD(4) [OF rep1] mem_repD(4) [OF rep] ps by simp
  ultimately show ?thesis using k1(1) by (auto simp: init_pgdir_def)
qed

lemma take_page_ok:
  assumes ok: "pt_ok lo L D tab ps H k" and ps: "ps = p # ps'"
  shows "\<exists>k'. kalloc_page k = Ok (p, k') \<and> pt_ok lo L (insert (p, PAGE_SIZE) D) tab ps' (insert (p, PAGE_SIZE) H) k' \<and>
    ram k' = ram k \<and> left_pages k' = left_pages k - 1 \<and> PAGE_BASE p = p"
proof -
  obtain fr where rep: "mem_rep lo ps fr L H k" using ok by (auto simp: pt_ok_def)
  obtain k1 where k1: "kalloc_page k = Ok (p, k1)" "mem_rep lo ps' fr L (insert (p, PAGE_SIZE) H) k1" "(p, PAGE_SIZE) \<notin> H" "ram k1 = ram k"
    using kalloc_page_rep(2) [OF rep ps] by blast
  have "p \<notin> ran tab" using ok k1(3) by (auto simp: pt_ok_def)
  then have "pt_ok lo L (insert (p, PAGE_SIZE) D) tab ps' (insert (p, PAGE_SIZE) H) k1"
    using ok k1 unfolding pt_ok_def by auto
  moreover have "left_pages k1 = left_pages k - 1" using mem_repD(4) [OF k1(2)] mem_repD(4) [OF rep] ps by simp
  moreover have "PAGE_BASE p = p"
  proof -
    have "in_page lo (Held, p, PAGE_SIZE)" "KSPACE_MASK < lo" using mem_repD(3,13) [OF k1(2)] by (auto simp: regions_def)
    then obtain n where n: "p = KSPACE_MASK + PAGE_SIZE * n" using in_page_whole by blast
    have "p mod PAGE_SIZE = 0" unfolding n by simp
    then show ?thesis by (simp add: PAGE_BASE_def)
  qed
  ultimately show ?thesis using k1 by blast
qed

lemma left_pages_init_n: "p + n * PAGE_SIZE \<le> pages_top \<Longrightarrow> left_pages k + int n \<le> left_pages (init_pages_loop p k)"
proof (induction n arbitrary: p k)
  case 0
  then show ?case using left_pages_init by simp
next
  case (Suc n)
  then have "left_pages ((push_page p k)\<lparr>left_pages := left_pages k + 1\<rparr>) + int n \<le>
      left_pages (init_pages_loop (p + PAGE_SIZE) ((push_page p k)\<lparr>left_pages := left_pages k + 1\<rparr>))" by (intro Suc.IH) simp
  then show ?case using Suc.prems by (subst init_pages_loop.simps) simp
qed

definition boot_example :: kmem where
  "boot_example = init_pages (KSPACE_MASK + 0x100000)
     \<lparr>alloc_page_cnt = 0, left_pages = 0, pages = 0, free_mem = replicate MAX_ORDER 0, zero_page_ptr = 0, page_ref = (\<lambda>_. 0), ram = (\<lambda>_. 85)\<rparr>"

lemma boot_example_rep: "\<exists>ps fr. mem_rep (PAGE_BASE (KSPACE_MASK + 0x100000) + PAGE_SIZE) ps fr {} {} boot_example \<and> 100 \<le> length ps"
proof -
  let ?e = "KSPACE_MASK + 0x100000"
  let ?b = "\<lparr>alloc_page_cnt = 0, left_pages = 0, pages = 0, free_mem = replicate MAX_ORDER 0, zero_page_ptr = 0, page_ref = (\<lambda>_. 0), ram = (\<lambda>_. 85)\<rparr>"
  have r: "mem_reachable ?e {} {} boot_example"
    unfolding boot_example_def by (rule mem_reachable.boot) (simp add: boot_mem_def, simp add: PAGE_BASE_def)
  have base: "PAGE_BASE ?e = ?e" by (simp add: PAGE_BASE_def)
  have "?e + PAGE_SIZE + 100 * PAGE_SIZE \<le> pages_top" by (simp add: pages_top_def P2K_def)
  from left_pages_init_n [OF this] have "100 \<le> left_pages boot_example"
    unfolding boot_example_def init_pages_def base by (rule order_trans [rotated]) simp
  then show ?thesis using mem_reachable_rep [OF r] mem_repD(4) by fastforce
qed

theorem vmmap_maps_witness:
  "\<exists>pd k1 ka k2 k3. init_pgdir boot_example = Ok (pd, k1) \<and> kalloc_page k1 = Ok (ka, k2) \<and>
     vmmap pd 0x400000 ka PTE_USER_DATA k2 = Ok (pd, k3) \<and> pte_of pd k3 0x400000 = of_nat (K2P ka) OR PTE_USER_DATA"
proof -
  let ?e = "KSPACE_MASK + 0x100000"
  define lo where "lo = PAGE_BASE ?e + PAGE_SIZE"
  obtain ps fr where rep: "mem_rep lo ps fr {} {} boot_example" "100 \<le> length ps" using boot_example_rep unfolding lo_def by blast
  then obtain p q ps' where ps: "ps = p # q # ps'" by (cases ps rule: remdups_adj.cases) auto
  obtain k1 where k1: "init_pgdir boot_example = Ok (\<lparr>pt = p, sections = [], pd_online = False\<rparr>, k1)"
    "pt_ok lo {} {} [[] \<mapsto> p] (q # ps') (insert (p, PAGE_SIZE) {}) k1" "left_pages k1 = left_pages boot_example - 1"
    using init_pgdir_ok [OF rep(1) ps] by blast
  obtain k2 where k2: "kalloc_page k1 = Ok (q, k2)" "pt_ok lo {} (insert (q, PAGE_SIZE) {}) [[] \<mapsto> p] ps' (insert (q, PAGE_SIZE) (insert (p, PAGE_SIZE) {})) k2"
    "left_pages k2 = left_pages k1 - 1" "PAGE_BASE q = q" using take_page_ok [OF k1(2) refl] by blast
  let ?pd = "\<lparr>pt = p, sections = [], pd_online = False\<rparr>"
  have "pgdir_ok ?e {} {(q, PAGE_SIZE)} ?pd k2" unfolding pgdir_ok_def lo_def [symmetric] using k2(2) by (intro exI conjI) (assumption, simp)
  moreover have "left_pages k2 \<ge> 3" using k2(3) k1(3) mem_repD(4) [OF rep(1)] rep(2) by simp
  ultimately obtain k3 where "vmmap ?pd 0x400000 q PTE_USER_DATA k2 = Ok (?pd, k3)"
    "\<forall>va'. pte_of ?pd k3 va' = (if same_page va' 0x400000 then of_nat (K2P q) OR PTE_USER_DATA else pte_of ?pd k2 va')"
    using vmmap_maps [of ?e "{}" "{(q, PAGE_SIZE)}" ?pd k2 q "0x400000" PTE_USER_DATA] unfolding k2(4) by blast
  moreover have "same_page 0x400000 0x400000" by (simp add: same_page_def)
  ultimately show ?thesis using k1(1) k2(1) by metis
qed

end
