(* ===== verification/Paging.thy ===== *)
theory Paging
  imports PT_Map
begin

text \<open>
  User memory (\<open>kernel/paging.c\<close>): growing and shrinking the heap, the page fault handler with lazy
  allocation and copy on write, sections moved to and from the swap area, and the address checks of
  \<open>kernel/syscall.c\<close>. Sections end below the last page of the address space, so that the loops
  over their pages do not wrap around.
\<close>

section \<open>State and sections\<close>

abbreviation ST_FILE :: u64 where "ST_FILE \<equiv> 1"
abbreviation ST_SWAP :: u64 where "ST_SWAP \<equiv> 2"
abbreviation ST_RO :: u64 where "ST_RO \<equiv> 4"
abbreviation ST_HEAP :: u64 where "ST_HEAP \<equiv> 8"

abbreviation SIZEOF_SECTION :: nat where "SIZEOF_SECTION \<equiv> 88"

record vm_sys =
  vm_mem :: kmem
  vm_files :: ksys

definition vm_cache :: "vm_sys \<Rightarrow> cache" where
  "vm_cache s = blocks_of (itab (vm_files s))"

definition put_vm_cache :: "cache \<Rightarrow> vm_sys \<Rightarrow> vm_sys" where
  "put_vm_cache c s = s\<lparr>vm_files := set_tab (set_blocks c (itab (vm_files s))) (vm_files s)\<rparr>"

definition has :: "u64 \<Rightarrow> vm_section \<Rightarrow> bool" where
  "has f st \<longleftrightarrow> st_flags st AND f \<noteq> 0"

definition the_section :: "nat \<Rightarrow> pgdir \<Rightarrow> vm_section" where
  "the_section a pd = the (map_of (sections pd) a)"

definition upd_section :: "nat \<Rightarrow> (vm_section \<Rightarrow> vm_section) \<Rightarrow> pgdir \<Rightarrow> pgdir" where
  "upd_section a f pd = pd\<lparr>sections := map (\<lambda>(b, st). if b = a then (b, f st) else (b, st)) (sections pd)\<rparr>"

text \<open>\<open>for (u64 a = b; a < e; a += PAGE_SIZE)\<close>\<close>

function va_range_nat :: "nat \<Rightarrow> nat \<Rightarrow> nat list" where
  "va_range_nat b e = (if b < e then b # va_range_nat (b + PAGE_SIZE) e else [])"
  by pat_completeness auto
termination
  by (relation "measure (\<lambda>(b, e). e - b)") auto

declare va_range_nat.simps [simp del]

definition va_range :: "u64 \<Rightarrow> u64 \<Rightarrow> u64 list" where
  "va_range b e = map of_nat (va_range_nat (unat b) (unat e))"

text \<open>
  The search loops stop at the first section that satisfies the condition and otherwise end with
  the last section; the null pointer is left only when there is no section.
\<close>

definition search_section :: "(vm_section \<Rightarrow> bool) \<Rightarrow> (nat \<times> vm_section) list \<Rightarrow> (nat \<times> vm_section) option" where
  "search_section P sts =
     (case find (\<lambda>(a, st). P st) sts of
        Some x \<Rightarrow> Some x
      | None \<Rightarrow> if sts = [] then None else Some (last sts))"

section \<open>Swapping\<close>

definition alloc_page_for_user :: "kmem \<Rightarrow> (nat \<times> kmem) res" where
  "alloc_page_for_user k = kalloc_page k"

definition lock_section :: "nat \<Rightarrow> nat \<Rightarrow> pgdir \<Rightarrow> pgdir res" where
  "lock_section t a pd =
     (let (passed, sem) = wait_sem t (st_lock (the_section a pd))
      in if passed then Ok (upd_section a (\<lambda>st. st\<lparr>st_lock := sem\<rparr>) pd) else Blocked)"

definition unlock_section :: "nat \<Rightarrow> pgdir \<Rightarrow> pgdir res" where
  "unlock_section a pd =
     bnd (post_sem (st_lock (the_section a pd))) (\<lambda>(_, sem). Ok (upd_section a (\<lambda>st. st\<lparr>st_lock := sem\<rparr>) pd))"

definition invalidate_page :: "pgdir \<Rightarrow> u64 \<Rightarrow> kmem \<Rightarrow> kmem res" where
  "invalidate_page pd va k =
     bnd (get_pte pd va False k) (\<lambda>(pte, _, k).
       case pte of
         None \<Rightarrow> Ok k
       | Some p \<Rightarrow> Ok (if read_pte k p \<noteq> 0 then write_pte p (read_pte k p AND NOT PTE_VALID) k else k))"

definition swapout_page :: "nat \<Rightarrow> pgdir \<Rightarrow> u64 \<Rightarrow> vm_sys \<Rightarrow> vm_sys res" where
  "swapout_page kernel_end pd va s =
     bnd (get_pte pd va False (vm_mem s)) (\<lambda>(pte, _, k).
       case pte of
         None \<Rightarrow> Ok s
       | Some p \<Rightarrow>
           if read_pte k p = 0 then Ok s
           else
             let ka = pte_page (read_pte k p)
             in bnd (write_page_to_disk ka (ram k) (vm_cache s)) (\<lambda>(bno, c).
                let k = kfree_page kernel_end ka k;
                    k = write_pte p (ucast (push_bit 12 (of_nat bno :: u32))) k
                in Ok (put_vm_cache c (s\<lparr>vm_mem := k\<rparr>))))"

definition swapout :: "nat \<Rightarrow> nat \<Rightarrow> nat \<Rightarrow> pgdir \<Rightarrow> vm_sys \<Rightarrow> (pgdir \<times> vm_sys) res" where
  "swapout kernel_end t a pd s =
     (let st = the_section a pd;
          vas = va_range (st_begin st) (st_end st)
      in bnd (assert (\<not> has ST_SWAP st)) (\<lambda>_.
         let pd = upd_section a (\<lambda>st. st\<lparr>st_flags := st_flags st OR ST_SWAP\<rparr>) pd
         in bnd (mfold (invalidate_page pd) vas (vm_mem s)) (\<lambda>k.
            bnd (lock_section t a pd) (\<lambda>pd.
            bnd (if has ST_FILE st then Ok (s\<lparr>vm_mem := k\<rparr>)
                 else mfold (swapout_page kernel_end pd) vas (s\<lparr>vm_mem := k\<rparr>)) (\<lambda>s.
            bnd (unlock_section a pd) (\<lambda>pd. Ok (pd, s)))))))"

definition swapin_page :: "u64 \<Rightarrow> pgdir \<times> vm_sys \<Rightarrow> (pgdir \<times> vm_sys) res" where
  "swapin_page va = (\<lambda>(pd, s).
     bnd (get_pte pd va False (vm_mem s)) (\<lambda>(pte, _, k).
       case pte of
         None \<Rightarrow> Ok (pd, s)
       | Some p \<Rightarrow>
           if read_pte k p = 0 then Ok (pd, s)
           else
             let bno = (ucast (drop_bit 12 (read_pte k p)) :: u32)
             in bnd (alloc_page_for_user k) (\<lambda>(ka, k).
                bnd (read_page_from_disk ka (unat bno) (ram k) (vm_cache s)) (\<lambda>(m, c).
                bnd (vmmap pd va ka PTE_USER_DATA (k\<lparr>ram := m\<rparr>)) (\<lambda>(pd, k).
                  Ok (pd, put_vm_cache c (s\<lparr>vm_mem := k\<rparr>)))))))"

definition swapin :: "nat \<Rightarrow> nat \<Rightarrow> pgdir \<Rightarrow> vm_sys \<Rightarrow> (pgdir \<times> vm_sys) res" where
  "swapin t a pd s =
     (let st = the_section a pd
      in bnd (assert (has ST_SWAP st)) (\<lambda>_.
         bnd (lock_section t a pd) (\<lambda>pd.
         bnd (mfold swapin_page (va_range (st_begin st) (st_end st)) (pd, s)) (\<lambda>(pd, s).
         bnd (unlock_section a pd) (\<lambda>pd.
           Ok (upd_section a (\<lambda>st. st\<lparr>st_flags := st_flags st AND NOT ST_SWAP\<rparr>) pd, s))))))"

section \<open>The heap\<close>

definition unmap_heap_page :: "nat \<Rightarrow> pgdir \<Rightarrow> u64 \<Rightarrow> vm_sys \<Rightarrow> vm_sys res" where
  "unmap_heap_page kernel_end pd va s =
     bnd (get_pte pd va False (vm_mem s)) (\<lambda>(pte, _, k).
       case pte of
         None \<Rightarrow> Ok s
       | Some p \<Rightarrow>
           if pte_valid (read_pte k p)
           then Ok (s\<lparr>vm_mem := write_pte p 0 (kfree_page kernel_end (pte_page (read_pte k p)) k)\<rparr>)
           else Ok s)"

definition sbrk :: "nat \<Rightarrow> nat \<Rightarrow> int \<Rightarrow> pgdir \<Rightarrow> vm_sys \<Rightarrow> (u64 \<times> pgdir \<times> vm_sys) res" where
  "sbrk kernel_end t sz pd s =
     (case search_section (has ST_HEAP) (sections pd) of
        None \<Rightarrow> Panic
      | Some (a, st) \<Rightarrow>
          let r = st_end st;
              grow = upd_section a (\<lambda>st. st\<lparr>st_end := st_end st + of_int (sz * int PAGE_SIZE)\<rparr>)
          in if sz \<ge> 0 then Ok (r, grow pd, s)
             else
               bnd (assert (of_int (- sz) * of_nat PAGE_SIZE \<le> st_end st - st_begin st)) (\<lambda>_.
               let pd = grow pd;
                   e = st_end (the_section a pd)
               in bnd (if has ST_SWAP st then swapin t a pd s else Ok (pd, s)) (\<lambda>(pd, s).
                  bnd (mfold (unmap_heap_page kernel_end pd) (map (\<lambda>i. e + of_nat (i * PAGE_SIZE)) [0..<nat (- sz)]) s) (\<lambda>s.
                    Ok (r, pd, s)))))"

section \<open>Page faults\<close>

definition copy_page :: "nat \<Rightarrow> nat \<Rightarrow> kmem \<Rightarrow> kmem" where
  "copy_page dst src k = k\<lparr>ram := store_bytes dst (load_bytes (ram k) src PAGE_SIZE) (ram k)\<rparr>"

definition fault_page :: "nat \<Rightarrow> pgdir \<Rightarrow> u64 \<Rightarrow> kmem \<Rightarrow> (pgdir \<times> kmem) res" where
  "fault_page kernel_end pd addr k =
     bnd (get_pte pd addr True k) (\<lambda>(pte, pd, k).
     let p = the pte
     in bnd (if read_pte k p = 0
             then
               bnd (alloc_page_for_user k) (\<lambda>(new_page, k). vmmap pd addr new_page PTE_USER_DATA k)
             else if PTE_FLAGS (read_pte k p) AND PTE_RO \<noteq> 0
             then
               bnd (alloc_page_for_user k) (\<lambda>(new_page, k).
               let original_page = pte_page (read_pte k p);
                   k = copy_page new_page original_page k;
                   k = kfree_page kernel_end original_page k
               in vmmap pd addr new_page PTE_USER_DATA k)
             else Ok (pd, k)) (\<lambda>(pd, k).
        bnd (assert (PTE_FLAGS (read_pte k p) AND PTE_VALID \<noteq> 0)) (\<lambda>_. Ok (pd, k))))"

definition pgfault :: "nat \<Rightarrow> nat \<Rightarrow> u64 \<Rightarrow> pgdir \<Rightarrow> vm_sys \<Rightarrow> (pgdir \<times> vm_sys) res" where
  "pgfault kernel_end t addr pd s =
     (case search_section (\<lambda>st. st_begin st \<le> addr \<and> addr < st_end st) (sections pd) of
        None \<Rightarrow> Panic
      | Some (a, st) \<Rightarrow>
          bnd (assert (addr \<ge> st_begin st \<and> addr < st_end st)) (\<lambda>_.
          bnd (if has ST_SWAP st then swapin t a pd s else Ok (pd, s)) (\<lambda>(pd, s).
          bnd (fault_page kernel_end pd addr (vm_mem s)) (\<lambda>(pd, k). Ok (pd, s\<lparr>vm_mem := k\<rparr>)))))"

section \<open>Making and freeing sections\<close>

text \<open>\<open>old_st\<close> is what the memory that \<open>kalloc\<close> returns held before.\<close>

definition init_sections :: "vm_section \<Rightarrow> pgdir \<Rightarrow> kmem \<Rightarrow> (pgdir \<times> kmem) res" where
  "init_sections old_st pd k =
     bnd (kalloc SIZEOF_SECTION k) (\<lambda>(a, k).
       Ok (pd\<lparr>sections := (a, old_st\<lparr>st_begin := 0, st_end := 0, st_flags := 0 OR ST_HEAP, st_lock := init_sleeplock\<rparr>) # sections pd\<rparr>, k))"

definition free_mapped_page :: "nat \<Rightarrow> pgdir \<Rightarrow> u64 \<Rightarrow> vm_sys \<Rightarrow> vm_sys res" where
  "free_mapped_page kernel_end pd va s =
     bnd (get_pte pd va False (vm_mem s)) (\<lambda>(pte, _, k).
       case pte of
         None \<Rightarrow> Ok s
       | Some p \<Rightarrow>
           if pte_valid (read_pte k p)
           then Ok (s\<lparr>vm_mem := kfree_page kernel_end (pte_page (read_pte k p)) k\<rparr>) else Ok s)"

definition free_section :: "nat \<Rightarrow> nat \<Rightarrow> nat \<Rightarrow> pgdir \<times> vm_sys \<Rightarrow> (pgdir \<times> vm_sys) res" where
  "free_section kernel_end t a = (\<lambda>(pd, s).
     (let st = the_section a pd
      in bnd (if has ST_SWAP st then swapin t a pd s else Ok (pd, s)) (\<lambda>(pd, s).
         bnd (mfold (free_mapped_page kernel_end pd) (va_range (va_base (st_begin st)) (st_end st)) s) (\<lambda>s.
         bnd (case st_fp st of None \<Rightarrow> Ok s | Some f \<Rightarrow> bnd (fileclose t f (vm_files s)) (\<lambda>k. Ok (s\<lparr>vm_files := k\<rparr>))) (\<lambda>s.
         bnd (kfree kernel_end a (vm_mem s)) (\<lambda>k.
           Ok (pd\<lparr>sections := filter (\<lambda>(b, _). b \<noteq> a) (sections pd)\<rparr>, s\<lparr>vm_mem := k\<rparr>)))))))"

definition free_sections :: "nat \<Rightarrow> nat \<Rightarrow> pgdir \<Rightarrow> vm_sys \<Rightarrow> (pgdir \<times> vm_sys) res" where
  "free_sections kernel_end t pd s = mfold (free_section kernel_end t) (map fst (sections pd)) (pd, s)"

definition free_pgdir :: "nat \<Rightarrow> nat \<Rightarrow> pgdir \<Rightarrow> vm_sys \<Rightarrow> (pgdir \<times> vm_sys) res" where
  "free_pgdir kernel_end t pd s =
     (if pt pd = 0 then Ok (pd, s)
      else
        bnd (free_sections kernel_end t pd s) (\<lambda>(pd, s).
          Ok (pd\<lparr>pt := 0\<rparr>, s\<lparr>vm_mem := free_pt0 kernel_end (pt pd) (vm_mem s)\<rparr>)))"

definition copy_section :: "nat \<times> vm_section \<Rightarrow> pgdir \<times> vm_sys \<Rightarrow> (pgdir \<times> vm_sys) res" where
  "copy_section = (\<lambda>(_, st) (pd, s).
     bnd (kalloc SIZEOF_SECTION (vm_mem s)) (\<lambda>(a, k).
     let (fp, fk) = (case st_fp st of None \<Rightarrow> (None, vm_files s) | Some f \<Rightarrow> map_prod Some (\<lambda>k. k) (filedup f (vm_files s)))
     in Ok (pd\<lparr>sections := (a, st\<lparr>st_fp := fp\<rparr>) # sections pd\<rparr>, s\<lparr>vm_mem := k, vm_files := fk\<rparr>)))"

definition copy_sections :: "(nat \<times> vm_section) list \<Rightarrow> pgdir \<Rightarrow> vm_sys \<Rightarrow> (pgdir \<times> vm_sys) res" where
  "copy_sections from to s = mfold copy_section from (to, s)"

section \<open>Checks of user addresses\<close>

definition user_readable :: "pgdir \<Rightarrow> u64 \<Rightarrow> u64 \<Rightarrow> bool" where
  "user_readable pd start n \<longleftrightarrow>
     start \<ge> 0xffff000000000000 \<or>
     list_ex (\<lambda>(_, st). st_begin st \<le> start \<and> start + n < st_end st) (sections pd)"

definition user_writeable :: "pgdir \<Rightarrow> u64 \<Rightarrow> u64 \<Rightarrow> bool" where
  "user_writeable pd start n \<longleftrightarrow>
     start \<ge> 0xffff000000000000 \<or>
     list_ex (\<lambda>(_, st). \<not> has ST_RO st \<and> st_begin st \<le> start \<and> start + n < st_end st) (sections pd)"

text \<open>\<open>ld\<close> is what a load at a user address gives.\<close>

function user_strlen_loop :: "(u64 \<Rightarrow> u8) \<Rightarrow> pgdir \<Rightarrow> u64 \<Rightarrow> nat \<Rightarrow> nat \<Rightarrow> nat" where
  "user_strlen_loop ld pd str maxlen i =
     (if i < maxlen
      then if user_readable pd (str + of_nat i) 1
           then if ld (str + of_nat i) = 0 then i + 1 else user_strlen_loop ld pd str maxlen (i + 1)
           else 0
      else 0)"
  by pat_completeness auto
termination
  by (relation "measure (\<lambda>(ld, pd, str, maxlen, i). maxlen - i)") auto

declare user_strlen_loop.simps [simp del]

definition user_strlen :: "(u64 \<Rightarrow> u8) \<Rightarrow> pgdir \<Rightarrow> u64 \<Rightarrow> nat \<Rightarrow> nat" where
  "user_strlen ld pd str maxlen = user_strlen_loop ld pd str maxlen 0"

text \<open>
  A range that does not wrap is accepted exactly if it lies in one section and ends before the last byte of it. A range
  whose end wraps around to 0 is accepted whatever its length.
\<close>

lemma user_readable_exact:
  assumes "start < 0xffff000000000000" "unat start + unat n < 2 ^ 64"
  shows "user_readable pd start n \<longleftrightarrow>
    (\<exists>(a, st)\<in>set (sections pd). unat (st_begin st) \<le> unat start \<and> unat start + unat n < unat (st_end st))"
proof -
  have "unat (start + n) = unat start + unat n" using assms(2) by (simp add: unat_word_ariths)
  then show ?thesis using assms(1) by (auto simp: user_readable_def list_ex_iff word_le_nat_alt word_less_nat_alt)
qed

lemma user_readable_wraps:
  "(a, st) \<in> set (sections pd) \<Longrightarrow> st_begin st \<le> start \<Longrightarrow> 0 < st_end st \<Longrightarrow> user_readable pd start (- start)"
  by (force simp: user_readable_def list_ex_iff)

section \<open>Copy on write\<close>

lemma pt_ok_write_data:
  assumes ok: "pt_ok lo L D tab ps H k" and p: "(p, PAGE_SIZE) \<in> D" "length bs = PAGE_SIZE"
  shows "pt_ok lo L D tab ps H (k\<lparr>ram := store_bytes p bs (ram k)\<rparr>)"
    "tab is = Some q \<Longrightarrow> j < 512 \<Longrightarrow> load64 (store_bytes p bs (ram k)) (q + 8 * j) = load64 (ram k) (q + 8 * j)"
proof -
  obtain fr where rep: "mem_rep lo ps fr L H k" and T: "ptab (ram k) tab" and tH: "\<forall>p\<in>ran tab. (p, PAGE_SIZE) \<in> H"
    and D: "D \<subseteq> H" "\<forall>(p, n)\<in>D. p \<notin> ran tab" using ok by (auto simp: pt_ok_def)
  have pH: "(p, PAGE_SIZE) \<in> H" "p \<notin> ran tab" using p(1) D by auto
  have load: "load64 (store_bytes p bs (ram k)) (q + 8 * j) = load64 (ram k) (q + 8 * j)" if "tab is = Some q" "j < 512" for "is" q j
  proof -
    have "(q, PAGE_SIZE) \<in> H" "q \<noteq> p" using that(1) tH pH(2) by (auto intro: ranI)
    then have "q + PAGE_SIZE \<le> p \<or> p + PAGE_SIZE \<le> q" using held_distinct_apart [OF rep _ pH(1)] by blast
    then show ?thesis using that(2) p(2) by (intro load64_cong) (auto simp: store_bytes_def)
  qed
  then show "tab is = Some q \<Longrightarrow> j < 512 \<Longrightarrow> load64 (store_bytes p bs (ram k)) (q + 8 * j) = load64 (ram k) (q + 8 * j)" .
  have rep': "mem_rep lo ps fr L H (k\<lparr>ram := store_bytes p bs (ram k)\<rparr>)"
    using write_held_rep [of lo ps fr L p PAGE_SIZE H k p bs] rep pH(1) p(2) by (simp add: insert_absorb)
  have "case tab (is @ [j]) of None \<Rightarrow> \<not> pte_valid (load64 (store_bytes p bs (ram k)) (q + 8 * j))
      | Some r \<Rightarrow> pte_valid (load64 (store_bytes p bs (ram k)) (q + 8 * j)) \<and> pte_page (load64 (store_bytes p bs (ram k)) (q + 8 * j)) = r"
    if "tab is = Some q" "length is < 3" "j < 512" for "is" q j
    using ptabD(2,3) [OF T that] unfolding load [OF that(1,3)] by (auto split: option.splits)
  then have "ptab (store_bytes p bs (ram k)) tab" using T unfolding ptab_def by blast
  then show "pt_ok lo L D tab ps H (k\<lparr>ram := store_bytes p bs (ram k)\<rparr>)" using rep' tH D by (auto simp: pt_ok_def)
qed

lemma pte_of_cong:
  assumes "pt_ok lo L D tab ps H k" "pt_ok lo' L' D' tab ps' H' k'" "tab [] = Some (pt pd)"
    "\<And>is q j. tab is = Some q \<Longrightarrow> j < 512 \<Longrightarrow> load64 (ram k') (q + 8 * j) = load64 (ram k) (q + 8 * j)"
  shows "pte_of pd k' va = pte_of pd k va"
  unfolding pte_of_lookup [OF pt_okD(1) [OF assms(1,3)] assms(3) pt_okD(2) [OF assms(1,3)]]
    pte_of_lookup [OF pt_okD(1) [OF assms(2,3)] assms(3) pt_okD(2) [OF assms(2,3)]]
  using assms(4) VA_PART_lt(4) [of va] by (auto split: option.splits)

text \<open>Dropping one of several references to a page.\<close>

lemma drop_reference_ok:
  assumes ok: "pt_ok (PAGE_BASE e + PAGE_SIZE) L D tab ps H k" and p: "(p, PAGE_SIZE) \<in> H" "page_ref k (page_num p) \<ge> 2"
  shows "pt_ok (PAGE_BASE e + PAGE_SIZE) L D tab ps H (kfree_page e p k)" "ram (kfree_page e p k) = ram k"
    "page_ref (kfree_page e p k) = (page_ref k)(page_num p := page_ref k (page_num p) - 1)" "left_pages (kfree_page e p k) = left_pages k"
proof -
  obtain fr where rep: "mem_rep (PAGE_BASE e + PAGE_SIZE) ps fr L H k" using ok by (auto simp: pt_ok_def)
  have "in_page (PAGE_BASE e + PAGE_SIZE) (Held, p, PAGE_SIZE)" using mem_repD(13) [OF rep] p(1) by (auto simp: regions_def)
  then have lo: "\<not> p < PAGE_BASE e + PAGE_SIZE" by (simp add: in_page_def)
  have k: "kfree_page e p k = k\<lparr>alloc_page_cnt := alloc_page_cnt k - 1, page_ref := (page_ref k)(page_num p := page_ref k (page_num p) - 1)\<rparr>"
    using p(2) lo by (simp add: kfree_page_def Let_def)
  have "mem_rep (PAGE_BASE e + PAGE_SIZE) ps fr L (insert (p, PAGE_SIZE) H) k" using rep p(1) by (simp add: insert_absorb)
  from page_ref_rep [OF this, where c = "alloc_page_cnt k - 1" and v = "page_ref k (page_num p) - 1"]
  have "mem_rep (PAGE_BASE e + PAGE_SIZE) ps fr L H (kfree_page e p k)" using p(1) by (simp add: k insert_absorb)
  then show "pt_ok (PAGE_BASE e + PAGE_SIZE) L D tab ps H (kfree_page e p k)" using ok by (auto simp: pt_ok_def k)
  show "ram (kfree_page e p k) = ram k" "page_ref (kfree_page e p k) = (page_ref k)(page_num p := page_ref k (page_num p) - 1)"
    "left_pages (kfree_page e p k) = left_pages k" by (simp_all add: k)
qed

lemma user_data_flags: "PTE_FLAGS (of_nat x OR PTE_USER_DATA) AND PTE_VALID \<noteq> 0"
proof -
  have "bit PTE_USER_DATA 0" by (simp add: PTE_USER_DATA_def push_bit_numeral bit_numeral_rec)
  then have "bit (PTE_FLAGS (of_nat x OR PTE_USER_DATA) AND PTE_VALID) 0"
    unfolding PTE_FLAGS_def bit_and_iff bit_or_iff bit_pte_mask by simp
  then show ?thesis by (metis bit_0_eq bot_apply bot_bool_def)
qed

lemma read_only_flags: "PTE_FLAGS (x OR (y OR PTE_RO)) AND PTE_RO \<noteq> 0"
proof -
  have "bit PTE_RO 7" by (simp add: bit_numeral_rec)
  then have "bit (PTE_FLAGS (x OR (y OR PTE_RO)) AND PTE_RO) 7"
    unfolding PTE_FLAGS_def bit_and_iff bit_or_iff bit_pte_mask by simp
  then show ?thesis by (metis bit_0_eq bot_apply bot_bool_def)
qed

lemma next_table_present:
  assumes "ptab (ram k) tab" "tab is = Some p" "length is < 3" "i < 512" "tab (is @ [i]) = Some q"
  shows "next_table alloc p i k = Ok (Some q, k)"
  using ptabD(3) [OF assms] by (simp add: next_table_def read_pte_def)

lemma get_pte_present:
  assumes T: "ptab (ram k) tab" and t: "tab [] = Some (pt pd)" "pt pd \<noteq> 0" and q: "tab (va_path va) = Some q"
  shows "get_pte pd va alloc k = Ok (Some (q + 8 * VA_PART3 va), pd, k)"
proof -
  have "tab [VA_PART0 va, VA_PART1 va] \<noteq> None" using ptabD(5) [OF T, of "[VA_PART0 va, VA_PART1 va]" "VA_PART2 va"] q by (auto simp: va_path_def)
  then obtain p2 where p2: "tab [VA_PART0 va, VA_PART1 va] = Some p2" by auto
  then have "tab [VA_PART0 va] \<noteq> None" using ptabD(5) [OF T, of "[VA_PART0 va]" "VA_PART1 va"] by auto
  then obtain p1 where p1: "tab [VA_PART0 va] = Some p1" by auto
  note N = next_table_present [OF T]
  have "next_table alloc (pt pd) (VA_PART0 va) k = Ok (Some p1, k)" using N [OF t(1) _ VA_PART_lt(1)] p1 by simp
  moreover have "next_table alloc p1 (VA_PART1 va) k = Ok (Some p2, k)" using N [OF p1 _ VA_PART_lt(2)] p2 by simp
  moreover have "next_table alloc p2 (VA_PART2 va) k = Ok (Some q, k)" using N [OF p2 _ VA_PART_lt(3)] q by (simp add: va_path_def)
  ultimately show ?thesis using t(2) by (simp add: get_pte_def)
qed

lemma copy_fault_ok:
  assumes pt: "pt_ok (PAGE_BASE e + PAGE_SIZE) L D tab ps H k" "tab [] = Some (pt pd)" and ps: "4 \<le> length ps"
    and w: "pte_of pd k va = w" "w \<noteq> 0" "PTE_FLAGS w AND PTE_RO \<noteq> 0" "pte_page w = p"
    and p: "(p, PAGE_SIZE) \<in> D" "page_ref k (page_num p) \<ge> 2"
  shows "\<exists>n k'. fault_page e pd va k = Ok (pd, k') \<and> (n, PAGE_SIZE) \<notin> D \<and> pgdir_ok e L (insert (n, PAGE_SIZE) D) pd k' \<and>
    (\<forall>va'. pte_of pd k' va' = (if same_page va' va then of_nat (K2P n) OR PTE_USER_DATA else pte_of pd k va')) \<and>
    load_bytes (ram k') n PAGE_SIZE = load_bytes (ram k) p PAGE_SIZE \<and> (\<forall>(q, m)\<in>D. \<forall>a\<in>{q..<q + m}. ram k' a = ram k a) \<and>
    page_ref k' (page_num n) = 1 \<and> page_ref k' (page_num p) = page_ref k (page_num p) - 1"
proof -
  let ?lo = "PAGE_BASE e + PAGE_SIZE"
  note K = pt_okD [OF pt]
  have e0: "pte_of pd k va = (case tab (va_path va) of None \<Rightarrow> 0 | Some q \<Rightarrow> load64 (ram k) (q + 8 * VA_PART3 va))"
    by (rule pte_of_lookup [OF K(1) pt(2) K(2)])
  then obtain q where q: "tab (va_path va) = Some q" "load64 (ram k) (q + 8 * VA_PART3 va) = w" using w(1,2) by (cases "tab (va_path va)") auto
  let ?p = "q + 8 * VA_PART3 va"
  obtain n ps' where n: "ps = n # ps'" "3 \<le> length ps'" using ps by (cases ps) auto
  obtain k1 where k1: "kalloc_page k = Ok (n, k1)" "pt_ok ?lo L (insert (n, PAGE_SIZE) D) tab ps' (insert (n, PAGE_SIZE) H) k1" "ram k1 = ram k" "PAGE_BASE n = n"
    using take_page_ok [OF pt(1) n(1)] by blast
  have ref1: "page_ref k1 = (page_ref k)(page_num n := 0)" using k1(1) by (auto simp: kalloc_page_def Let_def bnd_assert_eq_Ok split: prod.splits)
  obtain fr where rep: "mem_rep ?lo ps fr L H k" using pt(1) by (auto simp: pt_ok_def)
  obtain fr1 where rep1: "mem_rep ?lo ps' fr1 L (insert (n, PAGE_SIZE) H) k1" using k1(2) by (auto simp: pt_ok_def)
  have nH: "(n, PAGE_SIZE) \<notin> H" using kalloc_page_rep(2) [OF rep n(1)] by blast
  then have nD: "(n, PAGE_SIZE) \<notin> D" "n \<noteq> p" using pt(1) p(1) by (auto simp: pt_ok_def)
  have pH: "(p, PAGE_SIZE) \<in> H" using p(1) pt(1) by (auto simp: pt_ok_def)
  have pn: "page_num p \<noteq> page_num n" using held_page_num [OF rep1, of p n] pH nD(2) by auto
  define k2 where "k2 = copy_page n p k1"
  have len: "length (load_bytes (ram k1) p PAGE_SIZE) = PAGE_SIZE" by simp
  note C = pt_ok_write_data [OF k1(2) insertI1 len]
  have ok2: "pt_ok ?lo L (insert (n, PAGE_SIZE) D) tab ps' (insert (n, PAGE_SIZE) H) k2" using C(1) by (simp add: k2_def copy_page_def)
  have ref2: "page_ref k2 (page_num p) \<ge> 2" using p(2) pn by (simp add: k2_def copy_page_def ref1)
  have pH2: "(p, PAGE_SIZE) \<in> insert (n, PAGE_SIZE) H" using pH by simp
  define k3 where "k3 = kfree_page e p k2"
  note F = drop_reference_ok [OF ok2 pH2 ref2, folded k3_def]
  have nin: "(PAGE_BASE n, PAGE_SIZE) \<in> insert (n, PAGE_SIZE) D" using k1(4) by simp
  obtain k' tab' ps'' H'' where v:
    "vmmap pd va n PTE_USER_DATA k3 = Ok (pd, k')" "pt_ok ?lo L (insert (n, PAGE_SIZE) D) tab' ps'' H'' k'" "tab \<subseteq>\<^sub>m tab'"
    "\<forall>va'. pte_of pd k' va' = (if same_page va' va then of_nat (K2P n) OR PTE_USER_DATA else pte_of pd k3 va')"
    "\<forall>(q, m)\<in>insert (n, PAGE_SIZE) D. \<forall>a\<in>{q..<q + m}. ram k' a = ram k3 a"
    "\<forall>q. (q, PAGE_SIZE) \<in> insert (n, PAGE_SIZE) D \<longrightarrow> page_ref k' (page_num q) = page_ref k3 (page_num q) + (if q = n then 1 else 0)"
    "length ps' \<le> length ps'' + 3"
    using vmmap_ok [OF F(1) pt(2) n(2) nin, of va PTE_USER_DATA] unfolding k1(4) by (elim exE conjE) (rule that; assumption)
  have pte3: "pte_of pd k3 va' = pte_of pd k va'" for va'
    by (rule pte_of_cong [OF pt(1) F(1) pt(2)]) (use C(2) in \<open>simp add: F(2) k2_def copy_page_def k1(3)\<close>)
  have t': "tab' [] = Some (pt pd)" by (rule map_leD [OF v(3) pt(2)])
  have "read_pte k' ?p = pte_of pd k' va"
    using pte_of_lookup [OF pt_okD(1) [OF v(2) t'] t' K(2), of va] map_leD [OF v(3) q(1)] by (simp add: read_pte_def)
  then have valid: "PTE_FLAGS (read_pte k' ?p) AND PTE_VALID \<noteq> 0" using v(4) user_data_flags by (simp add: same_page_def)
  have fault: "fault_page e pd va k = Ok (pd, k')"
    using get_pte_present [OF K(1) pt(2) K(2) q(1)] w(2-4) q(2) k1(1,3) v(1) valid
    by (simp add: fault_page_def read_pte_def alloc_page_for_user_def k3_def k2_def Let_def)
  have copy: "load_bytes (ram k') n PAGE_SIZE = load_bytes (ram k) p PAGE_SIZE"
  proof -
    have "load_bytes (ram k') n PAGE_SIZE = load_bytes (ram k3) n PAGE_SIZE" using v(5) by (auto simp: load_bytes_def)
    then show ?thesis by (simp add: F(2) k2_def copy_page_def load_store_same k1(3))
  qed
  have data: "ram k' a = ram k a" if "(r, m) \<in> D" "a \<in> {r..<r + m}" for r m a
  proof -
    have "(r, m) \<in> insert (n, PAGE_SIZE) H" "r \<noteq> n" using that(1) pt(1) nH held_size [OF rep1, of n m PAGE_SIZE] by (auto simp: pt_ok_def)
    then have "a < n \<or> n + PAGE_SIZE \<le> a" using held_distinct_apart [OF rep1, of r m n PAGE_SIZE] that(2) by auto
    then have "ram k3 a = ram k a" by (auto simp: F(2) k2_def copy_page_def store_bytes_def k1(3))
    then show ?thesis using v(5) that by auto
  qed
  have "page_ref k' (page_num n) = 1" "page_ref k' (page_num p) = page_ref k (page_num p) - 1"
    using v(6) p(1) nD(2) pn by (auto simp: F(3) k2_def copy_page_def ref1)
  moreover have "pgdir_ok e L (insert (n, PAGE_SIZE) D) pd k'" unfolding pgdir_ok_def using v(2) t' by blast
  ultimately show ?thesis using fault nD(1) v(4) copy data unfolding pte3 by blast
qed

text \<open>
  C39: a write fault on a page that is mapped read-only and shared gives the process its own copy. The
  page directory maps a new page with the same bytes, writable, no other entry changes, the old page
  keeps its content and loses one reference, and no other memory in use is written.
\<close>

theorem pgfault_copies_on_write:
  assumes ok: "pgdir_ok e L D pd (vm_mem s)" "left_pages (vm_mem s) \<ge> 4"
    and st: "find (\<lambda>(a, st). st_begin st \<le> va \<and> va < st_end st) (sections pd) = Some (a, st)" "\<not> has ST_SWAP st"
    and w: "pte_of pd (vm_mem s) va = w" "w \<noteq> 0" "PTE_FLAGS w AND PTE_RO \<noteq> 0" "pte_page w = p"
    and p: "(p, PAGE_SIZE) \<in> D" "page_ref (vm_mem s) (page_num p) \<ge> 2"
  shows "\<exists>n k'. pgfault e t va pd s = Ok (pd, s\<lparr>vm_mem := k'\<rparr>) \<and> (n, PAGE_SIZE) \<notin> D \<and>
    pgdir_ok e L (insert (n, PAGE_SIZE) D) pd k' \<and>
    (\<forall>va'. pte_of pd k' va' = (if same_page va' va then of_nat (K2P n) OR PTE_USER_DATA else pte_of pd (vm_mem s) va')) \<and>
    load_bytes (ram k') n PAGE_SIZE = load_bytes (ram (vm_mem s)) p PAGE_SIZE \<and>
    (\<forall>(q, m)\<in>D. \<forall>a\<in>{q..<q + m}. ram k' a = ram (vm_mem s) a) \<and>
    page_ref k' (page_num n) = 1 \<and> page_ref k' (page_num p) = page_ref (vm_mem s) (page_num p) - 1"
proof -
  obtain tab ps H where pt: "pt_ok (PAGE_BASE e + PAGE_SIZE) L D tab ps H (vm_mem s)" "tab [] = Some (pt pd)" using ok(1) by (auto simp: pgdir_ok_def)
  have "4 \<le> length ps" using ok(2) pt_okD(3) [OF pt] by simp
  note C = copy_fault_ok [OF pt this w p]
  have "st_begin st \<le> va \<and> va < st_end st" using st(1) by (auto simp: find_Some_iff)
  then have "pgfault e t va pd s = bnd (fault_page e pd va (vm_mem s)) (\<lambda>(pd, k). Ok (pd, s\<lparr>vm_mem := k\<rparr>))"
    using st by (simp add: pgfault_def search_section_def)
  then show ?thesis using C by fastforce
qed

text \<open>A page directory with one page mapped read-only at two places.\<close>

definition section_example :: vm_section where
  "section_example = \<lparr>st_flags = 0, st_lock = init_sleeplock, st_begin = 0x400000, st_end = 0x500000, st_fp = None, st_offset = 0, st_length = 0\<rparr>"

lemma shared_page_example:
  "\<exists>p q k. pgdir_ok (KSPACE_MASK + 0x100000) {} {(q, PAGE_SIZE)} \<lparr>pt = p, sections = [(0, section_example)], pd_online = True\<rparr> k \<and> left_pages k \<ge> 4 \<and>
     pte_of \<lparr>pt = p, sections = [(0, section_example)], pd_online = True\<rparr> k 0x400000 = of_nat (K2P q) OR (PTE_USER_DATA OR PTE_RO) \<and>
     page_ref k (page_num q) = 2 \<and> K2P q < 2 ^ 48 \<and> 4096 dvd K2P q \<and> P2K (K2P q) = q"
proof -
  let ?e = "KSPACE_MASK + 0x100000" and ?f = "PTE_USER_DATA OR PTE_RO"
  define lo where "lo = PAGE_BASE ?e + PAGE_SIZE"
  obtain ps fr where rep: "mem_rep lo ps fr {} {} boot_example" "100 \<le> length ps" using boot_example_rep unfolding lo_def by blast
  then obtain p q ps' where ps: "ps = p # q # ps'" by (cases ps rule: remdups_adj.cases) auto
  obtain k1 where k1: "pt_ok lo {} {} [[] \<mapsto> p] (q # ps') (insert (p, PAGE_SIZE) {}) k1" using init_pgdir_ok [OF rep(1) ps] by blast
  obtain k2 where k2: "kalloc_page k1 = Ok (q, k2)" "PAGE_BASE q = q"
    "pt_ok lo {} (insert (q, PAGE_SIZE) {}) [[] \<mapsto> p] ps' (insert (q, PAGE_SIZE) (insert (p, PAGE_SIZE) {})) k2"
    using take_page_ok [OF k1 refl] by blast
  let ?pd = "\<lparr>pt = p, sections = [(0, section_example)], pd_online = True\<rparr>"
  have t: "[[] \<mapsto> p] [] = Some (pt ?pd)" by simp
  define k3 where "k3 = k2\<lparr>page_ref := (page_ref k2)(page_num q := 1)\<rparr>"
  have ok3: "pt_ok lo {} {(q, PAGE_SIZE)} [[] \<mapsto> p] ps' (insert (q, PAGE_SIZE) (insert (p, PAGE_SIZE) {})) k3"
    unfolding k3_def by (rule pt_ok_page_ref [OF k2(3)]) simp
  have len: "3 \<le> length ps'" "98 \<le> length ps'" using rep(2) ps by simp_all
  have qD: "(PAGE_BASE q, PAGE_SIZE) \<in> {(q, PAGE_SIZE)}" using k2(2) by simp
  obtain k4 tab4 ps4 H4 where v: "pt_ok lo {} {(q, PAGE_SIZE)} tab4 ps4 H4 k4" "[[] \<mapsto> p] \<subseteq>\<^sub>m tab4"
    "\<forall>va'. pte_of ?pd k4 va' = (if same_page va' 0x400000 then of_nat (K2P (PAGE_BASE q)) OR ?f else pte_of ?pd k3 va')"
    "\<forall>r. (r, PAGE_SIZE) \<in> {(q, PAGE_SIZE)} \<longrightarrow> page_ref k4 (page_num r) = page_ref k3 (page_num r) + (if r = PAGE_BASE q then 1 else 0)"
    "length ps' \<le> length ps4 + 3"
    using vmmap_ok [OF ok3 t len(1) qD, of "0x400000" ?f] by (elim exE conjE) (rule that; assumption)
  have t4: "tab4 [] = Some (pt ?pd)" by (rule map_leD [OF v(2) t])
  have 1: "pgdir_ok ?e {} {(q, PAGE_SIZE)} ?pd k4" unfolding pgdir_ok_def lo_def [symmetric] using v(1) t4 by blast
  have 2: "left_pages k4 \<ge> 4" using pt_okD(3) [OF v(1) t4] v(5) len(2) by simp
  have 3: "pte_of ?pd k4 0x400000 = of_nat (K2P q) OR ?f" using v(3) k2(2) by (simp add: same_page_def)
  have 4: "page_ref k4 (page_num q) = 2" using v(4) k2(2) by (simp add: k3_def)
  obtain fr4 where "mem_rep lo ps4 fr4 {} H4 k4" "(q, PAGE_SIZE) \<in> H4" using v(1) by (auto simp: pt_ok_def)
  note h = held_page [OF this]
  show ?thesis by (intro exI conjI) (rule 1 2 3 4 h)+
qed

theorem pgfault_copies_on_write_witness:
  "\<forall>files. \<exists>p q n k k'. let pd = \<lparr>pt = p, sections = [(0, section_example)], pd_online = True\<rparr> in
     pgfault (KSPACE_MASK + 0x100000) 0 0x400000 pd \<lparr>vm_mem = k, vm_files = files\<rparr> = Ok (pd, \<lparr>vm_mem = k', vm_files = files\<rparr>) \<and>
     pte_page (pte_of pd k 0x400000) = q \<and> pte_of pd k' 0x400000 = of_nat (K2P n) OR PTE_USER_DATA \<and> n \<noteq> q \<and>
     load_bytes (ram k') n PAGE_SIZE = load_bytes (ram k) q PAGE_SIZE"
proof
  fix files
  obtain p q k where x: "pgdir_ok (KSPACE_MASK + 0x100000) {} {(q, PAGE_SIZE)} \<lparr>pt = p, sections = [(0, section_example)], pd_online = True\<rparr> k"
    "left_pages k \<ge> 4" "pte_of \<lparr>pt = p, sections = [(0, section_example)], pd_online = True\<rparr> k 0x400000 = of_nat (K2P q) OR (PTE_USER_DATA OR PTE_RO)"
    "page_ref k (page_num q) = 2" "K2P q < 2 ^ 48" "4096 dvd K2P q" "P2K (K2P q) = q"
    using shared_page_example by (elim exE conjE) (rule that; assumption)
  let ?pd = "\<lparr>pt = p, sections = [(0, section_example)], pd_online = True\<rparr>" and ?w = "of_nat (K2P q) OR (PTE_USER_DATA OR PTE_RO) :: u64"
  let ?s = "\<lparr>vm_mem = k, vm_files = files\<rparr>" and ?e = "KSPACE_MASK + 0x100000"
  have flags: "(PTE_USER_DATA OR PTE_RO) AND 0x0000FFFFFFFFF000 = 0" by (simp add: PTE_USER_DATA_def push_bit_numeral)
  have page: "pte_page ?w = q" using pte_decode(1) [OF x(5,6) flags] pte_decode(2) [OF x(5,6), of 0] x(7) by (simp add: pte_page_def)
  have ro: "PTE_FLAGS ?w AND PTE_RO \<noteq> 0" by (rule read_only_flags)
  then have nz: "?w \<noteq> 0" by (auto simp: PTE_FLAGS_def)
  have st: "find (\<lambda>(a, st). st_begin st \<le> 0x400000 \<and> 0x400000 < st_end st) (sections ?pd) = Some (0, section_example)" "\<not> has ST_SWAP section_example"
    by (simp_all add: section_example_def has_def)
  have v: "pgdir_ok ?e {} {(q, PAGE_SIZE)} ?pd (vm_mem ?s)" "left_pages (vm_mem ?s) \<ge> 4" "pte_of ?pd (vm_mem ?s) 0x400000 = ?w"
    "page_ref (vm_mem ?s) (page_num q) \<ge> 2" using x(1-4) by simp_all
  have qin: "(q, PAGE_SIZE) \<in> {(q, PAGE_SIZE)}" by simp
  obtain n k' where f: "pgfault ?e 0 0x400000 ?pd ?s = Ok (?pd, ?s\<lparr>vm_mem := k'\<rparr>)" "(n, PAGE_SIZE) \<notin> {(q, PAGE_SIZE)}"
    "\<forall>va'. pte_of ?pd k' va' = (if same_page va' 0x400000 then of_nat (K2P n) OR PTE_USER_DATA else pte_of ?pd (vm_mem ?s) va')"
    "load_bytes (ram k') n PAGE_SIZE = load_bytes (ram (vm_mem ?s)) q PAGE_SIZE"
    using pgfault_copies_on_write [OF v(1,2) st v(3) nz ro page qin v(4), of 0] by (elim exE conjE) (rule that; assumption)
  have f3: "pte_of ?pd k' 0x400000 = of_nat (K2P n) OR PTE_USER_DATA" using f(3) by (simp add: same_page_def)
  show "\<exists>p q n k k'. let pd = \<lparr>pt = p, sections = [(0, section_example)], pd_online = True\<rparr> in
     pgfault (KSPACE_MASK + 0x100000) 0 0x400000 pd \<lparr>vm_mem = k, vm_files = files\<rparr> = Ok (pd, \<lparr>vm_mem = k', vm_files = files\<rparr>) \<and>
     pte_page (pte_of pd k 0x400000) = q \<and> pte_of pd k' 0x400000 = of_nat (K2P n) OR PTE_USER_DATA \<and> n \<noteq> q \<and>
     load_bytes (ram k') n PAGE_SIZE = load_bytes (ram k) q PAGE_SIZE"
    using page x(3) f(1,2,4) f3
    by (intro exI [of _ p] exI [of _ q] exI [of _ n] exI [of _ k] exI [of _ k']) simp
qed

end
