(* ===== verification/Sched.thy ===== *)
theory Sched
  imports Cpu Paging Pidmap
begin

text \<open>
  The scheduler (\<open>kernel/sched.c\<close>, \<open>kernel/schinfo.h\<close>): every container has a run queue, a red-black
  tree ordered by virtual run time, that holds processes and the containers below it. A process or a
  container is named by its address, and a pointer to the \<open>node\<close> or the \<open>schinfo\<close> in it by the same
  number, so that \<open>container_of\<close> is the identity. What happens under \<open>sched_lock\<close> is one step; the lock is handed over by the switch.
\<close>

section \<open>State\<close>

datatype procstate = UNUSED | RUNNABLE | RUNNING | SLEEPING | DEEPSLEEPING | ZOMBIE

record schinfo =
  vruntime :: u64
  starttime :: u64
  prio :: int
  weight :: int
  is_container :: bool

record cfs_rq =
  weight_sum :: u32
  nr_running :: u32
  rq_root :: u64

record UserContext =
  uc_q0 :: "u64 list"
  uc_spsr :: u64
  uc_elr :: u64
  uc_sp :: u64
  uc_tpidr0 :: u64
  uc_reserved :: "u64 list"

record KernelContext =
  kc_lr :: u64
  kc_x0 :: u64
  kc_x1 :: u64
  kc_reserved :: "u64 list"

text \<open>
  The children are kept in the order of the list that hangs from \<open>children\<close>; the contexts are those
  \<open>ucontext\<close> and \<open>kcontext\<close> point to.
\<close>

record proc =
  p_killed :: bool
  p_idle :: bool
  p_pid :: int
  p_localpid :: int
  p_exitcode :: int
  p_state :: procstate
  p_childexit :: Semaphore
  p_children :: "u64 list"
  p_parent :: u64
  p_pgdir :: pgdir
  p_container :: u64
  p_kstack :: nat
  p_ucontext :: UserContext
  p_kcontext :: KernelContext
  p_oftable :: oftable
  p_cwd :: "nat option"

record cont =
  c_parent :: u64
  c_rootproc :: u64
  c_rq :: cfs_rq
  c_pidmap :: pidmap

text \<open>\<open>root_container\<close>, \<open>proc_timer\<close>, \<open>proc_timer_handle_addr\<close> and \<open>invalid_pt\<close> are addresses of statics and code.\<close>

record sched_sys = cpu_sys +
  info :: "u64 \<Rightarrow> schinfo"
  sch_nodes :: "u64 \<Rightarrow> rb_node_"
  procs :: "u64 \<Rightarrow> proc"
  conts :: "u64 \<Rightarrow> cont"
  cur_proc :: "nat \<Rightarrow> u64"
  idle_proc :: "nat \<Rightarrow> u64"
  panic_flag :: bool
  vm :: vm_sys
  root_container :: u64
  proc_timer :: "nat \<Rightarrow> u64"
  proc_timer_handle_addr :: u64
  invalid_pt :: nat

definition upd_info :: "u64 \<Rightarrow> (schinfo \<Rightarrow> schinfo) \<Rightarrow> 'a sched_sys_scheme \<Rightarrow> 'a sched_sys_scheme" where
  "upd_info a f s = s\<lparr>info := (info s)(a := f (info s a))\<rparr>"

definition upd_proc :: "u64 \<Rightarrow> (proc \<Rightarrow> proc) \<Rightarrow> 'a sched_sys_scheme \<Rightarrow> 'a sched_sys_scheme" where
  "upd_proc p f s = s\<lparr>procs := (procs s)(p := f (procs s p))\<rparr>"

definition upd_rq :: "u64 \<Rightarrow> (cfs_rq \<Rightarrow> cfs_rq) \<Rightarrow> 'a sched_sys_scheme \<Rightarrow> 'a sched_sys_scheme" where
  "upd_rq c f s = s\<lparr>conts := (conts s)(c := (conts s c)\<lparr>c_rq := f (c_rq (conts s c))\<rparr>)\<rparr>"

definition rq :: "u64 \<Rightarrow> 'a sched_sys_scheme \<Rightarrow> cfs_rq" where
  "rq c s = c_rq (conts s c)"

definition rq_tree :: "u64 \<Rightarrow> 'a sched_sys_scheme \<Rightarrow> rb_tree" where
  "rq_tree c s = \<lparr>rb_nodes = sch_nodes s, rb_root = rq_root (rq c s)\<rparr>"

definition put_rq_tree :: "u64 \<Rightarrow> rb_tree \<Rightarrow> 'a sched_sys_scheme \<Rightarrow> 'a sched_sys_scheme" where
  "put_rq_tree c h s = upd_rq c (\<lambda>q. q\<lparr>rq_root := rb_root h\<rparr>) (s\<lparr>sch_nodes := rb_nodes h\<rparr>)"

section \<open>Weights and order\<close>

definition prio_to_weight :: "int list" where
  "prio_to_weight =
    [88761, 71755, 56483, 46273, 36291,
     29154, 23254, 18705, 14949, 11916,
     9548, 7620, 6100, 4904, 3906,
     3121, 2501, 1991, 1586, 1277,
     1024, 820, 655, 526, 423,
     335, 272, 215, 172, 137,
     110, 87, 70, 56, 45,
     36, 29, 23, 18, 15]"

definition cfs_cmp :: "'a sched_sys_scheme \<Rightarrow> u64 \<Rightarrow> u64 \<Rightarrow> bool" where
  "cfs_cmp s l r =
     (if vruntime (info s l) = vruntime (info s r)
      then if prio (info s l) = prio (info s r) then l < r else prio (info s l) < prio (info s r)
      else vruntime (info s l) < vruntime (info s r))"

text \<open>\<open>memset\<close> or the image has cleared the root pointer.\<close>

definition init_schqueue :: "cfs_rq \<Rightarrow> cfs_rq" where
  "init_schqueue q = q\<lparr>nr_running := 0, weight_sum := 0\<rparr>"

abbreviation sched_min_granularity :: u64 where "sched_min_granularity \<equiv> 1"
abbreviation sched_latency :: u64 where "sched_latency \<equiv> 6"

definition init_schinfo :: "bool \<Rightarrow> schinfo \<Rightarrow> schinfo" where
  "init_schinfo grp p = p\<lparr>prio := 21, weight := prio_to_weight ! 21, vruntime := 0, starttime := 0, is_container := grp\<rparr>"

definition thisproc :: "nat \<Rightarrow> 'a sched_sys_scheme \<Rightarrow> u64" where
  "thisproc cpu s = cur_proc s cpu"

definition get_minvruntime :: "nat \<Rightarrow> u64 \<Rightarrow> 'a sched_sys_scheme \<Rightarrow> u64 option" where
  "get_minvruntime cpu c s =
     map_option (\<lambda>node. if node = 0 then vruntime (info s (thisproc cpu s)) else vruntime (info s node))
       (rb_first (rq_tree c s))"

definition get_sched_latency :: "u64 \<Rightarrow> 'a sched_sys_scheme \<Rightarrow> u64" where
  "get_sched_latency c s = max sched_latency (sched_min_granularity * ucast (nr_running (rq c s)))"

definition is_zombie :: "u64 \<Rightarrow> 'a sched_sys_scheme \<Rightarrow> bool" where
  "is_zombie p s \<longleftrightarrow> p_state (procs s p) = ZOMBIE"

definition is_unused :: "u64 \<Rightarrow> 'a sched_sys_scheme \<Rightarrow> bool" where
  "is_unused p s \<longleftrightarrow> p_state (procs s p) = UNUSED"

abbreviation NCPU :: nat where "NCPU \<equiv> 4"
abbreviation SIZEOF_PROC :: nat where "SIZEOF_PROC \<equiv> 1248"

definition new_struct :: "nat \<Rightarrow> 'a sched_sys_scheme \<Rightarrow> (u64 \<times> 'a sched_sys_scheme) res" where
  "new_struct n s = bnd (kalloc n (vm_mem (vm s))) (\<lambda>(a, k). Ok (of_nat a, s\<lparr>vm := (vm s)\<lparr>vm_mem := k\<rparr>\<rparr>))"

definition init_scheduler :: "'a sched_sys_scheme \<Rightarrow> 'a sched_sys_scheme res" where
  "init_scheduler s =
     mfold (\<lambda>i s.
       bnd (new_struct SIZEOF_PROC s) (\<lambda>(new_idle, s).
       let s = upd_proc new_idle (\<lambda>p. p\<lparr>p_killed := False, p_pid := -1, p_idle := True, p_state := RUNNING\<rparr>) s;
           s = upd_info new_idle (\<lambda>x. x\<lparr>vruntime := 0, prio := 39, weight := prio_to_weight ! 39\<rparr>) s
       in Ok (s\<lparr>idle_proc := (idle_proc s)(i := new_idle), cur_proc := (cur_proc s)(i := new_idle)\<rparr>))) [0..<NCPU] s"

section \<open>Waking up\<close>

definition enqueue :: "u64 \<Rightarrow> u64 \<Rightarrow> 'a sched_sys_scheme \<Rightarrow> 'a sched_sys_scheme res option" where
  "enqueue a c s =
     obnd (runs (rb_insert (cfs_cmp s) a (rq_tree c s))) (\<lambda>(r, h).
       obnd (Some (assert (r = 0))) (\<lambda>_. ret (put_rq_tree c h s)))"

definition dequeue :: "u64 \<Rightarrow> u64 \<Rightarrow> 'a sched_sys_scheme \<Rightarrow> 'a sched_sys_scheme res option" where
  "dequeue a c s = obnd (runs (rb_erase a (rq_tree c s))) (\<lambda>h. ret (put_rq_tree c h s))"

partial_function (option) activate_up :: "nat \<Rightarrow> u64 \<Rightarrow> 'a sched_sys_scheme \<Rightarrow> 'a sched_sys_scheme res option" where
  "activate_up cpu c s =
     (if c \<noteq> root_container s \<and> nr_running (rq c s) = 1
      then
        let parent = c_parent (conts s c)
        in obnd (runs (get_minvruntime cpu parent s)) (\<lambda>v.
           let s = upd_info c (\<lambda>x. x\<lparr>vruntime := max (vruntime x) v\<rparr>) s
           in obnd (enqueue c parent s) (\<lambda>s.
              let s = upd_rq parent (\<lambda>q. q\<lparr>nr_running := nr_running q + 1\<rparr>) s;
                  s = upd_rq parent (\<lambda>q. q\<lparr>weight_sum := weight_sum q + of_int (weight (info s c))\<rparr>) s
              in activate_up cpu parent s))
      else ret s)"

definition activate_proc' :: "nat \<Rightarrow> u64 \<Rightarrow> bool \<Rightarrow> 'a sched_sys_scheme \<Rightarrow> (bool \<times> 'a sched_sys_scheme) res option" where
  "activate_proc' cpu p onalert s =
     (let st = p_state (procs s p)
      in if st = RUNNING \<or> st = RUNNABLE \<or> (st = DEEPSLEEPING \<and> onalert) then ret (False, s)
         else if st = SLEEPING \<or> st = UNUSED \<or> (st = DEEPSLEEPING \<and> \<not> onalert)
         then
           let c = p_container (procs s p);
               s = upd_proc p (\<lambda>x. x\<lparr>p_state := RUNNABLE\<rparr>) s
           in obnd (runs (get_minvruntime cpu c s)) (\<lambda>v.
              let delta = max (vruntime (info s p)) v - vruntime (info s p);
                  s = upd_info p (\<lambda>x. x\<lparr>vruntime := vruntime x + delta\<rparr>) s
              in obnd (enqueue p c s) (\<lambda>s.
                 let s = upd_rq c (\<lambda>q. q\<lparr>weight_sum := weight_sum q + of_int (weight (info s p)), nr_running := nr_running q + 1\<rparr>) s
                 in obnd (activate_up cpu c s) (\<lambda>s. ret (True, s))))
         else ret (False, s))"

definition activate_group :: "nat \<Rightarrow> u64 \<Rightarrow> 'a sched_sys_scheme \<Rightarrow> 'a sched_sys_scheme res option" where
  "activate_group cpu g s =
     obnd (runs (get_minvruntime cpu (c_parent (conts s g)) s)) (\<lambda>v.
       ret (upd_info g (\<lambda>x. x\<lparr>vruntime := max (vruntime x) v\<rparr>) s))"

section \<open>Giving up the core\<close>

partial_function (option) charge_up :: "u64 \<Rightarrow> u64 \<Rightarrow> 'a sched_sys_scheme \<Rightarrow> 'a sched_sys_scheme res option" where
  "charge_up delta c s =
     (if c \<noteq> root_container s
      then
        let s = upd_info c (\<lambda>x. x\<lparr>vruntime := vruntime x + delta\<rparr>) s;
            parent = c_parent (conts s c)
        in obnd (dequeue c parent s) (\<lambda>s. obnd (enqueue c parent s) (charge_up delta parent))
      else ret s)"

partial_function (option) retire_up :: "u64 \<Rightarrow> 'a sched_sys_scheme \<Rightarrow> 'a sched_sys_scheme res option" where
  "retire_up c s =
     (if c \<noteq> root_container s \<and> nr_running (rq c s) = 0
      then
        let parent = c_parent (conts s c)
        in obnd (dequeue c parent s) (\<lambda>s.
           let s = upd_rq parent (\<lambda>q. q\<lparr>nr_running := nr_running q - 1\<rparr>) s;
               s = upd_rq parent (\<lambda>q. q\<lparr>weight_sum := weight_sum q - of_int (weight (info s c))\<rparr>) s
           in retire_up parent s)
      else ret s)"

definition update_this_state :: "nat \<Rightarrow> procstate \<Rightarrow> 'a sched_sys_scheme \<Rightarrow> 'a sched_sys_scheme res option" where
  "update_this_state cpu new_state s =
     (let cp = thisproc cpu s;
          s = upd_proc cp (\<lambda>x. x\<lparr>p_state := new_state\<rparr>) s
      in if p_idle (procs s cp)
         then ret (upd_info cp (\<lambda>x. x\<lparr>vruntime := vruntime x + sched_min_granularity\<rparr>) s)
         else
           let (now, s) = get_timestamp_ms s;
               delta = (now - starttime (info s cp)) * of_int (prio_to_weight ! 21) div of_int (weight (info s cp));
               s = upd_info cp (\<lambda>x. x\<lparr>vruntime := vruntime x + delta\<rparr>) s;
               c = p_container (procs s cp)
           in obnd (charge_up delta c s) (\<lambda>s.
              if new_state = RUNNABLE then enqueue cp c s
              else
                retire_up c (upd_rq c (\<lambda>q. q\<lparr>weight_sum := weight_sum q - of_int (weight (info s cp)), nr_running := nr_running q - 1\<rparr>) s)))"

text \<open>The process with the least virtual run time, taken off its queue; 0 when the queue is empty.\<close>

partial_function (option) recur_get_proc :: "u64 \<Rightarrow> 'a sched_sys_scheme \<Rightarrow> (u64 \<times> 'a sched_sys_scheme) res option" where
  "recur_get_proc c s =
     obnd (runs (rb_first (rq_tree c s))) (\<lambda>node.
       if node = 0 then ret (0, s)
       else if is_container (info s node) then recur_get_proc node s
       else obnd (dequeue node c s) (\<lambda>s. ret (node, s)))"

definition pick_next :: "nat \<Rightarrow> 'a sched_sys_scheme \<Rightarrow> (u64 \<times> 'a sched_sys_scheme) res option" where
  "pick_next cpu s =
     (if panic_flag s then ret (idle_proc s cpu, s)
      else obnd (recur_get_proc (root_container s) s) (\<lambda>(p, s).
        if p \<noteq> 0 then ret (p, s) else ret (idle_proc s cpu, s)))"

definition update_this_proc :: "nat \<Rightarrow> u64 \<Rightarrow> 'a sched_sys_scheme \<Rightarrow> 'a sched_sys_scheme res option" where
  "update_this_proc cpu p s =
     (let s = s\<lparr>cur_proc := (cur_proc s)(cpu := p)\<rparr>;
          t = proc_timer s cpu
      in obnd (if timer_data (timer_mem s t) \<noteq> 0
               then obnd (cancel_cpu_timer cpu t s) (\<lambda>s. ret (upd_timer t (\<lambda>x. x\<lparr>timer_data := 0\<rparr>) s))
               else ret s) (\<lambda>s.
         let c = p_container (procs s p);
             e = (if p_idle (procs s p) then sched_min_granularity
                  else max sched_min_granularity (get_sched_latency c s * of_int (weight (info s p)) div ucast (weight_sum (rq c s))));
             s = upd_timer t (\<lambda>x. x\<lparr>elapse := ucast e, handler := proc_timer_handle_addr s\<rparr>) s
         in obnd (set_cpu_timer cpu t s) (\<lambda>s. ret (upd_timer t (\<lambda>x. x\<lparr>timer_data := 1\<rparr>) s))))"

definition switch_pgdir :: "nat \<Rightarrow> u64 \<Rightarrow> 'a sched_sys_scheme \<Rightarrow> 'a sched_sys_scheme res option" where
  "switch_pgdir cpu p s =
     obnd (Some (attach_pgdir (invalid_pt s) (p_pgdir (procs s p)) (ttbr0 s cpu) (vm_mem (vm s)))) (\<lambda>(r, pd, k).
       ret (upd_proc p (\<lambda>x. x\<lparr>p_pgdir := pd\<rparr>) (s\<lparr>ttbr0 := (ttbr0 s)(cpu := r), vm := (vm s)\<lparr>vm_mem := k\<rparr>\<rparr>)))"

text \<open>Up to the switch to the context of the chosen process, which is then \<open>cur_proc\<close>.\<close>

definition simple_sched :: "nat \<Rightarrow> procstate \<Rightarrow> 'a sched_sys_scheme \<Rightarrow> 'a sched_sys_scheme res option" where
  "simple_sched cpu new_state s =
     (let this = thisproc cpu s
      in if p_killed (procs s this) \<and> new_state \<noteq> ZOMBIE then ret s
         else
           obnd (Some (assert (p_state (procs s this) = RUNNING))) (\<lambda>_.
           obnd (update_this_state cpu new_state s) (\<lambda>s.
           obnd (pick_next cpu s) (\<lambda>(nxt, s).
           obnd (update_this_proc cpu nxt s) (\<lambda>s.
           obnd (Some (assert (p_state (procs s nxt) = RUNNABLE))) (\<lambda>_.
           let s = upd_proc nxt (\<lambda>x. x\<lparr>p_state := RUNNING\<rparr>) s;
               (now, s) = get_timestamp_ms s;
               s = upd_info nxt (\<lambda>x. x\<lparr>starttime := now\<rparr>) s
           in if nxt \<noteq> this then switch_pgdir cpu nxt s else ret s))))))"

definition proc_timer_handle :: "nat \<Rightarrow> 'a sched_sys_scheme \<Rightarrow> 'a sched_sys_scheme res option" where
  "proc_timer_handle cpu s = simple_sched cpu RUNNABLE (upd_timer (proc_timer s cpu) (\<lambda>x. x\<lparr>timer_data := 0\<rparr>) s)"

section \<open>The run queue\<close>

text \<open>The run queue of a container: the entries in the order of \<open>cfs_cmp\<close>.\<close>

definition queue_ok :: "u64 \<Rightarrow> 'a sched_sys_scheme \<Rightarrow> u64 list \<Rightarrow> bool" where
  "queue_ok c s xs \<longleftrightarrow> rb_list (rq_tree c s) xs \<and> sorted_wrt (cfs_cmp s) xs"

lemma cfs_trans: "cfs_cmp s a b \<Longrightarrow> cfs_cmp s b c \<Longrightarrow> cfs_cmp s a c"
  by (auto simp: cfs_cmp_def split: if_splits)

lemma cfs_total: "a \<noteq> b \<Longrightarrow> cfs_cmp s a b \<or> cfs_cmp s b a"
  by (auto simp: cfs_cmp_def)

lemma cfs_le: "cfs_cmp s a b \<Longrightarrow> vruntime (info s a) \<le> vruntime (info s b)"
  by (auto simp: cfs_cmp_def split: if_splits)

lemma cfs_cong: "info s' = info s \<Longrightarrow> cfs_cmp s' = cfs_cmp s"
  by (simp add: cfs_cmp_def fun_eq_iff)

lemma sched_fields [simp]:
  "info (put_rq_tree c h s) = info s" "procs (put_rq_tree c h s) = procs s" "rq_tree c (put_rq_tree c h s) = h"
  "root_container (put_rq_tree c h s) = root_container s" "panic_flag (put_rq_tree c h s) = panic_flag s"
  "nr_running (rq c (put_rq_tree c h s)) = nr_running (rq c s)" "weight_sum (rq c (put_rq_tree c h s)) = weight_sum (rq c s)"
  "info (upd_proc p f s) = info s" "rq_tree c (upd_proc p f s) = rq_tree c s" "rq c (upd_proc p f s) = rq c s"
  "root_container (upd_proc p f s) = root_container s" "panic_flag (upd_proc p f s) = panic_flag s"
  "cur_proc (upd_proc p f s) = cur_proc s"
  "procs (upd_info p g s) = procs s" "rq_tree c (upd_info p g s) = rq_tree c s" "rq c (upd_info p g s) = rq c s"
  "root_container (upd_info p g s) = root_container s" "panic_flag (upd_info p g s) = panic_flag s"
  "info (upd_rq c k s) = info s" "procs (upd_rq c k s) = procs s" "rq c (upd_rq c k s) = k (rq c s)"
  "root_container (upd_rq c k s) = root_container s" "panic_flag (upd_rq c k s) = panic_flag s"
  by (simp_all add: put_rq_tree_def upd_rq_def upd_proc_def upd_info_def rq_tree_def rq_def)

lemma rq_tree_upd: "(\<And>q. rq_root (k q) = rq_root q) \<Longrightarrow> rq_tree c (upd_rq c k s) = rq_tree c s"
  by (simp add: rq_tree_def rq_def upd_rq_def)

lemma enqueue_ok:
  assumes q: "queue_ok c s xs" and a: "addr_ok a" "a \<notin> set xs"
  shows "\<exists>h ys. enqueue a c s = Some (Ok (put_rq_tree c h s)) \<and> queue_ok c (put_rq_tree c h s) ys \<and> set ys = insert a (set xs)"
proof -
  have l: "rb_list (rq_tree c s) xs" "sorted_wrt (cfs_cmp s) xs" using q by (simp_all add: queue_ok_def)
  have t: "\<forall>x\<in>insert a (set xs). \<forall>y\<in>insert a (set xs). \<forall>z\<in>insert a (set xs). cfs_cmp s x y \<longrightarrow> cfs_cmp s y z \<longrightarrow> cfs_cmp s x z"
    by (intro ballI impI) (rule cfs_trans)
  have o: "\<forall>x\<in>set xs. cfs_cmp s a x \<or> cfs_cmp s x a" using a(2) by (intro ballI cfs_total) auto
  obtain h ys where h: "rb_insert (cfs_cmp s) a (rq_tree c s) = Some (0, h)" "rb_list h ys" "sorted_wrt (cfs_cmp s) ys"
    "set ys = insert a (set xs)"
    using rb.add_law [OF l(1) a l(2) t o] by blast
  then have "enqueue a c s = Some (Ok (put_rq_tree c h s))" by (simp add: enqueue_def ret_def)
  moreover have "queue_ok c (put_rq_tree c h s) ys" using h(2,3) cfs_cong [of "put_rq_tree c h s" s] by (simp add: queue_ok_def)
  ultimately show ?thesis using h(4) by blast
qed

lemma dequeue_ok:
  assumes "queue_ok c s (x # xs)"
  shows "\<exists>h. dequeue x c s = Some (Ok (put_rq_tree c h s)) \<and> queue_ok c (put_rq_tree c h s) xs"
proof -
  obtain h where h: "rb_erase x (rq_tree c s) = Some h" "rb_list h xs"
    using rb.del_law [of "rq_tree c s" "x # xs" x] assms by (auto simp: queue_ok_def)
  then have "dequeue x c s = Some (Ok (put_rq_tree c h s))" by (simp add: dequeue_def ret_def)
  moreover have "queue_ok c (put_rq_tree c h s) xs"
    using h(2) assms cfs_cong [of "put_rq_tree c h s" s] by (simp add: queue_ok_def)
  ultimately show ?thesis by blast
qed

lemma queue_first:
  assumes "queue_ok c s xs"
  shows "rb_first (rq_tree c s) = Some (if xs = [] then 0 else hd xs)" "0 \<notin> set xs" "distinct xs"
  using rb.least_law [of "rq_tree c s" xs] rb.names_law [of "rq_tree c s" xs] assms by (auto simp: queue_ok_def)

text \<open>Picking follows the least entry of each container down to a process.\<close>

inductive picks :: "'a sched_sys_scheme \<Rightarrow> u64 \<Rightarrow> u64 \<Rightarrow> u64 \<Rightarrow> u64 list \<Rightarrow> bool" where
  picks_proc: "queue_ok c s (p # xs) \<Longrightarrow> \<not> is_container (info s p) \<Longrightarrow> picks s c p c xs"
| picks_cont: "queue_ok c s (d # xs) \<Longrightarrow> is_container (info s d) \<Longrightarrow> picks s d p c' ys \<Longrightarrow> picks s c p c' ys"

lemma recur_get_proc_picks:
  "picks s c p c' ys \<Longrightarrow> \<exists>h. recur_get_proc c s = Some (Ok (p, put_rq_tree c' h s)) \<and> queue_ok c' (put_rq_tree c' h s) ys \<and>
     (\<forall>y\<in>set ys. cfs_cmp s p y) \<and> p \<noteq> 0"
proof (induction rule: picks.induct)
  case (picks_proc c s p xs)
  obtain h where h: "dequeue p c s = Some (Ok (put_rq_tree c h s))" "queue_ok c (put_rq_tree c h s) xs"
    using dequeue_ok [OF picks_proc(1)] by blast
  have "p \<noteq> 0" using queue_first(2) [OF picks_proc(1)] by auto
  moreover have "\<forall>y\<in>set xs. cfs_cmp s p y" using picks_proc(1) by (simp add: queue_ok_def)
  ultimately show ?case using h queue_first(1) [OF picks_proc(1)] picks_proc(2)
    by (intro exI [of _ h]) (subst recur_get_proc.simps, simp add: ret_def)
next
  case (picks_cont c s d xs p c' ys)
  have "d \<noteq> 0" using queue_first(2) [OF picks_cont(1)] by auto
  then have "recur_get_proc c s = recur_get_proc d s"
    using queue_first(1) [OF picks_cont(1)] picks_cont(2) by (subst recur_get_proc.simps) simp
  then show ?case using picks_cont(4) by simp
qed

lemma pick_next_picks:
  assumes "\<not> panic_flag s" "picks s (root_container s) p c ys"
  shows "\<exists>h. pick_next cpu s = Some (Ok (p, put_rq_tree c h s)) \<and> queue_ok c (put_rq_tree c h s) ys \<and>
    (\<forall>y\<in>set ys. vruntime (info s p) \<le> vruntime (info s y))"
  using recur_get_proc_picks [OF assms(2)] assms(1) cfs_le by (fastforce simp: pick_next_def ret_def)

lemma pick_next_idle:
  assumes "queue_ok (root_container s) s []" shows "pick_next cpu s = Some (Ok (idle_proc s cpu, s))"
  using queue_first(1) [OF assms] by (subst pick_next_def, subst recur_get_proc.simps) (simp add: ret_def)

text \<open>What \<open>_activate_proc\<close> wakes.\<close>

definition wakes :: "procstate \<Rightarrow> bool \<Rightarrow> bool" where
  "wakes st onalert \<longleftrightarrow> st = SLEEPING \<or> st = UNUSED \<or> (st = DEEPSLEEPING \<and> \<not> onalert)"

definition min_vruntime :: "nat \<Rightarrow> u64 list \<Rightarrow> 'a sched_sys_scheme \<Rightarrow> u64" where
  "min_vruntime cpu xs s = vruntime (info s (if xs = [] then thisproc cpu s else hd xs))"

lemma activate_proc_ok:
  assumes q: "queue_ok (root_container s) s xs" and p: "addr_ok p" "p \<notin> set xs" "p_container (procs s p) = root_container s"
    and w: "wakes (p_state (procs s p)) onalert"
  defines "c \<equiv> root_container s"
  shows "\<exists>s' ys. activate_proc' cpu p onalert s = Some (Ok (True, s')) \<and> queue_ok c s' ys \<and> set ys = insert p (set xs) \<and>
    root_container s' = c \<and> panic_flag s' = panic_flag s \<and> procs s' = (procs s)(p := (procs s p)\<lparr>p_state := RUNNABLE\<rparr>) \<and>
    info s' = (info s)(p := (info s p)\<lparr>vruntime := max (vruntime (info s p)) (min_vruntime cpu xs s)\<rparr>) \<and>
    nr_running (rq c s') = nr_running (rq c s) + 1 \<and> weight_sum (rq c s') = weight_sum (rq c s) + of_int (weight (info s p))"
proof -
  define s1 where "s1 = upd_proc p (\<lambda>x. x\<lparr>p_state := RUNNABLE\<rparr>) s"
  define v where "v = min_vruntime cpu xs s"
  have q1: "queue_ok c s1 xs" using q cfs_cong [of s1 s] by (simp add: queue_ok_def s1_def c_def)
  have "get_minvruntime cpu c s1 = Some v"
    using queue_first(1,2) [OF q1] by (cases xs) (auto simp: get_minvruntime_def v_def min_vruntime_def s1_def thisproc_def)
  note min = this
  define s2 where "s2 = upd_info p (\<lambda>x. x\<lparr>vruntime := vruntime x + (max (vruntime (info s p)) v - vruntime (info s p))\<rparr>) s1"
  have i2: "info s2 = (info s)(p := (info s p)\<lparr>vruntime := max (vruntime (info s p)) v\<rparr>)" by (simp add: s2_def s1_def upd_info_def)
  have "sorted_wrt (cfs_cmp s2) xs"
    by (rule sorted_wrt_mono_rel [of xs "cfs_cmp s"]) (use q p(2) in \<open>auto simp: queue_ok_def cfs_cmp_def i2\<close>)
  then have q2: "queue_ok c s2 xs" using q1 by (simp add: queue_ok_def s2_def)
  obtain h ys where h: "enqueue p c s2 = Some (Ok (put_rq_tree c h s2))" "queue_ok c (put_rq_tree c h s2) ys" "set ys = insert p (set xs)"
    using enqueue_ok [OF q2 p(1,2)] by blast
  define s' where "s' = upd_rq c (\<lambda>q. q\<lparr>weight_sum := weight_sum q + of_int (weight (info (put_rq_tree c h s2) p)), nr_running := nr_running q + 1\<rparr>)
    (put_rq_tree c h s2)"
  have r: "root_container s' = c" by (simp add: s'_def s2_def s1_def c_def)
  have up: "activate_up cpu c s' = Some (Ok s')" using r by (subst activate_up.simps) (simp add: ret_def)
  have "activate_proc' cpu p onalert s = Some (Ok (True, s'))"
    using w p(3) min h(1) up
    by (auto simp: activate_proc'_def wakes_def Let_def ret_def c_def s'_def s2_def s1_def)
  moreover have "rq_tree c s' = h" unfolding s'_def by (subst rq_tree_upd) simp_all
  then have "queue_ok c s' ys" using h(2) cfs_cong [of s' "put_rq_tree c h s2"] by (simp add: queue_ok_def) (simp add: s'_def)
  moreover have "nr_running (rq c s') = nr_running (rq c s) + 1" "weight_sum (rq c s') = weight_sum (rq c s) + of_int (weight (info s p))"
    by (simp_all add: s'_def i2) (simp_all add: s2_def s1_def)
  moreover have "info s' = info s2" "procs s' = (procs s)(p := (procs s p)\<lparr>p_state := RUNNABLE\<rparr>)" "panic_flag s' = panic_flag s"
    by (simp_all add: s'_def) (simp_all add: s2_def s1_def upd_proc_def upd_info_def)
  ultimately show ?thesis using h(3) r i2 v_def by auto
qed


text \<open>A root container at address 100 whose queue holds the process 16; process 8 sleeps.\<close>

definition sched_example :: "sched_sys \<Rightarrow> sched_sys" where
  "sched_example s = s\<lparr>sch_nodes := rb_nodes (one_node 16), root_container := 100, panic_flag := False,
     conts := (conts s)(100 := (conts s 100)\<lparr>c_rq := \<lparr>weight_sum = 1277, nr_running = 1, rq_root = 16\<rparr>\<rparr>),
     info := (\<lambda>_. \<lparr>vruntime = 40, starttime = 0, prio = 21, weight = 820, is_container = False\<rparr>)
       (16 := \<lparr>vruntime = 50, starttime = 0, prio = 19, weight = 1277, is_container = False\<rparr>),
     procs := (procs s)(8 := (procs s 8)\<lparr>p_state := DEEPSLEEPING, p_container := 100\<rparr>)\<rparr>"


end
