(* ===== verification/Spec2Isabelle.thy ===== *)
theory Spec2Isabelle
  imports Kernel_Prelude Linked_List Sync Bitmap CString Fs_Defs Block_Cache Cache_Log Inode_Base Console
    Inode File_Content Directory Inode_Table Pipe File_Table Pidmap
    Mem RBTree RBTree_Insert RBTree_Erase IPC Loop_Res Cpu PT PT_Map Paging Sched
begin

text \<open>
  A verification development for OS-2022-FDU, a small kernel for AArch64 written in C. File names
  below are relative to \<open>src/src/\<close>.

  \<^bold>\<open>The program.\<close> The kernel has, from the bottom up: generic data structures and locks (\<open>common/\<close>);
  the core clock, interrupts and timers (\<open>driver/\<close>, \<open>kernel/cpu.c\<close>); a physical page and block
  allocator (\<open>kernel/mem.c\<close>), page tables (\<open>kernel/pt.c\<close>) and user memory (\<open>kernel/paging.c\<close>); a fair
  scheduler over nested containers (\<open>kernel/sched.c\<close>); a file system with a write-ahead log
  (\<open>fs/cache.c\<close>), inodes, directories and paths (\<open>fs/inode.c\<close>), open files and pipes (\<open>fs/file.c\<close>,
  \<open>fs/pipe.c\<close>); a console (\<open>kernel/console.c\<close>); and message queues (\<open>common/ipc.c\<close>). The file system
  runs on the block cache, which runs on the SD card; user memory swaps pages through the block
  cache's swap area; semaphores hand woken threads to the scheduler.

  \<^bold>\<open>Conventions.\<close> A routine is a function from the state it reads and writes to the result and the new
  state. \<^typ>\<open>'a res\<close> is the outcome of code that can fail: a value, \<open>Panic\<close> (a \<open>PANIC()\<close>, a failed
  \<open>ASSERT\<close> or an access outside memory or a table) or \<open>Blocked\<close> (the calling thread goes to sleep
  and the rest of the call is not part of this step). Code that follows pointers in a loop returns
  an option: \<open>None\<close> means that it never returns, and the theorems state that it does return. A call
  that can sleep and that is followed further is split at the point where it sleeps, in pipes and
  message queues. What the source does under one spin lock is one atomic step. C integers are
  words where they are unsigned and can wrap; signed counters (the value of a semaphore, the size of
  a queue, the counters of the log, process identifiers) are integers, which agrees with the source
  as long as fewer than $2^{31}$ threads, items or blocks are counted.

  \<^bold>\<open>Theories and sources.\<close>
  \<^item> \<open>Kernel_Prelude\<close>, \<open>Loop_Res\<close>: outcomes, byte buffers, little-endian encodings and the locale
    \<open>codec\<close> of fixed-width encodings.
  \<^item> \<open>Linked_List\<close> (\<open>common/list.h\<close>, \<open>common/list.c\<close>): circular lists on a store of \<open>prev\<close> and \<open>next\<close>
    pointers, the queue and the lock-free stack. Each pointer routine acts on the list it
    represents as an operation on lists; the locale \<open>fifo_queue\<close> is interpreted on the queue.
  \<^item> \<open>Sync\<close> (\<open>common/spinlock.c\<close>, \<open>common/rc.c\<close>, \<open>common/sem.c\<close>): spin lock, reference count,
    semaphore; mutual exclusion of spin locks and sleep locks in every interleaving of any number of
    threads, by induction over the reachable states.
  \<^item> \<open>Bitmap\<close> (\<open>common/bitmap.h\<close>, rounding of \<open>common/defines.h\<close>) with the locale \<open>bit_array\<close>, and
    \<open>CString\<close> (\<open>common/string.c\<close>).
  \<^item> \<open>RBTree\<close>, \<open>RBTree_Insert\<close>, \<open>RBTree_Erase\<close> (\<open>common/rbtree.c\<close>): nodes with packed parent and
    colour. Insertion, removal, search and the least element return, keep the tree balanced and in
    order, and act on the list of its nodes; the locale \<open>ordered_index\<close> is the contract that timers
    and run queues use.
  \<^item> \<open>Fs_Defs\<close> (\<open>fs/defines.h\<close>, \<open>fs/block_device.c\<close>): on-disk structures with their layouts as
    interpretations of \<open>codec\<close>, and the locale \<open>block_device\<close>.
  \<^item> \<open>Block_Cache\<close> (\<open>fs/cache.h\<close>, \<open>fs/cache.c\<close>): the cache with eviction, the log, allocation of
    blocks and the swap area. The locale \<open>block_store\<close> is what the inode layer relies on: acquire,
    sync and release act on one logical disk, whatever is cached.
  \<^item> \<open>Cache_Log\<close>: crashes. The ghost field \<open>trace\<close> of the cache records the writes in order, a
    crash keeps a prefix of them, and recovery from it gives the contents before or after the
    commit. The admission of operations is a step relation; the end of an operation is two steps,
    since the log lock is free while the log is written. Within the second step the writes of a
    commit are not interleaved with other threads: operations cannot begin while the log commits, and
    blocks of a commit are held one by one under their locks.
  \<^item> \<open>Inode_Base\<close>, \<open>Inode\<close>, \<open>File_Content\<close>, \<open>Directory\<close>, \<open>Inode_Table\<close> (\<open>fs/inode.h\<close>,
    \<open>fs/inode.c\<close>): reading and writing act on the content of a file as range reads and writes,
    through direct and indirect blocks; directories act as finite maps from names to inode numbers;
    the in-memory inodes and path names.
  \<^item> \<open>Pipe\<close>, \<open>File_Table\<close> (\<open>fs/pipe.c\<close>, \<open>fs/file.c\<close>): the ring buffer as a queue of bytes, with the
    behaviour of a thread that waits, and the table of open files.
  \<^item> \<open>Console\<close> (\<open>kernel/console.c\<close>, \<open>uart_put_char\<close> of \<open>driver/uart.c\<close>): the ring buffer refines an
    abstract line editor, exactly, for every character.
  \<^item> \<open>Pidmap\<close> (\<open>kernel/pidmap.h\<close>), \<open>Mem\<close> (\<open>kernel/mem.c\<close>), \<open>PT\<close> and \<open>PT_Map\<close> (\<open>kernel/pt.c\<close>,
    \<open>aarch64/mmu.h\<close>), \<open>Paging\<close> (\<open>kernel/paging.c\<close> and the address checks of \<open>kernel/syscall.c\<close>).
    Memory is a map from addresses to bytes; the allocator's free lists lie in the free memory
    itself. Allocated regions are aligned and disjoint in every reachable state; the tables denote
    a map from user pages to entries that \<open>vmmap\<close> updates at one page; a write fault on a shared page
    copies it.
  \<^item> \<open>Cpu\<close> (\<open>driver/clock.c\<close>, \<open>driver/interrupt.c\<close>, \<open>kernel/cpu.c\<close>), \<open>Sched\<close> (\<open>kernel/sched.c\<close>,
    \<open>kernel/schinfo.h\<close>): timers fire when they expire; a woken process enters the run queue of its
    container, from which the process of least virtual run time is taken.
  \<^item> \<open>IPC\<close> (\<open>common/ipc.h\<close>, \<open>common/ipc.c\<close>): message queues on pointer lists.

  \<^bold>\<open>Parameters.\<close> What a routine calls through a function pointer or what is decided elsewhere is an
  argument: the handlers of timers and interrupts, \<open>kill\<close> and the process identifier in the console,
  the counter register, whether \<open>kalloc\<close> succeeds in \<open>pipeAlloc\<close>, the contents of fresh memory.

  \<^bold>\<open>Bounds and fuel.\<close> The only fuel is that of \<open>kill_line\<close> in the console: 128 rounds, the size of
  the ring, after which the edit index has met the write index. Every other loop is structural, has
  a termination proof or is a \<open>partial_function\<close>. The log holds at most 63 blocks, the smaller of
  the header's capacity and the log of the super block. Contents are compared outside the blocks
  of the log itself, from its header to its last block.

  \<^bold>\<open>Deviations that are proved.\<close> Where the code does not do what it means to, the model follows the
  code and a theorem states the behaviour: the byte lost by a pipe that waits
  (\<open>pipe_wait_skips_byte\<close>), the inode put by closing a pipe (\<open>fileclose_pipe_needs_inode\<close>), the
  sender that never returns (\<open>small_receiver_hangs_sender\<close>), the character that \<open>^U\<close> leaves
  (\<open>console_refines_line_discipline\<close>), the identifiers that are never cleared
  (\<open>init_pidmap_clears_one_cell\<close>), the tail of a long message (\<open>long_message_tail_lost\<close>) and the
  wrap-around in the check of user addresses (\<open>user_readable_wraps\<close>).

  \<^bold>\<open>Not modelled.\<close> Device registers (SD card, mailbox, most of the UART), assembly and the context
  switch, traps, boot, formatted output, program loading, the system call layer above the file
  system, the operations of \<open>kernel/proc.c\<close> and \<open>kernel/container.c\<close> (their structures are, as the
  scheduler uses them), user programs and the image builder. The lock usage checker of
  \<open>common/checker.h\<close> has no effect on results. Weak memory is not modelled: an atomic instruction is
  one step on one memory.
\<close>

end
